(* ===== verification/Prelude.thy ===== *)
theory Prelude
  imports Main "HOL-Library.Word" "HOL-Library.Multiset"
begin

text \<open>
  Shared ground of the development: the machine types of the ILP32 (ARMv7 \<open>virt\<close>) build, the
  error codes as a datatype, the outcome of code that can fault or block, C strings and C memory,
  the decimal printing of the \<^verbatim>\<open>printf\<close> family, and the list, option and word lemmas the
  component theories use. The collections \<open>run_simps\<close> and \<open>inv_simps\<close> gather the
  definitions a component unfolds to run an operation and to expand its invariant.
\<close>

unbundle bit_operations_syntax

named_theorems run_simps \<open>operations of the model, unfolded to evaluate them\<close>
named_theorems inv_simps \<open>well-formedness predicates of the model\<close>

section \<open>Machine types\<close>

type_synonym u8 = "8 word"
type_synonym u16 = "16 word"
type_synonym u32 = "32 word"
type_synonym u64 = "64 word"

text \<open>\<^verbatim>\<open>size_t\<close>, \<^verbatim>\<open>unsigned\<close>, \<^verbatim>\<open>unsigned long\<close> and \<^verbatim>\<open>l4_umword_t\<close> are 32 bits wide there.\<close>

type_synonym size_t = "32 word"

text \<open>A capability index (\<^verbatim>\<open>l4_cap_idx_t\<close>); an invalid capability is \<open>None\<close>.\<close>

type_synonym cap = nat

section \<open>Errors and outcomes\<close>

text \<open>
  The POSIX and L4 error codes the sources return as negative numbers. \<open>ENOREPLY\<close> is
  \<^verbatim>\<open>-L4_ENOREPLY\<close>: the server sends no answer.
\<close>

datatype errno =
    EPERM | ENOENT | EIO | EAGAIN | ENOMEM | EACCES | EEXIST | ENOTDIR | EISDIR | EINVAL
  | ENOSPC | EROFS | ENOTEMPTY | ENOREPLY | ENODEV | ERANGE | ENOSYS

text \<open>
  What running a piece of C can come to: it returns, it accesses memory out of bounds
  (undefined behaviour), or it is still in a loop: waiting for an event that has not come, or
  for ever.
\<close>

datatype 'a outcome = Ret 'a | Fault | Stuck

fun obind :: "'a outcome \<Rightarrow> ('a \<Rightarrow> 'b outcome) \<Rightarrow> 'b outcome" where
  "obind (Ret x) f = f x"
| "obind Fault f = Fault"
| "obind Stuck f = Stuck"

lemma obind_Ret_iff: "obind m f = Ret y \<longleftrightarrow> (\<exists>x. m = Ret x \<and> f x = Ret y)"
  by (cases m) auto

lemma option_eqI: "(\<And>u. a = Some u \<longleftrightarrow> b = Some u) \<Longrightarrow> a = b"
  by (cases a; cases b) auto

text \<open>The numeric values; IPC handlers return them negated, in the same word as a result.\<close>

fun errcode :: "errno \<Rightarrow> int" where
  "errcode EPERM = 1"
| "errcode ENOENT = 2"
| "errcode EIO = 5"
| "errcode EAGAIN = 11"
| "errcode ENOMEM = 12"
| "errcode EACCES = 13"
| "errcode EEXIST = 17"
| "errcode ENOTDIR = 20"
| "errcode EISDIR = 21"
| "errcode EINVAL = 22"
| "errcode ENOSPC = 28"
| "errcode EROFS = 30"
| "errcode ENOTEMPTY = 39"
| "errcode ENOREPLY = 1000"
| "errcode ENODEV = 19"
| "errcode ERANGE = 34"
| "errcode ENOSYS = 38"

abbreviation err :: "errno \<Rightarrow> int" where
  "err e \<equiv> - errcode e"

text \<open>The fields of \<^verbatim>\<open>struct stat64\<close> the file systems set.\<close>

record stat_buf =
  st_mode :: nat
  st_ino :: nat
  st_nlink :: nat
  st_rdev :: "nat \<times> nat"
  st_size :: int
  st_blksize :: nat
  st_blocks :: int

text \<open>After \<^verbatim>\<open>memset(b, 0, sizeof(*b))\<close>.\<close>

definition stat_zero :: stat_buf where
  "stat_zero = \<lparr>st_mode = 0, st_ino = 0, st_nlink = 0, st_rdev = (0, 0), st_size = 0, st_blksize = 0, st_blocks = 0\<rparr>"

section \<open>Lists\<close>

text \<open>The index a linear search \<^verbatim>\<open>for (i = 0; ...; i++) if (P(a[i])) return i;\<close> stops at.\<close>

fun find_idx :: "('a \<Rightarrow> bool) \<Rightarrow> 'a list \<Rightarrow> nat option" where
  "find_idx P [] = None"
| "find_idx P (x # xs) = (if P x then Some 0 else map_option Suc (find_idx P xs))"

lemma find_idx_SomeD:
  "find_idx P xs = Some i \<Longrightarrow> i < length xs \<and> P (xs ! i) \<and> (\<forall>j < i. \<not> P (xs ! j))"
proof (induction xs arbitrary: i)
  case Nil
  then show ?case by simp
next
  case (Cons x xs)
  show ?case
  proof (cases "P x")
    case True
    with Cons.prems show ?thesis by simp
  next
    case False
    with Cons.prems obtain k where k: "find_idx P xs = Some k" "i = Suc k"
      by auto
    from Cons.IH[OF k(1)] False k(2) show ?thesis
      by (auto simp: less_Suc_eq_0_disj)
  qed
qed

lemma find_idx_None: "find_idx P xs = None \<longleftrightarrow> (\<forall>x \<in> set xs. \<not> P x)"
  by (induction xs) auto

lemma find_idx_SomeI:
  "i < length xs \<Longrightarrow> P (xs ! i) \<Longrightarrow> (\<And>j. j < i \<Longrightarrow> \<not> P (xs ! j)) \<Longrightarrow> find_idx P xs = Some i"
proof (induction xs arbitrary: i)
  case Nil
  then show ?case by simp
next
  case (Cons x xs)
  show ?case
  proof (cases i)
    case 0
    with Cons.prems show ?thesis by simp
  next
    case (Suc k)
    have "find_idx P xs = Some k"
    proof (rule Cons.IH)
      show "k < length xs" "P (xs ! k)"
        using Cons.prems(1,2) Suc by simp_all
      show "\<not> P (xs ! j)" if "j < k" for j
        using Cons.prems(3)[of "Suc j"] Suc that by simp
    qed
    moreover have "\<not> P x"
      using Cons.prems(3)[of 0] Suc by simp
    ultimately show ?thesis using Suc by simp
  qed
qed

text \<open>A search whose predicate holds at exactly one place finds it.\<close>

lemma find_idx_unique:
  assumes "i < length xs" and "P (xs ! i)" and "\<And>j. j < length xs \<Longrightarrow> P (xs ! j) \<Longrightarrow> j = i"
  shows "find_idx P xs = Some i"
proof (rule find_idx_SomeI)
  show "i < length xs" by (rule assms(1))
  show "P (xs ! i)" by (rule assms(2))
  show "\<not> P (xs ! j)" if "j < i" for j
  proof
    assume "P (xs ! j)"
    with assms(1) that have "j = i" by (intro assms(3)) simp_all
    with that show False by simp
  qed
qed

lemma find_idx_update: "i < length xs \<Longrightarrow> P x = P (xs ! i) \<Longrightarrow> find_idx P (xs[i := x]) = find_idx P xs"
proof (induction xs arbitrary: i)
  case Nil
  then show ?case by simp
next
  case (Cons y ys)
  then show ?case by (cases i) auto
qed

lemma find_idx_map: "(\<And>x. x \<in> set xs \<Longrightarrow> P (f x) = P x) \<Longrightarrow> find_idx P (map f xs) = find_idx P xs"
  by (induction xs) auto

lemma sum_list_map_update:
  "i < length xs \<Longrightarrow>
   sum_list (map f (xs[i := x])) + f (xs ! i) = sum_list (map f xs) + (f x :: 'b :: comm_monoid_add)"
proof (induction xs arbitrary: i)
  case Nil
  then show ?case by simp
next
  case (Cons y ys)
  show ?case
  proof (cases i)
    case 0
    then show ?thesis by (simp add: add_ac)
  next
    case (Suc k)
    with Cons have "sum_list (map f (ys[k := x])) + f (ys ! k) = sum_list (map f ys) + f x"
      by simp
    then show ?thesis using Suc by (simp add: add.assoc)
  qed
qed

section \<open>Words\<close>

lemma take_bit_self_iff:
  fixes w :: "'a :: len word"
  assumes "n < LENGTH('a)"
  shows "take_bit n w = w \<longleftrightarrow> w < 2 ^ n"
proof -
  have "unat (2 ^ n :: 'a word) = 2 ^ n"
    using assms unsigned_of_nat[of "2 ^ n", where 'a = nat and 'b = 'a]
    by (simp add: take_bit_nat_eq_self_iff)
  then show ?thesis
    by (simp add: word_unat_eq_iff unsigned_take_bit_eq take_bit_nat_eq_self_iff word_less_nat_alt)
qed

lemma sint_small:
  assumes "unat (w :: u32) < 2 ^ 31"
  shows "sint w = int (unat w)"
proof -
  have "sint w = signed_take_bit 31 (int (unat w))" by (simp add: sint_uint)
  also have "\<dots> = int (unat w)"
  proof (rule signed_take_bit_int_eq_self)
    show "- (2 ^ 31) \<le> int (unat w)" by (rule order_trans[OF _ of_nat_0_le_iff]) simp
    have "int (unat w) < int (2 ^ 31)" by (rule of_nat_less_iff[THEN iffD2, OF assms])
    then show "int (unat w) < 2 ^ 31" by (simp only: of_nat_power of_nat_numeral)
  qed
  finally show ?thesis .
qed

lemma unat_add_of_nat:
  fixes a :: "'a :: len word"
  shows "unat a + n < 2 ^ LENGTH('a) \<Longrightarrow> unat (a + of_nat n) = unat a + n"
  by (simp add: unat_word_ariths unsigned_of_nat take_bit_eq_mod)

text \<open>\<^verbatim>\<open>l4_trunc_page\<close> and \<^verbatim>\<open>l4_round_page\<close> at 32 bits.\<close>

definition trunc_page :: "u32 \<Rightarrow> u32" where
  "trunc_page x = x AND NOT 0xfff"

definition round_page :: "u32 \<Rightarrow> u32" where
  "round_page x = (x + 0xfff) AND NOT 0xfff"

lemma unat_trunc_page: "unat (trunc_page x) = 4096 * (unat x div 4096)"
proof -
  have m: "(0xfff :: u32) = mask 12" by (simp add: mask_eq_exp_minus_1)
  have "trunc_page x = push_bit 12 (drop_bit 12 x)"
    unfolding trunc_page_def m by (rule bit_word_eqI) (auto simp: bit_simps)
  moreover have "unat x div 4096 < 2 ^ 20" using unsigned_less[of x, where 'a = nat] by (simp add: less_mult_imp_div_less)
  ultimately show ?thesis
    by (simp add: unat_word_ariths unat_div push_bit_eq_mult drop_bit_eq_div mult.commute)
qed

lemma round_page_trunc: "round_page x = trunc_page (x + 0xfff)"
  by (simp add: round_page_def trunc_page_def)

lemma unat_round_page:
  "unat x \<le> 2 ^ 32 - 4096 \<Longrightarrow> unat (round_page x) = 4096 * ((unat x + 4095) div 4096)"
  by (simp add: round_page_trunc unat_trunc_page unat_word_ariths)

lemma round_page_ge: "unat x \<le> 2 ^ 32 - 4096 \<Longrightarrow> unat x \<le> unat (round_page x)"
  by (simp add: unat_round_page)

section \<open>C memory\<close>

text \<open>An object is the list of its bytes; an access outside it is a fault.\<close>

definition mem_get :: "'a list \<Rightarrow> nat \<Rightarrow> nat \<Rightarrow> 'a list outcome" where
  "mem_get m off n = (if off + n \<le> length m then Ret (take n (drop off m)) else Fault)"

definition mem_put :: "'a list \<Rightarrow> nat \<Rightarrow> 'a list \<Rightarrow> 'a list outcome" where
  "mem_put m off bs =
     (if off + length bs \<le> length m then Ret (take off m @ bs @ drop (off + length bs) m) else Fault)"

lemma mem_put_length: "mem_put m off bs = Ret m' \<Longrightarrow> length m' = length m"
  by (auto simp: mem_put_def split: if_splits)

lemma mem_get_put_same: "mem_put m off bs = Ret m' \<Longrightarrow> mem_get m' off (length bs) = Ret bs"
  by (auto simp: mem_put_def mem_get_def split: if_splits)

section \<open>C strings\<close>

abbreviation NUL :: char where
  "NUL \<equiv> CHR 0x00"

text \<open>The C string that starts a buffer whose end is known to be terminated.\<close>

definition cstr :: "string \<Rightarrow> string" where
  "cstr b = takeWhile (\<lambda>c. c \<noteq> NUL) b"

text \<open>\<^verbatim>\<open>strlen\<close> at an offset of an object: out of bounds when no NUL follows.\<close>

definition cstr_at :: "string \<Rightarrow> nat \<Rightarrow> string outcome" where
  "cstr_at b p = (if NUL \<in> set (drop p b) then Ret (cstr (drop p b)) else Fault)"

lemma cstr_id: "NUL \<notin> set s \<Longrightarrow> cstr s = s"
  by (auto simp: cstr_def takeWhile_eq_all_conv)

lemma cstr_append: "NUL \<notin> set s \<Longrightarrow> cstr (s @ NUL # t) = s"
  by (auto simp: cstr_def takeWhile_append takeWhile_eq_all_conv)

lemma NUL_notin_cstr [simp]: "NUL \<notin> set (cstr s)"
  by (auto simp: cstr_def dest: set_takeWhileD)

lemma length_cstr_le: "length (cstr s) \<le> length s"
  by (simp add: cstr_def length_takeWhile_le)

lemma cstr_cstr [simp]: "cstr (cstr s) = cstr s"
  by (simp add: cstr_id)

text \<open>\<^verbatim>\<open>snprintf(buf, n, ...)\<close>: the text that arrives in a buffer of \<open>n\<close> bytes.\<close>

definition snprintf_buf :: "nat \<Rightarrow> string \<Rightarrow> string" where
  "snprintf_buf n s = take (n - 1) s"

lemma snprintf_buf_fits: "length s < n \<Longrightarrow> snprintf_buf n s = s"
  by (simp add: snprintf_buf_def)

lemma length_snprintf_buf: "0 < n \<Longrightarrow> length (snprintf_buf n s) < n"
  by (simp add: snprintf_buf_def)

section \<open>Decimal printing\<close>

definition digit :: "nat \<Rightarrow> char" where
  "digit d = char_of (48 + d)"

fun show_nat :: "nat \<Rightarrow> string" where
  "show_nat n = (if n < 10 then [digit n] else show_nat (n div 10) @ [digit (n mod 10)])"

declare show_nat.simps [simp del]

definition show_int :: "int \<Rightarrow> string" where
  "show_int i = (if i < 0 then CHR ''-'' # show_nat (nat (- i)) else show_nat (nat i))"

text \<open>\<^verbatim>\<open>%0wu\<close> and \<^verbatim>\<open>%wu\<close>: padding on the left up to a width.\<close>

definition pad_left :: "char \<Rightarrow> nat \<Rightarrow> string \<Rightarrow> string" where
  "pad_left c w s = replicate (w - length s) c @ s"

definition pad_right :: "nat \<Rightarrow> string \<Rightarrow> string" where
  "pad_right w s = s @ replicate (w - length s) (CHR '' '')"

definition is_digit :: "char \<Rightarrow> bool" where
  "is_digit c \<longleftrightarrow> 48 \<le> (of_char c :: nat) \<and> (of_char c :: nat) \<le> 57"

definition read_nat :: "string \<Rightarrow> nat" where
  "read_nat s = foldl (\<lambda>a c. 10 * a + (of_char c - 48)) 0 s"

lemma of_char_digit: "d < 10 \<Longrightarrow> (of_char (digit d) :: nat) = 48 + d"
  by (simp add: digit_def of_char_of)

lemma is_digit_digit: "d < 10 \<Longrightarrow> is_digit (digit d)"
  by (simp add: is_digit_def of_char_digit)

lemma show_nat_digits: "c \<in> set (show_nat n) \<Longrightarrow> is_digit c"
  by (induction n rule: show_nat.induct)
    (subst (asm) show_nat.simps, auto split: if_splits simp: is_digit_digit)

lemma read_show_nat [simp]: "read_nat (show_nat n) = n"
  by (induction n rule: show_nat.induct)
    (subst show_nat.simps, simp add: read_nat_def of_char_digit split: if_splits)

lemma show_nat_inj: "show_nat m = show_nat n \<longleftrightarrow> m = n"
  by (metis read_show_nat)

lemma show_nat_nonempty [simp]: "show_nat n \<noteq> []"
  by (subst show_nat.simps) simp

lemma length_show_nat: "n < 10 ^ k \<Longrightarrow> 0 < k \<Longrightarrow> length (show_nat n) \<le> k"
proof (induction n arbitrary: k rule: show_nat.induct)
  case (1 n)
  show ?case
  proof (cases "n < 10")
    case True
    then show ?thesis using 1(3) by (subst show_nat.simps) simp
  next
    case False
    from 1(3) obtain j where k: "k = Suc j" by (cases k) auto
    moreover from this 1(2) False have "0 < j" by (cases j) auto
    ultimately have "length (show_nat (n div 10)) \<le> j"
      using 1(1)[OF False, of j] 1(2) by (simp add: less_mult_imp_div_less mult.commute)
    then show ?thesis using False k by (subst show_nat.simps) simp
  qed
qed

lemma NUL_notin_show_nat [simp]: "NUL \<notin> set (show_nat n)"
  using show_nat_digits[of NUL n] by (auto simp: is_digit_def)

end
