(* ===== verification/Task_Table.thy ===== *)
theory Task_Table
  imports Prelude
begin

text \<open>
  The child table of the program loader, \<^verbatim>\<open>pkg/spawn/server/src/task_table.h\<close> and
  \<^verbatim>\<open>task_table.cc\<close>: 32 slots, each free or holding one child under a 32-bit handle. A
  pointer \<^verbatim>\<open>Child_task *\<close> is the slot's index. \<^verbatim>\<open>Unique_del_cap\<close> is an optional
  capability; resetting or overwriting one destroys the kernel object, so the operations that do
  that return the list of destroyed capabilities. The abstract view of the table is the partial
  map \<open>live\<close> from handles to children; the locale \<open>handle_map\<close> is the contract its
  clients use.
\<close>

section \<open>The slots and the table\<close>

datatype task_state = FREE | LOADING | RUNNING | EXITED

record child_task =
  ct_handle :: u32
  ct_name :: string
  ct_task :: "cap option"
  ct_thread :: "cap option"
  ct_rm :: "cap option"
  ct_parent_gate :: "cap option"
  ct_state :: task_state
  ct_exit_code :: int
  ct_being_waited :: bool

record task_table =
  tt_tasks :: "child_task list"
  tt_next_handle :: u32

definition TASK_MAX :: nat where
  "TASK_MAX = 32"

definition empty_task :: child_task where
  "empty_task = \<lparr>ct_handle = 0, ct_name = [], ct_task = None, ct_thread = None, ct_rm = None,
     ct_parent_gate = None, ct_state = FREE, ct_exit_code = 0, ct_being_waited = False\<rparr>"

definition task_table_init :: task_table where
  "task_table_init = \<lparr>tt_tasks = replicate TASK_MAX empty_task, tt_next_handle = 1\<rparr>"

section \<open>Operations\<close>

definition alloc_slot :: "u32 \<Rightarrow> string option \<Rightarrow> child_task \<Rightarrow> child_task" where
  "alloc_slot h nm t = t\<lparr>ct_handle := h, ct_state := LOADING, ct_exit_code := 0,
     ct_being_waited := False,
     ct_name := take 63 (case nm of None \<Rightarrow> ''?'' | Some s \<Rightarrow> s)\<rparr>"

definition tt_alloc :: "task_table \<Rightarrow> string option \<Rightarrow> task_table \<times> nat option" where
  "tt_alloc T nm =
     (case find_idx (\<lambda>t. ct_state t = FREE) (tt_tasks T) of
        None \<Rightarrow> (T, None)
      | Some i \<Rightarrow>
          (T\<lparr>tt_tasks := (tt_tasks T)[i := alloc_slot (tt_next_handle T) nm (tt_tasks T ! i)],
             tt_next_handle := tt_next_handle T + 1\<rparr>, Some i))"

definition tt_find :: "task_table \<Rightarrow> u32 \<Rightarrow> nat option" where
  "tt_find T h = find_idx (\<lambda>t. ct_state t \<noteq> FREE \<and> ct_handle t = h) (tt_tasks T)"

definition upd_slot :: "task_table \<Rightarrow> nat \<Rightarrow> (child_task \<Rightarrow> child_task) \<Rightarrow> task_table" where
  "upd_slot T i f = T\<lparr>tt_tasks := (tt_tasks T)[i := f (tt_tasks T ! i)]\<rparr>"

definition mark_exited :: "int \<Rightarrow> child_task \<Rightarrow> child_task" where
  "mark_exited code t = t\<lparr>ct_state := EXITED, ct_exit_code := code\<rparr>"

definition tt_set_exited :: "task_table \<Rightarrow> u32 \<Rightarrow> int \<Rightarrow> task_table" where
  "tt_set_exited T h code =
     (case tt_find T h of None \<Rightarrow> T | Some i \<Rightarrow> upd_slot T i (mark_exited code))"

text \<open>The capabilities a slot owns, in the order \<open>tt_free\<close> resets them.\<close>

definition caps_of :: "child_task \<Rightarrow> cap list" where
  "caps_of t = concat (map (\<lambda>c. case c of None \<Rightarrow> [] | Some x \<Rightarrow> [x])
     [ct_task t, ct_thread t, ct_rm t, ct_parent_gate t])"

definition clear_slot :: "child_task \<Rightarrow> child_task" where
  "clear_slot t = t\<lparr>ct_task := None, ct_thread := None, ct_rm := None, ct_parent_gate := None,
     ct_state := FREE, ct_handle := 0, ct_name := []\<rparr>"

definition tt_free :: "task_table \<Rightarrow> u32 \<Rightarrow> task_table \<times> cap list" where
  "tt_free T h =
     (case tt_find T h of None \<Rightarrow> (T, [])
      | Some i \<Rightarrow> (upd_slot T i clear_slot, caps_of (tt_tasks T ! i)))"

definition tt_count :: "task_table \<Rightarrow> nat" where
  "tt_count T = length (filter (\<lambda>t. ct_state t = RUNNING \<or> ct_state t = EXITED) (tt_tasks T))"

definition tt_at :: "task_table \<Rightarrow> int \<Rightarrow> nat option" where
  "tt_at T i = (if i < 0 \<or> int TASK_MAX \<le> i then None else Some (nat i))"

section \<open>Well-formed tables\<close>

definition is_live :: "child_task \<Rightarrow> bool" where
  "is_live t \<longleftrightarrow> ct_state t \<noteq> FREE"

definition slot_ok :: "child_task \<Rightarrow> bool" where
  "slot_ok t \<longleftrightarrow>
     (ct_state t = FREE \<longrightarrow> ct_handle t = 0 \<and> caps_of t = []) \<and>
     (ct_state t = LOADING \<longrightarrow> caps_of t = []) \<and>
     (ct_state t = RUNNING \<longrightarrow> length (caps_of t) = 4)"

definition table_inv :: "task_table \<Rightarrow> bool" where
  "table_inv T \<longleftrightarrow>
     length (tt_tasks T) = TASK_MAX \<and>
     (\<forall>i < TASK_MAX. slot_ok (tt_tasks T ! i)) \<and>
     (\<forall>i < TASK_MAX. is_live (tt_tasks T ! i) \<longrightarrow>
        0 < unat (ct_handle (tt_tasks T ! i)) \<and>
        unat (ct_handle (tt_tasks T ! i)) < unat (tt_next_handle T)) \<and>
     (\<forall>i < TASK_MAX. \<forall>j < TASK_MAX. is_live (tt_tasks T ! i) \<longrightarrow> is_live (tt_tasks T ! j) \<longrightarrow>
        ct_handle (tt_tasks T ! i) = ct_handle (tt_tasks T ! j) \<longrightarrow> i = j) \<and>
     0 < unat (tt_next_handle T)"

text \<open>Handles are still left: the 32-bit counter has not run through its range.\<close>

definition handles_left :: "task_table \<Rightarrow> bool" where
  "handles_left T \<longleftrightarrow> unat (tt_next_handle T) < 2 ^ 32 - 1"

text \<open>The table as its clients see it.\<close>

definition live :: "task_table \<Rightarrow> u32 \<Rightarrow> child_task option" where
  "live T h = map_option ((!) (tt_tasks T)) (tt_find T h)"

lemmas table_inv_unfold = table_inv_def slot_ok_def is_live_def

lemma caps_of_simps [simp]:
  "caps_of (alloc_slot h nm t) = caps_of t"
  "caps_of (clear_slot t) = []"
  "caps_of (mark_exited c t) = caps_of t"
  "caps_of empty_task = []"
  by (simp_all add: caps_of_def alloc_slot_def clear_slot_def mark_exited_def empty_task_def)

lemma caps_of_Nil:
  "caps_of t = [] \<longleftrightarrow> ct_task t = None \<and> ct_thread t = None \<and> ct_rm t = None \<and> ct_parent_gate t = None"
  by (auto simp: caps_of_def split: option.splits)

lemma table_inv_init: "table_inv task_table_init"
  by (simp add: table_inv_unfold task_table_init_def TASK_MAX_def empty_task_def caps_of_def)

lemma table_inv_uniq:
  "table_inv T \<Longrightarrow> i < TASK_MAX \<Longrightarrow> j < TASK_MAX \<Longrightarrow> is_live (tt_tasks T ! i) \<Longrightarrow>
   is_live (tt_tasks T ! j) \<Longrightarrow> ct_handle (tt_tasks T ! i) = ct_handle (tt_tasks T ! j) \<Longrightarrow> i = j"
  unfolding table_inv_def by blast

lemma tt_find_iff:
  assumes "table_inv T"
  shows "tt_find T h = Some i \<longleftrightarrow>
    i < TASK_MAX \<and> is_live (tt_tasks T ! i) \<and> ct_handle (tt_tasks T ! i) = h"
proof
  assume "tt_find T h = Some i"
  from find_idx_SomeD[OF this[unfolded tt_find_def]] assms
  show "i < TASK_MAX \<and> is_live (tt_tasks T ! i) \<and> ct_handle (tt_tasks T ! i) = h"
    by (simp add: table_inv_def is_live_def)
next
  assume r: "i < TASK_MAX \<and> is_live (tt_tasks T ! i) \<and> ct_handle (tt_tasks T ! i) = h"
  show "tt_find T h = Some i"
    unfolding tt_find_def
  proof (rule find_idx_unique)
    show "i < length (tt_tasks T)" using r assms by (simp add: table_inv_def)
    show "ct_state (tt_tasks T ! i) \<noteq> FREE \<and> ct_handle (tt_tasks T ! i) = h"
      using r by (simp add: is_live_def)
    show "j = i" if "j < length (tt_tasks T)"
      and "ct_state (tt_tasks T ! j) \<noteq> FREE \<and> ct_handle (tt_tasks T ! j) = h" for j
      using that r assms by (auto simp: table_inv_def is_live_def)
  qed
qed

lemma live_Some_iff:
  assumes "table_inv T"
  shows "live T h = Some t \<longleftrightarrow>
    (\<exists>i < TASK_MAX. tt_tasks T ! i = t \<and> is_live t \<and> ct_handle t = h)"
  using tt_find_iff[OF assms] by (auto simp: live_def)

lemma live_None_iff:
  assumes "table_inv T"
  shows "live T h = None \<longleftrightarrow>
    (\<forall>i < TASK_MAX. is_live (tt_tasks T ! i) \<longrightarrow> ct_handle (tt_tasks T ! i) \<noteq> h)"
proof -
  have "live T h = None \<longleftrightarrow> (\<forall>i. tt_find T h \<noteq> Some i)"
    by (simp add: live_def)
  then show ?thesis using tt_find_iff[OF assms] by auto
qed

text \<open>
  Every operation overwrites one slot. The two lemmas below say, once, when that keeps the
  invariant and what it does to the abstract map.
\<close>

definition put_slot :: "task_table \<Rightarrow> nat \<Rightarrow> child_task \<Rightarrow> u32 \<Rightarrow> task_table" where
  "put_slot T i t n = T\<lparr>tt_tasks := (tt_tasks T)[i := t], tt_next_handle := n\<rparr>"

definition may_put :: "task_table \<Rightarrow> nat \<Rightarrow> child_task \<Rightarrow> u32 \<Rightarrow> bool" where
  "may_put T i t n \<longleftrightarrow> i < TASK_MAX \<and> slot_ok t \<and> unat (tt_next_handle T) \<le> unat n \<and>
     (is_live t \<longrightarrow> 0 < unat (ct_handle t) \<and> unat (ct_handle t) < unat n \<and>
        (\<forall>j < TASK_MAX. j \<noteq> i \<longrightarrow> is_live (tt_tasks T ! j) \<longrightarrow> ct_handle (tt_tasks T ! j) \<noteq> ct_handle t))"

lemma put_slot_nth:
  assumes "table_inv T" and "j < TASK_MAX" and "i < TASK_MAX"
  shows "tt_tasks (put_slot T i t n) ! j = (if j = i then t else tt_tasks T ! j)"
  using assms by (simp add: put_slot_def table_inv_def)

lemma put_slot_inv:
  assumes "table_inv T" and "may_put T i t n"
  shows "table_inv (put_slot T i t n)"
proof -
  have i: "i < TASK_MAX" using assms(2) by (simp add: may_put_def)
  have nth: "\<And>j. j < TASK_MAX \<Longrightarrow> tt_tasks (put_slot T i t n) ! j = (if j = i then t else tt_tasks T ! j)"
    using put_slot_nth[OF assms(1) _ i] by blast
  have len: "length (tt_tasks (put_slot T i t n)) = TASK_MAX"
    using assms(1) by (simp add: put_slot_def table_inv_def)
  have nxt: "tt_next_handle (put_slot T i t n) = n"
    by (simp add: put_slot_def)
  have ok: "slot_ok (tt_tasks (put_slot T i t n) ! j)" if "j < TASK_MAX" for j
    using assms that by (auto simp: nth table_inv_def may_put_def)
  have bnd: "0 < unat (ct_handle (tt_tasks (put_slot T i t n) ! j)) \<and>
      unat (ct_handle (tt_tasks (put_slot T i t n) ! j)) < unat n"
    if "j < TASK_MAX" "is_live (tt_tasks (put_slot T i t n) ! j)" for j
  proof (cases "j = i")
    case True
    with assms(2) that show ?thesis by (auto simp: nth may_put_def)
  next
    case False
    with assms(1) that have "0 < unat (ct_handle (tt_tasks T ! j)) \<and>
        unat (ct_handle (tt_tasks T ! j)) < unat (tt_next_handle T)"
      by (simp add: nth table_inv_def)
    with assms(2) False that show ?thesis by (auto simp: nth may_put_def)
  qed
  have uniq: "j = k"
    if "j < TASK_MAX" "k < TASK_MAX" "is_live (tt_tasks (put_slot T i t n) ! j)"
      "is_live (tt_tasks (put_slot T i t n) ! k)"
      "ct_handle (tt_tasks (put_slot T i t n) ! j) = ct_handle (tt_tasks (put_slot T i t n) ! k)" for j k
  proof (cases "j = i \<or> k = i")
    case True
    with assms(2) that show ?thesis by (auto simp: nth may_put_def split: if_splits)
  next
    case False
    with that table_inv_uniq[OF assms(1) that(1,2)] show ?thesis by (simp add: nth)
  qed
  have "0 < unat n"
    using assms by (simp add: table_inv_def may_put_def)
  moreover have "\<forall>j < TASK_MAX. slot_ok (tt_tasks (put_slot T i t n) ! j)"
    using ok by blast
  moreover have "\<forall>j < TASK_MAX. is_live (tt_tasks (put_slot T i t n) ! j) \<longrightarrow>
      0 < unat (ct_handle (tt_tasks (put_slot T i t n) ! j)) \<and>
      unat (ct_handle (tt_tasks (put_slot T i t n) ! j)) < unat n"
    using bnd by blast
  moreover have "\<forall>j < TASK_MAX. \<forall>k < TASK_MAX. is_live (tt_tasks (put_slot T i t n) ! j) \<longrightarrow>
      is_live (tt_tasks (put_slot T i t n) ! k) \<longrightarrow>
      ct_handle (tt_tasks (put_slot T i t n) ! j) = ct_handle (tt_tasks (put_slot T i t n) ! k) \<longrightarrow> j = k"
    using uniq by blast
  ultimately show ?thesis
    unfolding table_inv_def nxt using len by (intro conjI)
qed

lemma put_slot_live:
  assumes "table_inv T" and "may_put T i t n"
  shows "live (put_slot T i t n) h =
    (if is_live t \<and> ct_handle t = h then Some t
     else if is_live (tt_tasks T ! i) \<and> ct_handle (tt_tasks T ! i) = h then None
     else live T h)"
proof -
  have i: "i < TASK_MAX" using assms(2) by (simp add: may_put_def)
  note inv' = put_slot_inv[OF assms]
  note nth = put_slot_nth[OF assms(1) _ i]
  show ?thesis
  proof (cases "is_live t \<and> ct_handle t = h")
    case True
    then have "live (put_slot T i t n) h = Some t"
      unfolding live_Some_iff[OF inv'] using i nth[of i] by (intro exI[of _ i]) simp
    with True show ?thesis by (simp only: if_P)
  next
    case nt: False
    show ?thesis
    proof (cases "is_live (tt_tasks T ! i) \<and> ct_handle (tt_tasks T ! i) = h")
      case True
      then have "live (put_slot T i t n) h = None"
        unfolding live_None_iff[OF inv']
      proof (intro allI impI)
        fix j assume j: "j < TASK_MAX" "is_live (tt_tasks (put_slot T i t n) ! j)"
        show "ct_handle (tt_tasks (put_slot T i t n) ! j) \<noteq> h"
        proof (cases "j = i")
          case True
          with j nt nth[of j] show ?thesis by simp
        next
          case False
          with j nth[of j] True table_inv_uniq[OF assms(1) j(1) i] show ?thesis by auto
        qed
      qed
      then show ?thesis unfolding if_not_P[OF nt] if_P[OF True] .
    next
      case False
      have "live (put_slot T i t n) h = Some u \<longleftrightarrow> live T h = Some u" for u
        unfolding live_Some_iff[OF inv'] live_Some_iff[OF assms(1)]
      proof
        assume "\<exists>j < TASK_MAX. tt_tasks (put_slot T i t n) ! j = u \<and> is_live u \<and> ct_handle u = h"
        then obtain j where "j < TASK_MAX" "tt_tasks (put_slot T i t n) ! j = u" "is_live u" "ct_handle u = h"
          by blast
        with nt nth[of j] show "\<exists>j < TASK_MAX. tt_tasks T ! j = u \<and> is_live u \<and> ct_handle u = h"
          by (intro exI[of _ j]) (simp split: if_splits)
      next
        assume "\<exists>j < TASK_MAX. tt_tasks T ! j = u \<and> is_live u \<and> ct_handle u = h"
        then obtain j where "j < TASK_MAX" "tt_tasks T ! j = u" "is_live u" "ct_handle u = h"
          by blast
        with False nth[of j]
        show "\<exists>j < TASK_MAX. tt_tasks (put_slot T i t n) ! j = u \<and> is_live u \<and> ct_handle u = h"
          by (intro exI[of _ j]) auto
      qed
      then have "live (put_slot T i t n) h = live T h"
        by (rule option_eqI)
      then show ?thesis unfolding if_not_P[OF nt] if_not_P[OF False] .
    qed
  qed
qed

section \<open>The contract of a handle table\<close>

text \<open>
  What a client of such a table relies on: a new entry gets a handle nobody holds, and every
  operation on one handle leaves the entries under the other handles alone.
\<close>

locale handle_map =
  fixes inv :: "'t \<Rightarrow> bool"
    and room :: "'t \<Rightarrow> bool"
    and look :: "'t \<Rightarrow> 'h \<Rightarrow> 'v option"
    and new :: "'t \<Rightarrow> 'n \<Rightarrow> ('t \<times> 'h) option"
    and del :: "'t \<Rightarrow> 'h \<Rightarrow> 't"
    and upd :: "'t \<Rightarrow> 'h \<Rightarrow> ('v \<Rightarrow> 'v) \<Rightarrow> 't"
    and first :: "'h \<Rightarrow> 'n \<Rightarrow> 'v"
    and good :: "'h \<Rightarrow> 'v \<Rightarrow> bool"
  assumes new_look: "inv T \<Longrightarrow> room T \<Longrightarrow> new T n = Some (T', h) \<Longrightarrow>
      inv T' \<and> look T h = None \<and> look T' = (look T)(h \<mapsto> first h n)"
    and del_look: "inv T \<Longrightarrow> inv (del T h) \<and> look (del T h) = (look T)(h := None)"
    and upd_look: "inv T \<Longrightarrow> look T h = Some v \<Longrightarrow> good h (f v) \<Longrightarrow>
      inv (upd T h f) \<and> look (upd T h f) = (look T)(h \<mapsto> f v)"
    and upd_absent: "look T h = None \<Longrightarrow> upd T h f = T"
    and look_good: "inv T \<Longrightarrow> look T h = Some v \<Longrightarrow> good h v"
begin

lemma new_then_del:
  assumes "inv T" and "room T" and "new T n = Some (T', h)"
  shows "look (del T' h) = look T"
  using new_look[OF assms] del_look[of T' h] by (simp add: fun_upd_idem)

lemma upd_then_del:
  assumes "inv T" and "look T h = Some v" and "good h (f v)"
  shows "look (del (upd T h f) h) = look (del T h)"
  using upd_look[of T h v f] assms del_look[OF assms(1), of h] del_look[of "upd T h f" h]
  by simp

lemma upd_safe:
  assumes "inv T" and "\<And>v. good h v \<Longrightarrow> good h (f v)"
  shows "inv (upd T h f) \<and> look (upd T h f) = (look T)(h := map_option f (look T h))"
proof (cases "look T h")
  case None
  with assms(1) show ?thesis by (simp add: upd_absent fun_upd_idem)
next
  case (Some v)
  with assms(1) have "good h (f v)" by (intro assms(2) look_good)
  with Some assms(1) show ?thesis using upd_look[of T h v f] by simp
qed

text \<open>A run of updates under other handles, in any order, is invisible under this one.\<close>

lemma upds_frame:
  assumes "inv T" and "\<And>k f. (k, f) \<in> set us \<Longrightarrow> k \<noteq> h"
    and "\<And>k f v. (k, f) \<in> set us \<Longrightarrow> good k v \<Longrightarrow> good k (f v)"
  shows "inv (fold (\<lambda>(k, f) T. upd T k f) us T) \<and> look (fold (\<lambda>(k, f) T. upd T k f) us T) h = look T h"
  using assms
proof (induction us arbitrary: T)
  case Nil
  then show ?case by simp
next
  case (Cons u us)
  obtain k f where u: "u = (k, f)" by (cases u)
  have s: "inv (upd T k f) \<and> look (upd T k f) = (look T)(k := map_option f (look T k))"
    by (rule upd_safe) (rule Cons.prems(1), rule Cons.prems(3), simp_all add: u)
  moreover have "k \<noteq> h" using Cons.prems(2)[of k f] u by simp
  moreover have "inv (fold (\<lambda>(k, f) T. upd T k f) us (upd T k f)) \<and>
      look (fold (\<lambda>(k, f) T. upd T k f) us (upd T k f)) h = look (upd T k f) h"
  proof (rule Cons.IH)
    show "inv (upd T k f)" using s by simp
    show "k' \<noteq> h" if "(k', f') \<in> set us" for k' f'
      using Cons.prems(2)[of k' f'] that by simp
    show "good k' (f' v)" if "(k', f') \<in> set us" "good k' v" for k' f' v
      using Cons.prems(3)[of k' f' v] that by simp
  qed
  ultimately show ?case using u by simp
qed

end

section \<open>The table meets the contract\<close>

definition tt_new :: "task_table \<Rightarrow> string option \<Rightarrow> (task_table \<times> u32) option" where
  "tt_new T nm = (case tt_alloc T nm of
      (T', None) \<Rightarrow> None
    | (T', Some i) \<Rightarrow> Some (T', ct_handle (tt_tasks T' ! i)))"

definition tt_upd :: "task_table \<Rightarrow> u32 \<Rightarrow> (child_task \<Rightarrow> child_task) \<Rightarrow> task_table" where
  "tt_upd T h f = (case tt_find T h of None \<Rightarrow> T | Some i \<Rightarrow> upd_slot T i f)"

definition good_child :: "u32 \<Rightarrow> child_task \<Rightarrow> bool" where
  "good_child h t \<longleftrightarrow> is_live t \<and> ct_handle t = h \<and> slot_ok t"

lemma tt_set_exited_upd: "tt_set_exited T h c = tt_upd T h (mark_exited c)"
  by (simp add: tt_set_exited_def tt_upd_def)

lemma good_mark_exited: "good_child h t \<Longrightarrow> good_child h (mark_exited c t)"
  by (auto simp: good_child_def is_live_def slot_ok_def mark_exited_def)

lemma alloc_slot_free:
  "slot_ok t \<Longrightarrow> ct_state t = FREE \<Longrightarrow> alloc_slot h nm t = alloc_slot h nm empty_task"
  by (auto simp: slot_ok_def caps_of_Nil alloc_slot_def empty_task_def)

lemma tt_alloc_SomeD:
  assumes "table_inv T" and "handles_left T" and "tt_alloc T nm = (T', Some i)"
  shows "T' = put_slot T i (alloc_slot (tt_next_handle T) nm empty_task) (tt_next_handle T + 1)"
    and "may_put T i (alloc_slot (tt_next_handle T) nm empty_task) (tt_next_handle T + 1)"
    and "ct_state (tt_tasks T ! i) = FREE"
proof -
  have f: "find_idx (\<lambda>t. ct_state t = FREE) (tt_tasks T) = Some i"
    using assms(3) by (auto simp: tt_alloc_def split: option.splits)
  from find_idx_SomeD[OF f] assms(1) have i: "i < TASK_MAX" "ct_state (tt_tasks T ! i) = FREE"
    by (simp_all add: table_inv_def)
  have ok: "slot_ok (tt_tasks T ! i)"
    using assms(1) i by (simp add: table_inv_def)
  have n: "unat (tt_next_handle T + 1) = unat (tt_next_handle T) + 1"
    using assms(2) by (simp add: handles_left_def unat_word_ariths)
  show "T' = put_slot T i (alloc_slot (tt_next_handle T) nm empty_task) (tt_next_handle T + 1)"
    using assms(3) f by (simp add: tt_alloc_def put_slot_def alloc_slot_free[OF ok i(2), symmetric])
  show "ct_state (tt_tasks T ! i) = FREE" by (rule i(2))
  have fresh: "ct_handle (tt_tasks T ! j) \<noteq> tt_next_handle T"
    if "j < TASK_MAX" "is_live (tt_tasks T ! j)" for j
  proof -
    have "unat (ct_handle (tt_tasks T ! j)) < unat (tt_next_handle T)"
      using assms(1) that by (simp add: table_inv_def)
    then show ?thesis by auto
  qed
  have "slot_ok (alloc_slot (tt_next_handle T) nm empty_task)"
    by (simp add: slot_ok_def) (simp add: alloc_slot_def)
  moreover have "0 < unat (tt_next_handle T)"
    using assms(1) by (simp add: table_inv_def)
  ultimately show "may_put T i (alloc_slot (tt_next_handle T) nm empty_task) (tt_next_handle T + 1)"
    using i(1) n fresh by (simp add: may_put_def alloc_slot_def)
qed

lemma alloc_slot_live [simp]:
  "is_live (alloc_slot h nm t)" "ct_handle (alloc_slot h nm t) = h" "ct_state (alloc_slot h nm t) = LOADING"
  by (simp_all add: alloc_slot_def is_live_def)

lemma clear_slot_free [simp]:
  "\<not> is_live (clear_slot t)" "ct_handle (clear_slot t) = 0" "ct_state (clear_slot t) = FREE" "slot_ok (clear_slot t)"
  by (simp_all add: slot_ok_def) (simp_all add: clear_slot_def is_live_def)

lemma tt_new_law:
  assumes "table_inv T" and "handles_left T" and "tt_new T nm = Some (T', h)"
  shows "table_inv T' \<and> live T h = None \<and> live T' = (live T)(h \<mapsto> alloc_slot h nm empty_task)"
proof -
  let ?n = "tt_next_handle T" and ?t = "alloc_slot (tt_next_handle T) nm empty_task"
  from assms(3) obtain i where a: "tt_alloc T nm = (T', Some i)" and h: "h = ct_handle (tt_tasks T' ! i)"
    by (auto simp: tt_new_def split: prod.splits option.splits)
  note d = tt_alloc_SomeD[OF assms(1,2) a]
  have i: "i < TASK_MAX" using d(2) by (simp add: may_put_def)
  have hn: "h = ?n" using put_slot_nth[OF assms(1) i i] by (simp add: h d(1))
  have lt: "\<not> (is_live (tt_tasks T ! i))" using d(3) by (simp add: is_live_def)
  have "live T' k = (if ?n = k then Some ?t else live T k)" for k
    using put_slot_live[OF assms(1) d(2), of k] lt by (simp add: d(1))
  then have "live T' = (live T)(h \<mapsto> alloc_slot h nm empty_task)"
    by (simp add: hn fun_eq_iff)
  moreover have "live T h = None"
    unfolding live_None_iff[OF assms(1)] hn
  proof (intro allI impI)
    fix j assume "j < TASK_MAX" "is_live (tt_tasks T ! j)"
    then have "unat (ct_handle (tt_tasks T ! j)) < unat ?n" using assms(1) by (simp add: table_inv_def)
    then show "ct_handle (tt_tasks T ! j) \<noteq> ?n" by auto
  qed
  ultimately show ?thesis
    using put_slot_inv[OF assms(1) d(2)] by (simp add: d(1))
qed

lemma upd_slot_put: "upd_slot T i f = put_slot T i (f (tt_tasks T ! i)) (tt_next_handle T)"
  by (simp add: upd_slot_def put_slot_def)

lemma tt_find_None_live: "tt_find T h = None \<longleftrightarrow> live T h = None"
  by (simp add: live_def)

lemma tt_free_law:
  assumes "table_inv T"
  shows "table_inv (fst (tt_free T h)) \<and> live (fst (tt_free T h)) = (live T)(h := None)"
proof (cases "tt_find T h")
  case None
  then have "live T h = None" by (simp add: live_def)
  with None assms show ?thesis by (simp add: tt_free_def fun_upd_idem)
next
  case (Some i)
  then have i: "i < TASK_MAX" "is_live (tt_tasks T ! i)" "ct_handle (tt_tasks T ! i) = h"
    using tt_find_iff[OF assms] by auto
  have m: "may_put T i (clear_slot (tt_tasks T ! i)) (tt_next_handle T)"
    using i(1) by (simp add: may_put_def)
  have "live (put_slot T i (clear_slot (tt_tasks T ! i)) (tt_next_handle T)) = (live T)(h := None)"
    using put_slot_live[OF assms m] i(2,3) by (auto simp: fun_eq_iff)
  with put_slot_inv[OF assms m] Some show ?thesis by (simp add: tt_free_def upd_slot_put)
qed

lemma tt_upd_law:
  assumes "table_inv T" and "live T h = Some v" and "good_child h (f v)"
  shows "table_inv (tt_upd T h f) \<and> live (tt_upd T h f) = (live T)(h \<mapsto> f v)"
proof -
  from assms(2) obtain i where fi: "tt_find T h = Some i" and v: "v = tt_tasks T ! i"
    by (auto simp: live_def)
  then have i: "i < TASK_MAX" "is_live (tt_tasks T ! i)" "ct_handle (tt_tasks T ! i) = h"
    using tt_find_iff[OF assms(1)] by auto
  have "0 < unat h \<and> unat h < unat (tt_next_handle T)"
    using assms(1) i by (auto simp: table_inv_def)
  moreover have "ct_handle (tt_tasks T ! j) \<noteq> h" if "j < TASK_MAX" "j \<noteq> i" "is_live (tt_tasks T ! j)" for j
    using table_inv_uniq[OF assms(1) that(1) i(1) that(3) i(2)] that(2) i(3) by auto
  ultimately have m: "may_put T i (f v) (tt_next_handle T)"
    using assms(3) i(1) by (simp add: may_put_def good_child_def)
  have "live (put_slot T i (f v) (tt_next_handle T)) = (live T)(h \<mapsto> f v)"
    using put_slot_live[OF assms(1) m] i(2,3) assms(3) by (auto simp: fun_eq_iff good_child_def)
  with put_slot_inv[OF assms(1) m] fi v show ?thesis by (simp add: tt_upd_def upd_slot_put)
qed

lemma live_good:
  assumes "table_inv T" and "live T h = Some v"
  shows "good_child h v"
proof -
  from assms obtain i where "i < TASK_MAX" "tt_tasks T ! i = v" "is_live v" "ct_handle v = h"
    unfolding live_Some_iff[OF assms(1)] by blast
  with assms(1) show ?thesis by (auto simp: good_child_def table_inv_def)
qed

interpretation children: handle_map table_inv handles_left live tt_new "\<lambda>T h. fst (tt_free T h)"
  tt_upd "\<lambda>h nm. alloc_slot h nm empty_task" good_child
proof (unfold_locales, goal_cases)
  case 1
  then show ?case by (rule tt_new_law)
next
  case 2
  then show ?case by (rule tt_free_law)
next
  case 3
  then show ?case by (intro tt_upd_law)
next
  case 4
  then show ?case by (simp add: tt_upd_def tt_find_None_live[symmetric])
next
  case 5
  then show ?case by (rule live_good)
qed

section \<open>Correctness of the table\<close>

lemma tt_alloc_None:
  assumes "table_inv T" and "tt_alloc T nm = (T', None)"
  shows "T' = T \<and> (\<forall>i < TASK_MAX. is_live (tt_tasks T ! i))"
proof -
  have "find_idx (\<lambda>t. ct_state t = FREE) (tt_tasks T) = None" and "T' = T"
    using assms(2) by (auto simp: tt_alloc_def split: option.splits)
  then show ?thesis
    using assms(1) by (auto simp: find_idx_None table_inv_def is_live_def)
qed

lemma fold_set_exited:
  "fold (\<lambda>(k, c) T. tt_set_exited T k c) es T =
   fold (\<lambda>(k, f) T. tt_upd T k f) (map (\<lambda>(k, c). (k, mark_exited c)) es) T"
  by (induction es arbitrary: T) (auto simp: tt_set_exited_upd)

text \<open>
  C1: as long as the handle counter has not wrapped, allocating a slot either fails because all
  32 slots hold children and changes nothing, or stores a LOADING child under a handle no child
  had, so that looking this handle up finds the slot, and leaves the children under all other
  handles as they were; the invariant of the table (distinct positive handles, free slots own no
  capability, running children own all four) is kept.
\<close>

theorem table_alloc_correct:
  assumes "table_inv T" and "handles_left T" and "tt_alloc T nm = (T', r)"
  shows "table_inv T' \<and>
    (case r of
       None \<Rightarrow> T' = T \<and> (\<forall>i < TASK_MAX. is_live (tt_tasks T ! i))
     | Some i \<Rightarrow> live T (tt_next_handle T) = None \<and> tt_find T' (tt_next_handle T) = Some i \<and>
         live T' = (live T)(tt_next_handle T \<mapsto> alloc_slot (tt_next_handle T) nm empty_task))"
proof (cases r)
  case None
  with assms show ?thesis using tt_alloc_None[of T nm T'] by simp
next
  case (Some i)
  note d = tt_alloc_SomeD[OF assms(1,2) assms(3)[unfolded Some]]
  have i: "i < TASK_MAX" using d(2) by (simp add: may_put_def)
  have n: "tt_tasks T' ! i = alloc_slot (tt_next_handle T) nm empty_task"
    using put_slot_nth[OF assms(1) i i] by (simp add: d(1))
  then have "tt_new T nm = Some (T', tt_next_handle T)"
    using assms(3) Some by (simp add: tt_new_def)
  with tt_new_law[OF assms(1,2) this] i n show ?thesis
    by (simp add: Some tt_find_iff)
qed

theorem table_alloc_correct_witness:
  "table_inv (fst (tt_alloc task_table_init (Some ''sh'')))"
  using table_alloc_correct[OF table_inv_init, of "Some ''sh''" "fst (tt_alloc task_table_init (Some ''sh''))"
      "snd (tt_alloc task_table_init (Some ''sh''))"]
  by (simp add: handles_left_def task_table_init_def)

text \<open>
  A child's entry belongs to its handle alone: whatever exits are recorded for other handles
  after it was allocated, in whatever order, its entry is the one allocated, and freeing it gives
  back the table's children from before the allocation.
\<close>

lemma table_entries_independent:
  assumes "table_inv T" and "handles_left T" and "tt_new T nm = Some (T', h)"
    and "\<forall>(k, c) \<in> set es. k \<noteq> h"
  shows "live (fold (\<lambda>(k, c) T. tt_set_exited T k c) es T') h = Some (alloc_slot h nm empty_task) \<and>
    live (fst (tt_free T' h)) = live T"
proof -
  let ?us = "map (\<lambda>(k, c). (k, mark_exited c)) es"
  note l = tt_new_law[OF assms(1-3)]
  have "k \<noteq> h" if "(k, f) \<in> set ?us" for k f
    using assms(4) that by auto
  moreover have "good_child k (f v)" if "(k, f) \<in> set ?us" "good_child k v" for k f v
    using that good_mark_exited by auto
  ultimately have "live (fold (\<lambda>(k, f) T. tt_upd T k f) ?us T') h = live T' h"
    using l by (intro children.upds_frame[THEN conjunct2]) auto
  with l children.new_then_del[OF assms(1-3)] show ?thesis
    by (simp add: fold_set_exited)
qed

lemma table_entries_independent_witness:
  "\<exists>T'. tt_new task_table_init None = Some (T', 1) \<and>
     live (fold (\<lambda>(k, c) T. tt_set_exited T k c) [(2, 7), (9, 0)] T') 1 = Some (alloc_slot 1 None empty_task)"
proof -
  obtain T' where n: "tt_new task_table_init None = Some (T', 1)"
    by (simp add: tt_new_def tt_alloc_def task_table_init_def TASK_MAX_def empty_task_def
        numeral_eq_Suc alloc_slot_def)
  have "handles_left task_table_init" by (simp add: handles_left_def task_table_init_def)
  from table_entries_independent[OF table_inv_init this n, of "[(2, 7), (9, 0)]"] n
  show ?thesis by simp
qed

end
