(* ===== verification/Spawnd.thy ===== *)
theory Spawnd
  imports Task_Table
begin

text \<open>
  The program loader server, \<^verbatim>\<open>pkg/spawn/server/src/spawnd.cc\<close>. Its IPC handlers run on one
  thread; the reaper runs on a second one, and the two meet at the critical sections of
  \<^verbatim>\<open>_mtx\<close>. The model makes the interleaving explicit: a handler that leaves the lock takes the
  list of reaper iterations that happen meanwhile, and a polling loop takes one such list per
  poll. What the kernel and the ELF loader answer is a parameter (\<open>launch\<close>, the liveness test
  of a thread, the words of an exit message). The capabilities that the loader hands over and the
  ones the server destroys are recorded, so that leaks and double deletions can be stated.
\<close>

section \<open>Server state\<close>

record spawnd =
  sd_table :: task_table
  sd_got :: "cap list"
  sd_deleted :: "cap list"
  sd_replied :: "u32 list"
  sd_rcv_freed :: "cap list"

definition spawnd_init :: spawnd where
  "spawnd_init = \<lparr>sd_table = task_table_init, sd_got = [], sd_deleted = [], sd_replied = [],
     sd_rcv_freed = []\<rparr>"

section \<open>The reaper\<close>

text \<open>
  One round of the reaper: an exit message with its gate label and message words, a receive
  timeout with the answer of \<^verbatim>\<open>l4_thread_stats_time\<close> for each thread capability (\<open>True\<close>
  when it fails), or another IPC error.
\<close>

datatype reaper_ev =
    Exit_ipc u32 "u32 list"
  | Recv_timeout "cap option \<Rightarrow> bool"
  | Ipc_error

definition label_handle :: "u32 \<Rightarrow> u32" where
  "label_handle label = drop_bit 2 label"

definition exit_code_of :: "u32 list \<Rightarrow> int" where
  "exit_code_of mr = (if 2 \<le> length mr then sint (mr ! 1) else if 1 \<le> length mr then sint (mr ! 0) else 0)"

definition reap_slot :: "(cap option \<Rightarrow> bool) \<Rightarrow> child_task \<Rightarrow> child_task" where
  "reap_slot dead t = (if ct_state t = RUNNING \<and> dead (ct_thread t) then mark_exited (- 1) t else t)"

definition reap_once :: "(cap option \<Rightarrow> bool) \<Rightarrow> task_table \<Rightarrow> task_table" where
  "reap_once dead T = T\<lparr>tt_tasks := map (reap_slot dead) (tt_tasks T)\<rparr>"

definition reap_exit :: "u32 \<Rightarrow> int \<Rightarrow> task_table \<Rightarrow> task_table" where
  "reap_exit h code T =
     (case tt_find T h of None \<Rightarrow> T
      | Some i \<Rightarrow> if ct_state (tt_tasks T ! i) \<noteq> EXITED then upd_slot T i (mark_exited code) else T)"

fun reaper_step :: "reaper_ev \<Rightarrow> spawnd \<Rightarrow> spawnd" where
  "reaper_step (Exit_ipc label mr) s =
     s\<lparr>sd_table := reap_exit (label_handle label) (exit_code_of mr) (sd_table s),
       sd_replied := sd_replied s @ [label]\<rparr>"
| "reaper_step (Recv_timeout dead) s = s\<lparr>sd_table := reap_once dead (sd_table s)\<rparr>"
| "reaper_step Ipc_error s = s"

text \<open>The loop of the reaper, over the rounds before \<^verbatim>\<open>_stop\<close> is set.\<close>

definition reaper_main :: "reaper_ev list \<Rightarrow> spawnd \<Rightarrow> spawnd" where
  "reaper_main evs s = fold reaper_step evs s"

section \<open>Arguments\<close>

text \<open>
  The loop of \<^verbatim>\<open>unpack_args\<close>: \<open>buf\<close> is the whole object behind the pointer, \<open>len\<close> the number
  of bytes the caller says are valid, \<open>p\<close> the cursor, and the first argument the number of
  \<^verbatim>\<open>argv\<close> entries left.
\<close>

fun unpack_from :: "nat \<Rightarrow> string \<Rightarrow> nat \<Rightarrow> nat \<Rightarrow> string list outcome" where
  "unpack_from 0 buf len p = Ret []"
| "unpack_from (Suc k) buf len p =
     (if p < len \<and> buf ! p \<noteq> NUL
      then obind (cstr_at buf p) (\<lambda>s. obind (unpack_from k buf len (p + length s + 1)) (\<lambda>r. Ret (s # r)))
      else Ret [])"

definition unpack_args :: "string \<Rightarrow> nat \<Rightarrow> nat \<Rightarrow> string list outcome" where
  "unpack_args buf len max_argc = unpack_from max_argc buf len 0"

text \<open>
  The stack array \<^verbatim>\<open>args_copy[1024]\<close> after the \<^verbatim>\<open>memcpy\<close>: the bytes above the copied ones
  are what was on the stack before.
\<close>

definition args_copy :: "string \<Rightarrow> string \<Rightarrow> string" where
  "args_copy junk args = take 1024 args @ drop (length (take 1024 args)) (take 1024 (junk @ replicate 1024 NUL))"

definition handler_argv :: "string \<Rightarrow> string \<Rightarrow> string list outcome" where
  "handler_argv junk args = unpack_args (args_copy junk args) (min (length args) 1024) 64"

definition path_buf :: "string \<Rightarrow> string" where
  "path_buf path = cstr (take 511 path)"

section \<open>Loading\<close>

record launch_req =
  lr_path :: string
  lr_argv :: "string list"
  lr_env :: "string list"
  lr_console :: "cap option"
  lr_gate_label :: u32

record image =
  im_task :: cap
  im_thread :: cap
  im_rm :: cap
  im_gate :: cap

text \<open>
  The ELF loader and the kernel calls behind it: a request gives the four capabilities of a
  started task, or an exception after which the loader has undone its own work.
\<close>

type_synonym loader = "launch_req \<Rightarrow> image option"

definition gate_label :: "u32 \<Rightarrow> u32" where
  "gate_label h = push_bit 2 h"

definition handle_env :: "u32 \<Rightarrow> string" where
  "handle_env h = snprintf_buf 32 (''SPAWND_HANDLE='' @ show_nat (unat h))"

definition load_image :: "loader \<Rightarrow> u32 \<Rightarrow> string \<Rightarrow> string list \<Rightarrow> cap option \<Rightarrow> image option" where
  "load_image launch h path argv console =
     launch \<lparr>lr_path = path, lr_argv = argv, lr_env = [handle_env h], lr_console = console,
       lr_gate_label = gate_label h\<rparr>"

definition image_caps :: "image \<Rightarrow> cap list" where
  "image_caps im = [im_task im, im_thread im, im_rm im, im_gate im]"

text \<open>The four assignments of a \<^verbatim>\<open>Unique_del_cap\<close> into a slot; what was there is destroyed.\<close>

definition install_caps :: "image \<Rightarrow> child_task \<Rightarrow> child_task" where
  "install_caps im t = t\<lparr>ct_task := Some (im_task im), ct_thread := Some (im_thread im),
     ct_rm := Some (im_rm im), ct_parent_gate := Some (im_gate im)\<rparr>"

definition start_running :: "child_task \<Rightarrow> child_task" where
  "start_running t = (if ct_state t = LOADING then t\<lparr>ct_state := RUNNING\<rparr> else t)"

definition put_image :: "nat \<Rightarrow> image \<Rightarrow> (child_task \<Rightarrow> child_task) \<Rightarrow> spawnd \<Rightarrow> spawnd" where
  "put_image i im f s =
     s\<lparr>sd_deleted := sd_deleted s @ caps_of (tt_tasks (sd_table s) ! i),
       sd_table := upd_slot (sd_table s) i (f \<circ> install_caps im)\<rparr>"

definition free_child :: "u32 \<Rightarrow> spawnd \<Rightarrow> spawnd" where
  "free_child h s = (case tt_free (sd_table s) h of (T, cs) \<Rightarrow>
     s\<lparr>sd_table := T, sd_deleted := sd_deleted s @ cs\<rparr>)"

definition do_spawn ::
  "loader \<Rightarrow> reaper_ev list \<Rightarrow> string \<Rightarrow> string list \<Rightarrow> cap option \<Rightarrow> spawnd \<Rightarrow> spawnd \<times> nat option" where
  "do_spawn launch evs path argv console s =
     (case tt_alloc (sd_table s) (Some path) of
        (T, None) \<Rightarrow> (s\<lparr>sd_table := T\<rparr>, None)
      | (T, Some i) \<Rightarrow>
          let h = ct_handle (tt_tasks T ! i);
              s1 = reaper_main evs (s\<lparr>sd_table := T\<rparr>)
          in case load_image launch h path argv console of
               None \<Rightarrow> (free_child h s1, None)
             | Some im \<Rightarrow>
                 (put_image i im start_running (s1\<lparr>sd_got := sd_got s1 @ image_caps im\<rparr>), Some i))"

section \<open>Waiting\<close>

abbreviation child_at :: "spawnd \<Rightarrow> nat \<Rightarrow> child_task" where
  "child_at s i \<equiv> tt_tasks (sd_table s) ! i"

definition set_waited :: "bool \<Rightarrow> nat \<Rightarrow> spawnd \<Rightarrow> spawnd" where
  "set_waited b i s = s\<lparr>sd_table := upd_slot (sd_table s) i (\<lambda>t. t\<lparr>ct_being_waited := b\<rparr>)\<rparr>"

text \<open>
  One element of \<open>polls\<close> is the list of reaper rounds during one sleep of the polling loop;
  with no sleep left the server is still in the loop.
\<close>

fun wait_poll :: "nat \<Rightarrow> reaper_ev list list \<Rightarrow> spawnd \<Rightarrow> spawnd outcome" where
  "wait_poll i [] s = (if ct_state (child_at s i) = EXITED then Ret s else Stuck)"
| "wait_poll i (evs # polls) s =
     (if ct_state (child_at s i) = EXITED then Ret s else wait_poll i polls (reaper_main evs s))"

definition do_wait :: "nat \<Rightarrow> reaper_ev list list \<Rightarrow> spawnd \<Rightarrow> (spawnd \<times> int) outcome" where
  "do_wait i polls s =
     obind (wait_poll i polls (set_waited True i s))
       (\<lambda>s'. Ret (set_waited False i s', ct_exit_code (child_at s' i)))"

section \<open>IPC handlers\<close>

definition SPAWN_WAIT :: u32 where "SPAWN_WAIT = 1"

definition WAIT_NOHANG :: u32 where "WAIT_NOHANG = 1"

text \<open>The common end of the two spawn handlers: wait for the child, or return its handle.\<close>

definition spawn_reply :: "u32 \<Rightarrow> reaper_ev list list \<Rightarrow> spawnd \<times> nat option \<Rightarrow> (spawnd \<times> int) outcome" where
  "spawn_reply flags polls r =
     (case r of
        (s, None) \<Rightarrow> Ret (s, err ENOMEM)
      | (s, Some i) \<Rightarrow>
          if flags AND SPAWN_WAIT \<noteq> 0
          then obind (do_wait i polls s) (\<lambda>(s', code). Ret (free_child (ct_handle (child_at s' i)) s', code))
          else Ret (s, sint (ct_handle (child_at s i))))"

definition op_spawn ::
  "loader \<Rightarrow> reaper_ev list \<Rightarrow> reaper_ev list list \<Rightarrow> string \<Rightarrow> string \<Rightarrow> string \<Rightarrow> u32 \<Rightarrow>
   spawnd \<Rightarrow> (spawnd \<times> int) outcome" where
  "op_spawn launch evs polls junk path args flags s =
     (if path = [] then Ret (s, err EINVAL)
      else obind (handler_argv junk args) (\<lambda>argv.
        spawn_reply flags polls (do_spawn launch evs (path_buf path) argv None s)))"

definition op_spawn_con ::
  "loader \<Rightarrow> reaper_ev list \<Rightarrow> reaper_ev list list \<Rightarrow> string \<Rightarrow> string \<Rightarrow> string \<Rightarrow> u32 \<Rightarrow>
   cap option \<Rightarrow> spawnd \<Rightarrow> (spawnd \<times> int) outcome" where
  "op_spawn_con launch evs polls junk path args flags console s =
     (if path = [] then Ret (s, err EINVAL)
      else obind (handler_argv junk args) (\<lambda>argv.
        case console of
          None \<Rightarrow> Ret (s, err EINVAL)
        | Some c \<Rightarrow>
            (case do_spawn launch evs (path_buf path) argv (Some c) s of (s1, slot) \<Rightarrow>
               spawn_reply flags polls (s1\<lparr>sd_rcv_freed := sd_rcv_freed s1 @ [c]\<rparr>, slot))))"

definition op_exec ::
  "loader \<Rightarrow> reaper_ev list \<Rightarrow> string \<Rightarrow> u32 \<Rightarrow> string \<Rightarrow> string \<Rightarrow> spawnd \<Rightarrow> (spawnd \<times> int) outcome" where
  "op_exec launch evs junk h path args s =
     (if path = [] then Ret (s, err EINVAL)
      else obind (handler_argv junk args) (\<lambda>argv.
        case tt_find (sd_table s) h of
          None \<Rightarrow> Ret (s, err ENOENT)
        | Some i \<Rightarrow>
            if ct_state (child_at s i) \<noteq> RUNNING then Ret (s, err ENOENT)
            else
              let s1 = reaper_main evs s
              in case load_image launch h (path_buf path) argv None of
                   None \<Rightarrow> Ret (s1, err EIO)
                 | Some im \<Rightarrow>
                     let s2 = s1\<lparr>sd_got := sd_got s1 @ image_caps im\<rparr>;
                         gone = s2\<lparr>sd_deleted := sd_deleted s2 @ image_caps im\<rparr>
                     in case tt_find (sd_table s2) h of
                          None \<Rightarrow> Ret (gone, err ENOREPLY)
                        | Some j \<Rightarrow>
                            if ct_state (child_at s2 j) \<noteq> RUNNING then Ret (gone, err ENOREPLY)
                            else Ret (put_image j im id s2, err ENOREPLY)))"

definition op_wait :: "reaper_ev list list \<Rightarrow> u32 \<Rightarrow> u32 \<Rightarrow> spawnd \<Rightarrow> (spawnd \<times> int) outcome" where
  "op_wait polls h flags s =
     (case tt_find (sd_table s) h of
        None \<Rightarrow> Ret (s, err ENOENT)
      | Some i \<Rightarrow>
          if ct_state (child_at s i) = EXITED then Ret (free_child h s, ct_exit_code (child_at s i))
          else if flags AND WAIT_NOHANG \<noteq> 0 then Ret (s, err EAGAIN)
          else obind (do_wait i polls s) (\<lambda>(s', code). Ret (free_child h s', code)))"

definition op_kill :: "u32 \<Rightarrow> spawnd \<Rightarrow> spawnd \<times> int" where
  "op_kill h s = (case tt_find (sd_table s) h of None \<Rightarrow> (s, err ENOENT) | Some i \<Rightarrow> (free_child h s, 0))"

definition op_task_count :: "spawnd \<Rightarrow> int" where
  "op_task_count s = int (tt_count (sd_table s))"

text \<open>\<open>cpu\<close> is the kernel's answer to \<^verbatim>\<open>l4_thread_stats_time\<close>; \<open>None\<close> leaves the zero.\<close>

definition op_task_stat ::
  "(cap option \<Rightarrow> u64 option) \<Rightarrow> u32 \<Rightarrow> spawnd \<Rightarrow> errno + (u64 \<times> u32 \<times> u32)" where
  "op_task_stat cpu slot s =
     (case tt_at (sd_table s) (sint slot) of
        None \<Rightarrow> Inl ENOENT
      | Some i \<Rightarrow>
          if ct_state (child_at s i) = FREE \<or> ct_state (child_at s i) = LOADING then Inl ENOENT
          else Inr (case cpu (ct_thread (child_at s i)) of None \<Rightarrow> 0 | Some kc \<Rightarrow> kc,
                    if ct_state (child_at s i) = RUNNING then 1 else 2,
                    ct_handle (child_at s i)))"

section \<open>What the reaper does to the children\<close>

definition map_slots :: "(child_task \<Rightarrow> child_task) \<Rightarrow> task_table \<Rightarrow> task_table" where
  "map_slots f T = T\<lparr>tt_tasks := map f (tt_tasks T)\<rparr>"

text \<open>The updates that leave a slot's identity and its capabilities alone.\<close>

definition slot_keeps :: "(child_task \<Rightarrow> child_task) \<Rightarrow> bool" where
  "slot_keeps f \<longleftrightarrow> (\<forall>t. is_live (f t) = is_live t \<and> ct_handle (f t) = ct_handle t \<and>
     caps_of (f t) = caps_of t \<and> (slot_ok t \<longrightarrow> slot_ok (f t)))"

fun reap_child :: "reaper_ev \<Rightarrow> child_task \<Rightarrow> child_task" where
  "reap_child (Exit_ipc label mr) t =
     (if is_live t \<and> ct_handle t = label_handle label \<and> ct_state t \<noteq> EXITED
      then mark_exited (exit_code_of mr) t else t)"
| "reap_child (Recv_timeout dead) t = reap_slot dead t"
| "reap_child Ipc_error t = t"

lemma slot_keeps_reap_child: "slot_keeps (reap_child ev)"
  by (cases ev) (auto simp: slot_keeps_def reap_slot_def is_live_def slot_ok_def mark_exited_def caps_of_def)

lemma slot_keeps_waited: "slot_keeps (\<lambda>t. t\<lparr>ct_being_waited := b\<rparr>)"
  by (auto simp: slot_keeps_def is_live_def slot_ok_def caps_of_def)

lemma slot_keeps_good: "slot_keeps f \<Longrightarrow> good_child h t \<Longrightarrow> good_child h (f t)"
  by (simp add: slot_keeps_def good_child_def)

lemma map_slots_nth: "table_inv T \<Longrightarrow> i < TASK_MAX \<Longrightarrow> tt_tasks (map_slots f T) ! i = f (tt_tasks T ! i)"
  by (simp add: map_slots_def table_inv_def)

lemma map_slots_find: "slot_keeps f \<Longrightarrow> tt_find (map_slots f T) h = tt_find T h"
  unfolding tt_find_def map_slots_def
  by (simp, rule find_idx_map) (auto simp: slot_keeps_def is_live_def)

lemma map_slots_inv:
  assumes "slot_keeps f" and "table_inv T"
  shows "table_inv (map_slots f T)"
proof -
  have nth: "tt_tasks (map_slots f T) ! i = f (tt_tasks T ! i)" if "i < TASK_MAX" for i
    using map_slots_nth[OF assms(2) that] .
  have k: "is_live (f t) = is_live t" "ct_handle (f t) = ct_handle t" "slot_ok t \<longrightarrow> slot_ok (f t)" for t
    using assms(1) by (simp_all add: slot_keeps_def)
  have l: "length (tt_tasks (map_slots f T)) = TASK_MAX" "tt_next_handle (map_slots f T) = tt_next_handle T"
    using assms(2) by (simp_all add: map_slots_def table_inv_def)
  show ?thesis
    unfolding table_inv_def l
    by (simp only: nth k cong: all_cong1 imp_cong) (use assms(2) k(3) in \<open>simp add: table_inv_def\<close>)
qed

lemma map_slots_live: "slot_keeps f \<Longrightarrow> table_inv T \<Longrightarrow> live (map_slots f T) h = map_option f (live T h)"
  using map_slots_find[of f T h] tt_find_iff[of T h "the (tt_find T h)"]
  by (cases "tt_find T h") (simp_all add: live_def map_slots_nth)

lemma reap_exit_map:
  assumes "table_inv T"
  shows "reap_exit (label_handle label) (exit_code_of mr) T = map_slots (reap_child (Exit_ipc label mr)) T"
proof (cases "tt_find T (label_handle label)")
  case None
  have "reap_child (Exit_ipc label mr) t = t" if "t \<in> set (tt_tasks T)" for t
  proof -
    have "\<not> (is_live t \<and> ct_handle t = label_handle label)"
      using None that by (auto simp: tt_find_def find_idx_None is_live_def)
    then show ?thesis by auto
  qed
  then have "map (reap_child (Exit_ipc label mr)) (tt_tasks T) = tt_tasks T"
    by (rule map_idI)
  with None show ?thesis by (simp add: reap_exit_def map_slots_def)
next
  case (Some i)
  then have i: "i < TASK_MAX" "is_live (tt_tasks T ! i)" "ct_handle (tt_tasks T ! i) = label_handle label"
    using tt_find_iff[OF assms] by auto
  let ?f = "reap_child (Exit_ipc label mr)"
  have other: "?f (tt_tasks T ! j) = tt_tasks T ! j" if "j < TASK_MAX" "j \<noteq> i" for j
    using table_inv_uniq[OF assms that(1) i(1) _ i(2)] i(3) that(2) by auto
  have len: "length (tt_tasks T) = TASK_MAX" using assms by (simp add: table_inv_def)
  have "map ?f (tt_tasks T) = (tt_tasks T)[i := ?f (tt_tasks T ! i)]"
  proof (rule nth_equalityI)
    fix j assume j: "j < length (map ?f (tt_tasks T))"
    then have "j < TASK_MAX" using len by simp
    with j other[of j] i(1) len show "map ?f (tt_tasks T) ! j = (tt_tasks T)[i := ?f (tt_tasks T ! i)] ! j"
      by (cases "j = i") simp_all
  qed simp
  with Some i show ?thesis
    by (simp add: reap_exit_def map_slots_def upd_slot_def)
qed

lemma reaper_step_table:
  "table_inv (sd_table s) \<Longrightarrow> sd_table (reaper_step ev s) = map_slots (reap_child ev) (sd_table s)"
  using reap_exit_map by (cases ev) (auto simp: reap_once_def map_slots_def fun_eq_iff map_idI)

text \<open>A child at the end of a run of the reaper.\<close>

definition reaped :: "reaper_ev list \<Rightarrow> child_task \<Rightarrow> child_task" where
  "reaped evs = fold reap_child evs"

lemma reaped_simps [simp]: "reaped [] t = t" "reaped (ev # evs) t = reaped evs (reap_child ev t)"
  "reaped (as @ bs) t = reaped bs (reaped as t)"
  by (simp_all add: reaped_def)

lemma slot_keeps_reaped: "slot_keeps (reaped evs)"
  unfolding slot_keeps_def
proof (induction evs)
  case Nil
  then show ?case by simp
next
  case (Cons ev evs)
  then show ?case using slot_keeps_reap_child[of ev] by (simp add: slot_keeps_def)
qed

lemma reaper_main_table:
  "table_inv (sd_table s) \<Longrightarrow> sd_table (reaper_main evs s) = map_slots (reaped evs) (sd_table s)"
proof (induction evs arbitrary: s)
  case Nil
  then show ?case by (simp add: reaper_main_def map_slots_def)
next
  case (Cons ev evs)
  have "table_inv (sd_table (reaper_step ev s))"
    using Cons.prems by (simp add: reaper_step_table map_slots_inv slot_keeps_reap_child)
  from Cons.IH[OF this] Cons.prems show ?case
    by (simp add: reaper_main_def reaper_step_table map_slots_def comp_def)
qed

lemma reaper_main_inv: "table_inv (sd_table s) \<Longrightarrow> table_inv (sd_table (reaper_main evs s))"
  by (simp add: reaper_main_table map_slots_inv slot_keeps_reaped)

lemma reaper_main_live:
  "table_inv (sd_table s) \<Longrightarrow> live (sd_table (reaper_main evs s)) h = map_option (reaped evs) (live (sd_table s) h)"
  by (simp add: reaper_main_table map_slots_live slot_keeps_reaped)

lemma reaper_main_find:
  "table_inv (sd_table s) \<Longrightarrow> tt_find (sd_table (reaper_main evs s)) h = tt_find (sd_table s) h"
  by (simp add: reaper_main_table map_slots_find slot_keeps_reaped)

lemma reaper_main_next [simp]: "tt_next_handle (sd_table (reaper_main evs s)) = tt_next_handle (sd_table s)"
proof (induction evs arbitrary: s)
  case Nil
  then show ?case by (simp add: reaper_main_def)
next
  case (Cons ev evs)
  have "tt_next_handle (sd_table (reaper_step ev s)) = tt_next_handle (sd_table s)"
    by (cases ev) (simp_all add: reap_once_def reap_exit_def upd_slot_def split: option.splits)
  with Cons[of "reaper_step ev s"] show ?case by (simp add: reaper_main_def)
qed

lemma reaper_main_ghost [simp]:
  "sd_got (reaper_main evs s) = sd_got s" "sd_deleted (reaper_main evs s) = sd_deleted s"
  "sd_rcv_freed (reaper_main evs s) = sd_rcv_freed s"
proof -
  have "sd_got (reaper_step ev s) = sd_got s" "sd_deleted (reaper_step ev s) = sd_deleted s"
    "sd_rcv_freed (reaper_step ev s) = sd_rcv_freed s" for ev s
    by (cases ev; simp)+
  then show "sd_got (reaper_main evs s) = sd_got s" "sd_deleted (reaper_main evs s) = sd_deleted s"
    "sd_rcv_freed (reaper_main evs s) = sd_rcv_freed s"
    by (induction evs arbitrary: s) (simp_all add: reaper_main_def)
qed

lemma reaped_exited: "ct_state t = EXITED \<Longrightarrow> reaped evs t = t"
proof (induction evs)
  case (Cons ev evs)
  then show ?case by (cases ev) (simp_all add: reap_slot_def)
qed simp

section \<open>Capabilities are conserved\<close>

definition owned :: "task_table \<Rightarrow> cap multiset" where
  "owned T = sum_list (map (\<lambda>t. mset (caps_of t)) (tt_tasks T))"

definition caps_balanced :: "spawnd \<Rightarrow> bool" where
  "caps_balanced s \<longleftrightarrow> length (tt_tasks (sd_table s)) = TASK_MAX \<and>
     mset (sd_got s) = mset (sd_deleted s) + owned (sd_table s)"

lemma caps_of_install [simp]: "caps_of (install_caps im t) = image_caps im"
  "caps_of (start_running t) = caps_of t"
  by (simp_all add: caps_of_def install_caps_def image_caps_def start_running_def)

lemma upd_slot_owned:
  "i < length (tt_tasks T) \<Longrightarrow>
   owned (upd_slot T i f) + mset (caps_of (tt_tasks T ! i)) = owned T + mset (caps_of (f (tt_tasks T ! i)))"
  using sum_list_map_update[of i "tt_tasks T" "\<lambda>t. mset (caps_of t)" "f (tt_tasks T ! i)"]
  by (simp add: owned_def upd_slot_def)

lemma length_upd_slot [simp]: "length (tt_tasks (upd_slot T i f)) = length (tt_tasks T)"
  by (simp add: upd_slot_def)

lemma upd_slot_owned_same:
  assumes "\<And>t. caps_of (f t) = caps_of t"
  shows "owned (upd_slot T i f) = owned T"
proof (cases "i < length (tt_tasks T)")
  case True
  from upd_slot_owned[OF this, of f] show ?thesis by (simp add: assms)
next
  case False
  then show ?thesis by (simp add: upd_slot_def list_update_beyond owned_def)
qed

lemma tt_find_length: "tt_find T h = Some i \<Longrightarrow> i < length (tt_tasks T)"
  unfolding tt_find_def by (drule find_idx_SomeD) simp

lemma tt_free_owned:
  "tt_free T h = (T', cs) \<Longrightarrow> length (tt_tasks T') = length (tt_tasks T) \<and> owned T = mset cs + owned T'"
  using upd_slot_owned[of "the (tt_find T h)" T clear_slot] tt_find_length[of T h]
  by (auto simp: tt_free_def add.commute split: option.splits)

lemma free_child_balanced: "caps_balanced s \<Longrightarrow> caps_balanced (free_child h s)"
  using tt_free_owned[of "sd_table s" h] by (auto simp: caps_balanced_def free_child_def split: prod.splits)

lemma tt_alloc_owned:
  assumes "tt_alloc T nm = (T', r)"
  shows "length (tt_tasks T') = length (tt_tasks T) \<and> owned T' = owned T \<and>
    (\<forall>i. r = Some i \<longrightarrow> i < length (tt_tasks T))"
proof (cases "find_idx (\<lambda>t. ct_state t = FREE) (tt_tasks T)")
  case None
  with assms show ?thesis by (auto simp: tt_alloc_def)
next
  case (Some i)
  then have i: "i < length (tt_tasks T)" by (auto dest: find_idx_SomeD)
  have "owned T' = owned (upd_slot T i (alloc_slot (tt_next_handle T) nm))"
    using assms Some by (auto simp: tt_alloc_def upd_slot_def owned_def)
  with upd_slot_owned_same[of "alloc_slot (tt_next_handle T) nm" T i] i assms Some show ?thesis
    by (auto simp: tt_alloc_def)
qed

lemma reaper_main_owned:
  "length (tt_tasks (sd_table (reaper_main evs s))) = length (tt_tasks (sd_table s)) \<and>
   owned (sd_table (reaper_main evs s)) = owned (sd_table s)"
proof (induction evs arbitrary: s)
  case Nil
  then show ?case by (simp add: reaper_main_def)
next
  case (Cons ev evs)
  have "owned (reap_once d T) = owned T" for d T
    by (simp add: owned_def reap_once_def reap_slot_def comp_def if_distrib[of caps_of] cong: if_cong)
  then have "length (tt_tasks (sd_table (reaper_step ev s))) = length (tt_tasks (sd_table s)) \<and>
      owned (sd_table (reaper_step ev s)) = owned (sd_table s)"
    by (cases ev) (auto simp: reap_exit_def upd_slot_owned_same split: option.splits, simp add: reap_once_def)
  with Cons[of "reaper_step ev s"] show ?case by (simp add: reaper_main_def)
qed

lemma reaper_main_balanced: "caps_balanced s \<Longrightarrow> caps_balanced (reaper_main evs s)"
  using reaper_main_owned[of evs s] by (simp add: caps_balanced_def)

lemma put_image_balanced:
  assumes "caps_balanced s" and "i < TASK_MAX" and "\<And>t. caps_of (f t) = caps_of t"
  shows "caps_balanced (put_image i im f (s\<lparr>sd_got := sd_got s @ image_caps im\<rparr>))"
proof -
  have "owned (upd_slot (sd_table s) i (f \<circ> install_caps im)) + mset (caps_of (child_at s i)) =
      owned (sd_table s) + mset (image_caps im)"
    using upd_slot_owned[of i "sd_table s" "f \<circ> install_caps im"] assms
    by (simp add: caps_balanced_def)
  with assms(1) show ?thesis by (simp add: caps_balanced_def put_image_def ac_simps)
qed

lemma set_waited_balanced: "caps_balanced s \<Longrightarrow> caps_balanced (set_waited b i s)"
proof -
  have "caps_of (t\<lparr>ct_being_waited := b\<rparr>) = caps_of t" for t by (simp add: caps_of_def)
  then show "caps_balanced s \<Longrightarrow> caps_balanced (set_waited b i s)"
    by (simp add: caps_balanced_def set_waited_def upd_slot_owned_same)
qed

lemma wait_poll_balanced: "wait_poll i polls s = Ret s' \<Longrightarrow> caps_balanced s \<Longrightarrow> caps_balanced s'"
  by (induction i polls s rule: wait_poll.induct) (auto simp: reaper_main_balanced split: if_splits)

lemma do_wait_balanced: "do_wait i polls s = Ret (s', c) \<Longrightarrow> caps_balanced s \<Longrightarrow> caps_balanced s'"
  by (auto simp: do_wait_def obind_Ret_iff intro!: set_waited_balanced elim!: wait_poll_balanced)

lemma do_spawn_balanced:
  assumes "caps_balanced s" and "do_spawn launch evs path argv console s = (s', r)"
  shows "caps_balanced s'"
proof -
  obtain T o1 where a: "tt_alloc (sd_table s) (Some path) = (T, o1)" by fastforce
  note o = tt_alloc_owned[OF a]
  then have b: "caps_balanced (s\<lparr>sd_table := T\<rparr>)" using assms(1) by (simp add: caps_balanced_def)
  show ?thesis
  proof (cases o1)
    case None
    with a b assms(2) show ?thesis by (simp add: do_spawn_def)
  next
    case (Some i)
    then have i: "i < TASK_MAX" using o assms(1) by (simp add: caps_balanced_def)
    let ?s1 = "reaper_main evs (s\<lparr>sd_table := T\<rparr>)"
    note b1 = reaper_main_balanced[OF b, of evs]
    from a Some assms(2) consider h where "s' = free_child h ?s1"
      | im where "s' = put_image i im start_running (?s1\<lparr>sd_got := sd_got ?s1 @ image_caps im\<rparr>)"
      by (auto simp: do_spawn_def Let_def split: option.splits)
    then show ?thesis
      by cases (simp_all only: free_child_balanced[OF b1] put_image_balanced[OF b1 i] caps_of_install)
  qed
qed

lemma spawn_reply_balanced:
  "spawn_reply flags polls r = Ret (s', c) \<Longrightarrow> caps_balanced (fst r) \<Longrightarrow> caps_balanced s'"
  by (cases r) (auto simp: spawn_reply_def obind_Ret_iff intro: free_child_balanced dest: do_wait_balanced
      split: option.splits if_splits)

text \<open>The four ways \<open>op_exec\<close> can end.\<close>

lemma op_exec_cases:
  assumes "op_exec launch evs junk h path args s = Ret (s', c)"
  obtains (refused) "s' = s" "c \<in> {err EINVAL, err ENOENT}"
  | (load_failed) "s' = reaper_main evs s" "c = err EIO"
  | (dropped) argv im where "c = err ENOREPLY"
      "handler_argv junk args = Ret argv" "load_image launch h (path_buf path) argv None = Some im"
      "\<And>j. tt_find (sd_table (reaper_main evs s)) h = Some j \<Longrightarrow> ct_state (child_at (reaper_main evs s) j) \<noteq> RUNNING"
      "tt_find (sd_table s) h \<noteq> None"
      "s' = (reaper_main evs s)\<lparr>sd_got := sd_got s @ image_caps im, sd_deleted := sd_deleted s @ image_caps im\<rparr>"
  | (replaced) i j im argv where "c = err ENOREPLY"
      "tt_find (sd_table s) h = Some i" "ct_state (child_at s i) = RUNNING"
      "handler_argv junk args = Ret argv" "load_image launch h (path_buf path) argv None = Some im"
      "tt_find (sd_table (reaper_main evs s)) h = Some j" "ct_state (child_at (reaper_main evs s) j) = RUNNING"
      "s' = put_image j im id ((reaper_main evs s)\<lparr>sd_got := sd_got s @ image_caps im\<rparr>)"
proof (cases "path = []")
  case True
  then show thesis using assms refused by (simp add: op_exec_def)
next
  case False
  with assms obtain argv where argv: "handler_argv junk args = Ret argv"
    by (auto simp: op_exec_def obind_Ret_iff)
  note e = assms[unfolded op_exec_def if_not_P[OF False] argv obind.simps Let_def]
  show thesis
  proof (cases "tt_find (sd_table s) h")
    case None
    then show thesis using e refused by simp
  next
    case (Some i)
    show thesis
    proof (cases "ct_state (child_at s i) = RUNNING")
      case False
      then show thesis using e Some refused by simp
    next
      case run: True
      show thesis
      proof (cases "load_image launch h (path_buf path) argv None")
        case None
        then show thesis using e Some run load_failed by simp
      next
        case im: (Some im)
        show thesis
        proof (cases "tt_find (sd_table (reaper_main evs s)) h")
          case None
          then show thesis using e Some run im argv dropped[of argv im] by simp
        next
          case j: (Some j)
          show thesis
          proof (cases "ct_state (child_at (reaper_main evs s) j) = RUNNING")
            case False
            then show thesis using e Some run im j argv dropped[of argv im] by simp
          next
            case True
            then show thesis using e Some run im j argv replaced[of i argv im j] by simp
          qed
        qed
      qed
    qed
  qed
qed

lemma op_exec_balanced:
  assumes "caps_balanced s" and "op_exec launch evs junk h path args s = Ret (s', c)"
  shows "caps_balanced s'"
  using assms(2)
proof (cases rule: op_exec_cases)
  case refused
  then show ?thesis using assms(1) by simp
next
  case load_failed
  then show ?thesis using assms(1) by (simp add: reaper_main_balanced)
next
  case (dropped argv im)
  show ?thesis using reaper_main_balanced[OF assms(1), of evs] unfolding dropped(6)
    by (simp add: caps_balanced_def ac_simps)
next
  case (replaced i j im argv)
  note b = reaper_main_balanced[OF assms(1), of evs]
  have "j < TASK_MAX" using b tt_find_length[OF replaced(6)] by (simp add: caps_balanced_def)
  from put_image_balanced[OF b this, of id im] show ?thesis by (simp add: replaced(8))
qed

section \<open>What the handlers do to the children\<close>

lemma upd_slot_tt_upd: "tt_find T h = Some i \<Longrightarrow> upd_slot T i f = tt_upd T h f"
  by (simp add: tt_upd_def)

lemma live_of_find: "tt_find T h = Some i \<Longrightarrow> live T h = Some (tt_tasks T ! i)"
  by (simp add: live_def)

lemma upd_slot_find:
  assumes "tt_find T h = Some i"
    and "is_live (f (tt_tasks T ! i)) = is_live (tt_tasks T ! i)"
    and "ct_handle (f (tt_tasks T ! i)) = ct_handle (tt_tasks T ! i)"
  shows "tt_find (upd_slot T i f) k = tt_find T k"
  using tt_find_length[OF assms(1)] assms(2,3)
  unfolding tt_find_def upd_slot_def by (simp add: find_idx_update is_live_def)

lemma tt_upd_keeps:
  assumes "slot_keeps f" and "table_inv T"
  shows "table_inv (tt_upd T h f) \<and> live (tt_upd T h f) = (live T)(h := map_option f (live T h))"
  using children.upd_safe[OF assms(2)] slot_keeps_good[OF assms(1)] by blast

lemma free_child_table:
  "table_inv (sd_table s) \<Longrightarrow>
   table_inv (sd_table (free_child h s)) \<and> live (sd_table (free_child h s)) = (live (sd_table s))(h := None)"
  using tt_free_law[of "sd_table s" h] by (simp add: free_child_def case_prod_beta)

lemma free_child_next [simp]: "tt_next_handle (sd_table (free_child h s)) = tt_next_handle (sd_table s)"
  by (simp add: free_child_def tt_free_def upd_slot_def split: option.splits)

lemma free_child_ghost [simp]: "sd_got (free_child h s) = sd_got s"
  by (simp add: free_child_def tt_free_def split: option.splits)

lemma free_child_deleted:
  "sd_deleted (free_child h s) = sd_deleted s @ (case live (sd_table s) h of None \<Rightarrow> [] | Some t \<Rightarrow> caps_of t)"
  by (simp add: free_child_def tt_free_def live_def split: option.splits)

lemma install_good:
  assumes "good_child h t"
  shows "good_child h (start_running (install_caps im t))"
    and "ct_state t = RUNNING \<Longrightarrow> good_child h (install_caps im t)"
  using assms
  by (auto simp: good_child_def slot_ok_def is_live_def start_running_def install_caps_def caps_of_def)

lemma reaped_facts:
  "is_live (reaped evs t) = is_live t" "ct_handle (reaped evs t) = ct_handle t"
  "caps_of (reaped evs t) = caps_of t"
  using slot_keeps_reaped[of evs] by (simp_all add: slot_keeps_def)

abbreviation fresh_child :: "u32 \<Rightarrow> string \<Rightarrow> child_task" where
  "fresh_child h path \<equiv> alloc_slot h (Some path) empty_task"

lemma alloc_then_reap:
  fixes evs :: "reaper_ev list"
  assumes "table_inv (sd_table s)" and "handles_left (sd_table s)"
    and "tt_alloc (sd_table s) (Some path) = (T, Some i)"
  defines "h \<equiv> tt_next_handle (sd_table s)" and "s1 \<equiv> reaper_main evs (s\<lparr>sd_table := T\<rparr>)"
  shows "ct_handle (tt_tasks T ! i) = h"
    and "table_inv (sd_table s1)"
    and "tt_find (sd_table s1) h = Some i"
    and "live (sd_table s) h = None"
    and "live (sd_table s1) = (\<lambda>k. map_option (reaped evs) (live (sd_table s) k))(h \<mapsto> reaped evs (fresh_child h path))"
proof -
  note d = tt_alloc_SomeD[OF assms(1-3)]
  have i: "i < TASK_MAX" using d(2) by (simp add: may_put_def)
  have n: "tt_tasks T ! i = fresh_child h path"
    using put_slot_nth[OF assms(1) i i] by (simp add: d(1) h_def)
  then show "ct_handle (tt_tasks T ! i) = h" by simp
  have "tt_new (sd_table s) (Some path) = Some (T, h)"
    using assms(3) n by (simp add: tt_new_def)
  note l = tt_new_law[OF assms(1,2) this]
  then show "live (sd_table s) h = None" by simp
  show "table_inv (sd_table s1)" using l by (simp add: s1_def reaper_main_inv)
  have "tt_find T h = Some i" using tt_find_iff[of T h i] l i n by simp
  then show "tt_find (sd_table s1) h = Some i" using l by (simp add: s1_def reaper_main_find)
  show "live (sd_table s1) = (\<lambda>k. map_option (reaped evs) (live (sd_table s) k))(h \<mapsto> reaped evs (fresh_child h path))"
    using l by (auto simp: s1_def reaper_main_live fun_eq_iff)
qed

lemma do_spawn_None:
  assumes "table_inv (sd_table s)" and "handles_left (sd_table s)"
    and "do_spawn launch evs path argv console s = (s', None)"
  shows "table_inv (sd_table s')"
    and "sd_got s' = sd_got s" and "sd_deleted s' = sd_deleted s"
    and "live (sd_table s') = live (sd_table s) \<or>
         live (sd_table s') = (\<lambda>k. map_option (reaped evs) (live (sd_table s) k))"
proof -
  obtain T r where a: "tt_alloc (sd_table s) (Some path) = (T, r)" by fastforce
  have "table_inv (sd_table s') \<and> sd_got s' = sd_got s \<and> sd_deleted s' = sd_deleted s \<and>
      (live (sd_table s') = live (sd_table s) \<or>
       live (sd_table s') = (\<lambda>k. map_option (reaped evs) (live (sd_table s) k)))"
  proof (cases r)
    case None
    with a tt_alloc_None[OF assms(1)] have "T = sd_table s" by blast
    with a None assms(1,3) show ?thesis by (auto simp: do_spawn_def)
  next
    case (Some i)
    note fa = alloc_then_reap(1,4)[OF assms(1,2) a[unfolded Some]]
    note fb = alloc_then_reap(2,3,5)[OF assms(1,2) a[unfolded Some], where evs = evs]
    let ?s1 = "reaper_main evs (s\<lparr>sd_table := T\<rparr>)" and ?h = "tt_next_handle (sd_table s)"
    have s': "s' = free_child ?h ?s1"
      using assms(3) a Some fa(1) by (auto simp: do_spawn_def Let_def split: option.splits)
    have "live (sd_table s') = (\<lambda>k. map_option (reaped evs) (live (sd_table s) k))"
      using free_child_table[OF fb(1), of ?h] fa(2) fb(3) by (auto simp: s' fun_eq_iff)
    then show ?thesis
      using free_child_table[OF fb(1), of ?h] fb(3) free_child_deleted[of ?h ?s1]
      by (simp add: s' reaped_facts)
  qed
  then show "table_inv (sd_table s')" "sd_got s' = sd_got s" "sd_deleted s' = sd_deleted s"
    "live (sd_table s') = live (sd_table s) \<or>
     live (sd_table s') = (\<lambda>k. map_option (reaped evs) (live (sd_table s) k))"
    by blast+
qed

lemma do_spawn_Some:
  assumes "table_inv (sd_table s)" and "handles_left (sd_table s)"
    and "do_spawn launch evs path argv console s = (s', Some i)"
  defines "h \<equiv> tt_next_handle (sd_table s)"
  obtains im where "load_image launch h path argv console = Some im"
    and "table_inv (sd_table s')" and "tt_find (sd_table s') h = Some i"
    and "live (sd_table s) h = None"
    and "live (sd_table s') = (\<lambda>k. map_option (reaped evs) (live (sd_table s) k))
           (h \<mapsto> start_running (install_caps im (reaped evs (fresh_child h path))))"
    and "sd_got s' = sd_got s @ image_caps im" and "sd_deleted s' = sd_deleted s"
proof -
  obtain T where a: "tt_alloc (sd_table s) (Some path) = (T, Some i)"
    using assms(3) by (auto simp: do_spawn_def Let_def split: prod.splits option.splits)
  note fa = alloc_then_reap(1,4)[OF assms(1,2) a, folded h_def]
  note fb = alloc_then_reap(2,3,5)[OF assms(1,2) a, where evs = evs, folded h_def]
  let ?s1 = "reaper_main evs (s\<lparr>sd_table := T\<rparr>)" and ?f = "\<lambda>im. start_running \<circ> install_caps im"
  obtain im where im: "load_image launch h path argv console = Some im"
    and s': "s' = put_image i im start_running (?s1\<lparr>sd_got := sd_got ?s1 @ image_caps im\<rparr>)"
    using assms(3) a fa(1) by (auto simp: do_spawn_def Let_def split: option.splits)
  have t: "child_at ?s1 i = reaped evs (fresh_child h path)"
    using live_of_find[OF fb(2)] fb(3) by simp
  have g: "good_child h (reaped evs (fresh_child h path))"
    using live_good[OF fb(1), of h] fb(3) by simp
  have T': "sd_table s' = tt_upd (sd_table ?s1) h (?f im)"
    by (simp add: s' put_image_def upd_slot_tt_upd[OF fb(2)])
  note u = tt_upd_law[OF fb(1), of h "reaped evs (fresh_child h path)" "?f im"]
  show thesis
  proof (rule that[OF im])
    show "table_inv (sd_table s')" using u fb(3) install_good(1)[OF g] by (simp add: T')
    show "tt_find (sd_table s') h = Some i"
      using upd_slot_find[OF fb(2), of "?f im" h] install_good(1)[OF g, of im] g
      by (simp add: s' put_image_def t good_child_def fb(2))
    show "live (sd_table s) h = None" by (rule fa(2))
    show "live (sd_table s') = (\<lambda>k. map_option (reaped evs) (live (sd_table s) k))
        (h \<mapsto> start_running (install_caps im (reaped evs (fresh_child h path))))"
      using u fb(3) install_good(1)[OF g] by (simp add: T')
    show "sd_got s' = sd_got s @ image_caps im" by (simp add: s' put_image_def)
    show "sd_deleted s' = sd_deleted s" by (simp add: s' put_image_def t reaped_facts)
  qed
qed

lemma reaper_main_append: "reaper_main (as @ bs) s = reaper_main bs (reaper_main as s)"
  by (simp add: reaper_main_def)

lemma reaper_main_Nil [simp]: "reaper_main [] s = s"
  by (simp add: reaper_main_def)

lemma wait_poll_Ret:
  "wait_poll i polls s = Ret s' \<Longrightarrow>
   \<exists>n \<le> length polls. s' = reaper_main (concat (take n polls)) s \<and> ct_state (child_at s' i) = EXITED"
proof (induction i polls s rule: wait_poll.induct)
  case (1 i s)
  then show ?case by (auto split: if_splits)
next
  case (2 i evs polls s)
  show ?case
  proof (cases "ct_state (child_at s i) = EXITED")
    case True
    with 2(2) show ?thesis by (intro exI[of _ 0]) auto
  next
    case False
    with 2 obtain n where "n \<le> length polls"
      "s' = reaper_main (concat (take n polls)) (reaper_main evs s)" "ct_state (child_at s' i) = EXITED"
      by auto
    then show ?thesis by (intro exI[of _ "Suc n"]) (simp add: reaper_main_append)
  qed
qed

lemma wait_poll_returns:
  assumes "ct_state (child_at (reaper_main (concat polls) s) i) = EXITED"
  shows "\<exists>s'. wait_poll i polls s = Ret s'"
  using assms
proof (induction i polls s rule: wait_poll.induct)
  case (1 i s)
  then show ?case by simp
next
  case (2 i evs polls s)
  then show ?case by (auto simp: reaper_main_append)
qed

lemma set_waited_table:
  assumes "table_inv (sd_table s)" and "tt_find (sd_table s) h = Some i"
  shows "table_inv (sd_table (set_waited b i s))" and "tt_find (sd_table (set_waited b i s)) k = tt_find (sd_table s) k"
    and "live (sd_table (set_waited b i s)) = (live (sd_table s))(h \<mapsto> (child_at s i)\<lparr>ct_being_waited := b\<rparr>)"
  using tt_upd_keeps[OF slot_keeps_waited assms(1), of h b] upd_slot_find[OF assms(2)] live_of_find[OF assms(2)]
  by (simp_all add: set_waited_def upd_slot_tt_upd[OF assms(2), symmetric] is_live_def)

lemma set_waited_ghost [simp]:
  "sd_got (set_waited b i s) = sd_got s" "sd_deleted (set_waited b i s) = sd_deleted s"
  "tt_next_handle (sd_table (set_waited b i s)) = tt_next_handle (sd_table s)"
  by (simp_all add: set_waited_def upd_slot_def)

text \<open>The effect of a wait that returns: the other children are reaped as time passes.\<close>

lemma do_wait_Ret:
  assumes "table_inv (sd_table s)" and "tt_find (sd_table s) h = Some i" and "do_wait i polls s = Ret (s', c)"
  obtains n t where "n \<le> length polls" and "t = reaped (concat (take n polls)) ((child_at s i)\<lparr>ct_being_waited := True\<rparr>)"
    and "ct_state t = EXITED" and "c = ct_exit_code t"
    and "table_inv (sd_table s')" and "tt_find (sd_table s') h = Some i"
    and "live (sd_table s') = (\<lambda>k. map_option (reaped (concat (take n polls))) (live (sd_table s) k))
           (h \<mapsto> t\<lparr>ct_being_waited := False\<rparr>)"
    and "sd_got s' = sd_got s" and "sd_deleted s' = sd_deleted s"
    and "tt_next_handle (sd_table s') = tt_next_handle (sd_table s)"
proof -
  let ?s0 = "set_waited True i s"
  note w0 = set_waited_table[OF assms(1,2), of True]
  from assms(3) obtain s1 where p: "wait_poll i polls ?s0 = Ret s1"
    and s': "s' = set_waited False i s1" and c: "c = ct_exit_code (child_at s1 i)"
    by (auto simp: do_wait_def obind_Ret_iff)
  from wait_poll_Ret[OF p] obtain n where n: "n \<le> length polls"
    and s1: "s1 = reaper_main (concat (take n polls)) ?s0" and e: "ct_state (child_at s1 i) = EXITED" by blast
  let ?r = "reaped (concat (take n polls))"
  have f1: "tt_find (sd_table s1) h = Some i"
    using reaper_main_find[OF w0(1)] w0(2) assms(2) by (simp add: s1)
  have inv1: "table_inv (sd_table s1)" using w0(1) by (simp add: s1 reaper_main_inv)
  have l1: "live (sd_table s1) = (\<lambda>k. map_option ?r (live (sd_table s) k))(h \<mapsto> ?r ((child_at s i)\<lparr>ct_being_waited := True\<rparr>))"
    using reaper_main_live[OF w0(1)] w0(3) by (auto simp: s1 fun_eq_iff)
  have t: "child_at s1 i = ?r ((child_at s i)\<lparr>ct_being_waited := True\<rparr>)"
    using live_of_find[OF f1] l1 by simp
  note w1 = set_waited_table[OF inv1 f1, of False]
  show thesis
  proof (rule that[OF n refl])
    show "table_inv (sd_table s')" "tt_find (sd_table s') h = Some i" using w1(1,2) f1 by (simp_all add: s')
    show "live (sd_table s') = (\<lambda>k. map_option ?r (live (sd_table s) k))
        (h \<mapsto> (?r ((child_at s i)\<lparr>ct_being_waited := True\<rparr>))\<lparr>ct_being_waited := False\<rparr>)"
      using w1(3) l1 t by (simp add: s')
    show "sd_got s' = sd_got s" "sd_deleted s' = sd_deleted s"
      "tt_next_handle (sd_table s') = tt_next_handle (sd_table s)" by (simp_all add: s' s1)
  qed (use e c t in simp_all)
qed

lemma reap_waited: "reap_child ev (t\<lparr>ct_being_waited := b\<rparr>) = (reap_child ev t)\<lparr>ct_being_waited := b\<rparr>"
  by (cases ev) (simp_all add: reap_slot_def mark_exited_def is_live_def)

lemma reaped_waited: "reaped evs (t\<lparr>ct_being_waited := b\<rparr>) = (reaped evs t)\<lparr>ct_being_waited := b\<rparr>"
  by (induction evs arbitrary: t) (simp_all add: reap_waited)

text \<open>Events that come after a child was found exited do not change what was found.\<close>

lemma reaped_prefix:
  assumes "ct_state (reaped (concat (take n polls)) t) = EXITED"
  shows "reaped (concat polls) t = reaped (concat (take n polls)) t"
proof -
  have "concat polls = concat (take n polls) @ concat (drop n polls)"
    by (metis append_take_drop_id concat_append)
  then show ?thesis using reaped_exited[OF assms] by (metis reaped_simps(3))
qed

end
