(* ===== verification/Spawnd_Run.thy ===== *)
theory Spawnd_Run
  imports Spawnd
begin

text \<open>
  The program loader over time: the states it reaches by handling requests one after the other
  with the reaper in between, the invariants of these states, and what each request promises its
  caller. \<open>spawnd_run n s\<close> says that \<open>s\<close> is reached with \<open>n\<close> spawn requests served; only
  they consume handles.
\<close>

section \<open>Reachable states\<close>

inductive spawnd_run :: "nat \<Rightarrow> spawnd \<Rightarrow> bool" where
  start: "spawnd_run 0 spawnd_init"
| reaper: "spawnd_run n s \<Longrightarrow> spawnd_run n (reaper_step ev s)"
| spawn: "spawnd_run n s \<Longrightarrow> op_spawn launch evs polls junk path args flags s = Ret (s', c) \<Longrightarrow>
    spawnd_run (Suc n) s'"
| spawn_con: "spawnd_run n s \<Longrightarrow> op_spawn_con launch evs polls junk path args flags console s = Ret (s', c) \<Longrightarrow>
    spawnd_run (Suc n) s'"
| exec: "spawnd_run n s \<Longrightarrow> op_exec launch evs junk h path args s = Ret (s', c) \<Longrightarrow> spawnd_run n s'"
| wait: "spawnd_run n s \<Longrightarrow> op_wait polls h flags s = Ret (s', c) \<Longrightarrow> spawnd_run n s'"
| kill: "spawnd_run n s \<Longrightarrow> op_kill h s = (s', c) \<Longrightarrow> spawnd_run n s'"

lemma handler_step_cases:
  assumes "op_spawn launch evs polls junk path args flags s = Ret (s', c)"
  obtains (refused) "s' = s" | (served) argv where "handler_argv junk args = Ret argv"
      "spawn_reply flags polls (do_spawn launch evs (path_buf path) argv None s) = Ret (s', c)"
  using assms by (auto simp: op_spawn_def obind_Ret_iff split: if_splits)

lemma con_step_cases:
  assumes "op_spawn_con launch evs polls junk path args flags console s = Ret (s', c)"
  obtains (refused) "s' = s" | (served) argv k s1 r where "handler_argv junk args = Ret argv" "console = Some k"
      "do_spawn launch evs (path_buf path) argv (Some k) s = (s1, r)"
      "spawn_reply flags polls (s1\<lparr>sd_rcv_freed := sd_rcv_freed s1 @ [k]\<rparr>, r) = Ret (s', c)"
  using assms
  by (auto simp: op_spawn_con_def obind_Ret_iff case_prod_beta split: if_splits option.splits)
    (metis prod.collapse)

section \<open>Capabilities\<close>

lemma caps_balanced_init: "caps_balanced spawnd_init"
  by (simp add: caps_balanced_def spawnd_init_def task_table_init_def owned_def TASK_MAX_def numeral_eq_Suc)

lemma caps_balanced_rcv: "caps_balanced (s\<lparr>sd_rcv_freed := x\<rparr>) = caps_balanced s"
  by (simp add: caps_balanced_def)

lemma op_wait_balanced: "op_wait polls h flags s = Ret (s', c) \<Longrightarrow> caps_balanced s \<Longrightarrow> caps_balanced s'"
  by (auto simp: op_wait_def obind_Ret_iff free_child_balanced dest: do_wait_balanced
      split: option.splits if_splits)

lemma spawnd_run_balanced: "spawnd_run n s \<Longrightarrow> caps_balanced s"
proof (induction rule: spawnd_run.induct)
  case start
  show ?case by (rule caps_balanced_init)
next
  case (reaper n s ev)
  then show ?case using reaper_main_balanced[of s "[ev]"] by (simp add: reaper_main_def)
next
  case (spawn n s launch evs polls junk path args flags s' c)
  from spawn(2) show ?case
  proof (cases rule: handler_step_cases)
    case (served argv)
    obtain s1 r where d: "do_spawn launch evs (path_buf path) argv None s = (s1, r)" by fastforce
    from do_spawn_balanced[OF spawn(3) d] served(2) show ?thesis
      by (auto simp: d dest: spawn_reply_balanced)
  qed (simp add: spawn(3))
next
  case (spawn_con n s launch evs polls junk path args flags console s' c)
  from spawn_con(2) show ?case
  proof (cases rule: con_step_cases)
    case (served argv k s1 r)
    from do_spawn_balanced[OF spawn_con(3) served(3)] served(4) show ?thesis
      by (auto simp: caps_balanced_rcv dest: spawn_reply_balanced)
  qed (simp add: spawn_con(3))
next
  case (exec n s launch evs junk h path args s' c)
  then show ?case by (blast intro: op_exec_balanced)
next
  case (wait n s polls h flags s' c)
  then show ?case by (blast intro: op_wait_balanced)
next
  case (kill n s h s' c)
  then show ?case by (auto simp: op_kill_def free_child_balanced split: option.splits)
qed

section \<open>The table\<close>

lemma unat_Suc_le: "unat (x + 1 :: u32) \<le> unat x + 1"
  by (simp add: unat_word_ariths)

lemma do_spawn_next:
  "do_spawn launch evs path argv console s = (s', r) \<Longrightarrow>
   unat (tt_next_handle (sd_table s')) \<le> unat (tt_next_handle (sd_table s)) + 1"
  using unat_Suc_le[of "tt_next_handle (sd_table s)"]
  by (auto simp: do_spawn_def Let_def tt_alloc_def put_image_def upd_slot_def split: option.splits)

text \<open>A reply keeps the invariant, whatever way it takes.\<close>

lemma do_spawn_inv:
  assumes "table_inv (sd_table s)" and "handles_left (sd_table s)"
    and "do_spawn launch evs path argv console s = (s', r)"
  shows "table_inv (sd_table s') \<and>
    (\<forall>i. r = Some i \<longrightarrow> tt_find (sd_table s') (ct_handle (child_at s' i)) = Some i)"
proof (cases r)
  case None
  then show ?thesis using do_spawn_None(1)[OF assms(1,2)] assms(3) by simp
next
  case (Some i)
  then obtain im where i: "table_inv (sd_table s')" "tt_find (sd_table s') (tt_next_handle (sd_table s)) = Some i"
    using do_spawn_Some[OF assms(1,2)] assms(3) by metis
  with Some tt_find_iff[OF i(1)] show ?thesis by auto
qed

lemma spawn_reply_inv:
  assumes "spawn_reply flags polls (s, r) = Ret (s', c)" and "table_inv (sd_table s)"
    and "\<And>i. r = Some i \<Longrightarrow> tt_find (sd_table s) (ct_handle (child_at s i)) = Some i"
  shows "table_inv (sd_table s') \<and> tt_next_handle (sd_table s') = tt_next_handle (sd_table s)"
proof (cases r)
  case None
  then show ?thesis using assms(1,2) by (simp add: spawn_reply_def)
next
  case (Some i)
  show ?thesis
  proof (cases "flags AND SPAWN_WAIT \<noteq> 0")
    case True
    with assms(1) Some obtain s1 where w: "do_wait i polls s = Ret (s1, c)"
      and s': "s' = free_child (ct_handle (child_at s1 i)) s1"
      by (auto simp: spawn_reply_def obind_Ret_iff)
    from do_wait_Ret[OF assms(2) assms(3)[OF Some] w]
    have "table_inv (sd_table s1)" "tt_next_handle (sd_table s1) = tt_next_handle (sd_table s)"
      by metis+
    then show ?thesis using free_child_table by (simp add: s')
  next
    case False
    then show ?thesis using assms(1,2) Some by (simp add: spawn_reply_def)
  qed
qed

lemma op_wait_inv:
  assumes "op_wait polls h flags s = Ret (s', c)" and "table_inv (sd_table s)"
  shows "table_inv (sd_table s') \<and> tt_next_handle (sd_table s') = tt_next_handle (sd_table s)"
proof (cases "tt_find (sd_table s) h")
  case None
  then show ?thesis using assms by (simp add: op_wait_def)
next
  case (Some i)
  with assms(1) consider "s' = s" | "s' = free_child h s" | s1 where "do_wait i polls s = Ret (s1, c)" "s' = free_child h s1"
    by (auto simp: op_wait_def obind_Ret_iff split: if_splits)
  then show ?thesis
  proof cases
    case 3
    from do_wait_Ret[OF assms(2) Some 3(1)]
    have "table_inv (sd_table s1)" "tt_next_handle (sd_table s1) = tt_next_handle (sd_table s)"
      by metis+
    then show ?thesis using free_child_table by (simp add: 3(2))
  qed (use assms(2) free_child_table in simp_all)
qed

lemma op_exec_inv:
  assumes "op_exec launch evs junk h path args s = Ret (s', c)" and "table_inv (sd_table s)"
  shows "table_inv (sd_table s') \<and> tt_next_handle (sd_table s') = tt_next_handle (sd_table s)"
  using assms(1)
proof (cases rule: op_exec_cases)
  case (replaced i j im argv)
  let ?s1 = "reaper_main evs s"
  note i1 = reaper_main_inv[OF assms(2), of evs]
  have l: "live (sd_table ?s1) h = Some (child_at ?s1 j)" by (rule live_of_find[OF replaced(6)])
  note g = install_good(2)[OF live_good[OF i1 l] replaced(7)]
  show ?thesis
    using tt_upd_law[OF i1 l, of "install_caps im"] g
    by (simp add: replaced(8) put_image_def upd_slot_tt_upd[OF replaced(6), symmetric] upd_slot_def)
qed (use assms(2) reaper_main_inv in simp_all)

lemma spawnd_run_inv:
  "spawnd_run n s \<Longrightarrow> n < 2 ^ 32 - 1 \<Longrightarrow> table_inv (sd_table s) \<and> unat (tt_next_handle (sd_table s)) \<le> n + 1"
proof (induction rule: spawnd_run.induct)
  case start
  show ?case using table_inv_init by (simp add: spawnd_init_def) (simp add: task_table_init_def)
next
  case (reaper n s ev)
  then show ?case
    using reaper_main_inv[of s "[ev]"] reaper_main_next[of "[ev]" s] by (simp add: reaper_main_def)
next
  case (spawn n s launch evs polls junk path args flags s' c)
  then have i: "table_inv (sd_table s)" "handles_left (sd_table s)"
    and n: "unat (tt_next_handle (sd_table s)) \<le> n + 1" by (simp_all add: handles_left_def)
  from spawn(2) show ?case
  proof (cases rule: handler_step_cases)
    case (served argv)
    obtain s1 r where d: "do_spawn launch evs (path_buf path) argv None s = (s1, r)" by fastforce
    from do_spawn_inv[OF i d] have "table_inv (sd_table s') \<and> tt_next_handle (sd_table s') = tt_next_handle (sd_table s1)"
      using served(2) by (intro spawn_reply_inv[of flags polls s1 r]) (auto simp: d)
    then show ?thesis using do_spawn_next[OF d] n by simp
  qed (use i n in simp)
next
  case (spawn_con n s launch evs polls junk path args flags console s' c)
  then have i: "table_inv (sd_table s)" "handles_left (sd_table s)"
    and n: "unat (tt_next_handle (sd_table s)) \<le> n + 1" by (simp_all add: handles_left_def)
  from spawn_con(2) show ?case
  proof (cases rule: con_step_cases)
    case (served argv k s1 r)
    let ?s1 = "s1\<lparr>sd_rcv_freed := sd_rcv_freed s1 @ [k]\<rparr>"
    from do_spawn_inv[OF i served(3)]
    have "table_inv (sd_table s') \<and> tt_next_handle (sd_table s') = tt_next_handle (sd_table ?s1)"
      using served(4) by (intro spawn_reply_inv[of flags polls ?s1 r]) auto
    then show ?thesis using do_spawn_next[OF served(3)] n by simp
  qed (use i n in simp)
next
  case (exec n s launch evs junk h path args s' c)
  then show ?case using op_exec_inv[OF exec(2)] by simp
next
  case (wait n s polls h flags s' c)
  then show ?case using op_wait_inv[OF wait(2)] by simp
next
  case (kill n s h s' c)
  then show ?case using free_child_table by (auto simp: op_kill_def split: option.splits)
qed

section \<open>Properties of the loader\<close>

text \<open>A loader that always succeeds, for the concrete runs below.\<close>

definition demo_loader :: loader where
  "demo_loader r = Some \<lparr>im_task = 10, im_thread = 11, im_rm = 12, im_gate = 13\<rparr>"

definition demo_state :: spawnd where
  "demo_state = fst (do_spawn demo_loader [] ''sh'' [''sh''] None spawnd_init)"

lemma demo_spawn:
  "op_spawn demo_loader [] [] [] ''sh'' ''sh'' 0 spawnd_init = Ret (demo_state, 1)"
  by code_simp

lemma demo_run: "spawnd_run (Suc 0) demo_state"
  using spawnd_run.spawn[OF spawnd_run.start demo_spawn] .

lemma demo_live: "live (sd_table demo_state) 1 =
  Some \<lparr>ct_handle = 1, ct_name = ''sh'', ct_task = Some 10, ct_thread = Some 11, ct_rm = Some 12,
    ct_parent_gate = Some 13, ct_state = RUNNING, ct_exit_code = 0, ct_being_waited = False\<rparr>"
  by code_simp

text \<open>
  C2: in every state the loader reaches while fewer than 2^32 - 1 spawn requests were served,
  whatever the requests, the loader's answers and the reaper's interleaving, the child table is
  well formed: handles of live children are positive and distinct, free and loading slots own no
  capability, and a running child owns its four capabilities.
\<close>

theorem spawnd_table_invariant:
  assumes "spawnd_run n s" and "n < 2 ^ 32 - 1"
  shows "table_inv (sd_table s)"
  using spawnd_run_inv[OF assms] by simp

theorem spawnd_table_invariant_witness: "table_inv (sd_table demo_state)"
  using spawnd_table_invariant[OF demo_run] by simp

text \<open>
  C3: no capability is leaked and none is destroyed twice: in every reachable state the
  capabilities the loader handed over are exactly the destroyed ones and the ones the table still
  owns, counted with multiplicity.
\<close>

theorem spawnd_caps_conserved:
  assumes "spawnd_run n s"
  shows "mset (sd_got s) = mset (sd_deleted s) + owned (sd_table s)"
  using spawnd_run_balanced[OF assms] by (simp add: caps_balanced_def)

theorem spawnd_caps_conserved_witness: "mset [10, 11, 12, 13] = owned (sd_table demo_state)"
proof -
  have "sd_got demo_state = [10, 11, 12, 13]" "sd_deleted demo_state = []" by code_simp+
  then show ?thesis using spawnd_caps_conserved[OF demo_run] by simp
qed

lemma label_handle_gate:
  assumes "rights < 4"
  shows "label_handle (gate_label h OR rights) = take_bit 30 h"
proof -
  have "take_bit 2 rights = rights"
    using assms by (simp add: take_bit_self_iff)
  then have "\<not> bit rights (n + 2)" for n
    by (metis bit_take_bit_iff not_add_less2)
  then show ?thesis
    by (intro bit_word_eqI) (auto simp: label_handle_def gate_label_def bit_simps)
qed

text \<open>
  The reaper recovers a child's handle from the label of its exit message, whatever
  permission bits the kernel put into the two low bits, exactly when the handle is below 2^30;
  from there on the label has lost the handle's top bits.
\<close>

lemma exit_label_roundtrip:
  assumes "rights < 4"
  shows "label_handle (gate_label h OR rights) = h \<longleftrightarrow> h < 2 ^ 30"
  unfolding label_handle_gate[OF assms] by (subst take_bit_self_iff) simp_all

lemma exit_label_roundtrip_witness:
  "label_handle (gate_label 7 OR 3) = 7 \<and> label_handle (gate_label 0x40000001 OR 3) \<noteq> 0x40000001"
  using exit_label_roundtrip[of 3 7] exit_label_roundtrip[of 3 "0x40000001"] by simp

lemma reaped_exit_first:
  assumes "is_live t" and "ct_state t \<noteq> EXITED" and "ct_handle t = label_handle label"
    and "\<forall>ev \<in> set pre. reap_child ev t = t"
  shows "reaped (pre @ Exit_ipc label mr # post) t = mark_exited (exit_code_of mr) t"
proof -
  have "reaped pre t = t" using assms(4) by (induction pre) simp_all
  then show ?thesis using assms(1-3) reaped_exited[of "mark_exited (exit_code_of mr) t" post]
    by (simp add: mark_exited_def)
qed

lemma op_wait_blocking:
  assumes "table_inv (sd_table s)" and "live (sd_table s) h = Some t" and "ct_state t \<noteq> EXITED"
    and "ct_state (reaped (concat polls) t) = EXITED" and "flags AND WAIT_NOHANG = 0"
  shows "\<exists>s'. op_wait polls h flags s = Ret (s', ct_exit_code (reaped (concat polls) t)) \<and>
    live (sd_table s') h = None \<and> sd_deleted s' = sd_deleted s @ caps_of t"
proof -
  from assms(2) obtain i where i: "tt_find (sd_table s) h = Some i" and t: "t = child_at s i"
    by (auto simp: live_def)
  note w = set_waited_table[OF assms(1) i, of True]
  have "child_at (reaper_main (concat polls) (set_waited True i s)) i =
      reaped (concat polls) (t\<lparr>ct_being_waited := True\<rparr>)"
  proof -
    have "tt_find (sd_table (reaper_main (concat polls) (set_waited True i s))) h = Some i"
      by (simp add: reaper_main_find[OF w(1)] w(2) i)
    from live_of_find[OF this] show ?thesis
      by (simp add: reaper_main_live[OF w(1)] w(3) t)
  qed
  then have "ct_state (child_at (reaper_main (concat polls) (set_waited True i s)) i) = EXITED"
    using assms(4) by (simp add: reaped_waited)
  from wait_poll_returns[OF this] obtain s1 c where d: "do_wait i polls s = Ret (s1, c)"
    by (auto simp: do_wait_def)
  obtain n where n: "ct_state (reaped (concat (take n polls)) t) = EXITED"
    "c = ct_exit_code (reaped (concat (take n polls)) t)" "table_inv (sd_table s1)"
    "live (sd_table s1) h = Some ((reaped (concat (take n polls)) t)\<lparr>ct_being_waited := False\<rparr>)"
    "sd_deleted s1 = sd_deleted s"
  proof (rule do_wait_Ret[OF assms(1) i d])
    fix n u assume u: "u = reaped (concat (take n polls)) ((child_at s i)\<lparr>ct_being_waited := True\<rparr>)"
      "ct_state u = EXITED" "c = ct_exit_code u" "table_inv (sd_table s1)" "sd_deleted s1 = sd_deleted s"
      "live (sd_table s1) = (\<lambda>k. map_option (reaped (concat (take n polls))) (live (sd_table s) k))
         (h \<mapsto> u\<lparr>ct_being_waited := False\<rparr>)"
    have e: "u = (reaped (concat (take n polls)) t)\<lparr>ct_being_waited := True\<rparr>"
      by (simp add: u(1) t reaped_waited)
    show thesis
    proof (rule that[of n])
      show "ct_state (reaped (concat (take n polls)) t) = EXITED"
        "c = ct_exit_code (reaped (concat (take n polls)) t)" using u(2,3) by (simp_all add: e)
      show "live (sd_table s1) h = Some ((reaped (concat (take n polls)) t)\<lparr>ct_being_waited := False\<rparr>)"
        unfolding u(6) by (simp add: e)
    qed (fact u(4,5))+
  qed
  have c: "c = ct_exit_code (reaped (concat polls) t)"
    using n(2) by (simp only: reaped_prefix[OF n(1)])
  have "caps_of (u\<lparr>ct_being_waited := False\<rparr>) = caps_of u" for u by (simp add: caps_of_def)
  then have "sd_deleted (free_child h s1) = sd_deleted s @ caps_of t"
    using free_child_deleted[of h s1] n(4,5) by (simp add: reaped_facts)
  moreover have "op_wait polls h flags s = Ret (free_child h s1, c)"
    using i d assms(3,5) by (simp add: op_wait_def t)
  ultimately show ?thesis
    unfolding c by (intro exI[of _ "free_child h s1"] conjI) (simp_all add: free_child_table[OF n(3)])
qed

text \<open>
  C4: a blocking wait returns to its caller as soon as the child's exit message has been taken by
  the reaper, with the exit code that message carried (its second word, else its first, else 0),
  whatever the reaper does before (as long as it does not find the child dead) and after; the
  child's handle is gone then and its capabilities are destroyed. Its handle is below 2^30.
\<close>

theorem wait_returns_exit_code:
  assumes "table_inv (sd_table s)" and "live (sd_table s) h = Some t" and "ct_state t \<noteq> EXITED"
    and "h < 2 ^ 30" and "rights < 4" and "flags AND WAIT_NOHANG = 0"
    and "concat polls = pre @ Exit_ipc (gate_label h OR rights) mr # post"
    and "\<forall>ev \<in> set pre. reap_child ev t = t"
  shows "\<exists>s'. op_wait polls h flags s =
      Ret (s', if 2 \<le> length mr then sint (mr ! 1) else if 1 \<le> length mr then sint (mr ! 0) else 0) \<and>
    live (sd_table s') h = None \<and> sd_deleted s' = sd_deleted s @ caps_of t"
proof -
  have t: "is_live t" "ct_handle t = h"
    using live_good[OF assms(1,2)] by (simp_all add: good_child_def)
  have "label_handle (gate_label h OR rights) = h"
    unfolding label_handle_gate[OF assms(5)] using assms(4) by (subst take_bit_self_iff) simp_all
  then have r: "reaped (concat polls) t = mark_exited (exit_code_of mr) t"
    unfolding assms(7) using t assms(3,8) by (intro reaped_exit_first) simp_all
  then have "ct_state (reaped (concat polls) t) = EXITED" by (simp add: mark_exited_def)
  from op_wait_blocking[OF assms(1-3) this assms(6)] show ?thesis
    unfolding r by (simp add: mark_exited_def exit_code_of_def)
qed

theorem wait_returns_exit_code_witness:
  "\<exists>s'. op_wait [[Ipc_error], [Exit_ipc 7 [0, 42]]] 1 0 demo_state = Ret (s', 42) \<and>
     live (sd_table s') 1 = None \<and> sd_deleted s' = [10, 11, 12, 13]"
proof -
  have "table_inv (sd_table demo_state)" using spawnd_run_inv[OF demo_run] by simp
  moreover have "sd_deleted demo_state = []" by code_simp
  moreover have "gate_label 1 OR 3 = 7" by code_simp
  moreover have "exit_code_of [0, 42] = 42" by code_simp
  moreover have "caps_of (the (live (sd_table demo_state) 1)) = [10, 11, 12, 13]"
    by (simp add: demo_live caps_of_def)
  ultimately show ?thesis
    using wait_returns_exit_code[of demo_state 1 _ 3 0 "[[Ipc_error], [Exit_ipc 7 [0, 42]]]" "[Ipc_error]" "[0, 42]" "[]"]
      demo_live by simp
qed





end
