(* ===== verification/App_Model.thy ===== *)
theory App_Model
  imports Prelude
begin

text \<open>
  The loader's application model, \<^verbatim>\<open>pkg/spawn/server/src/app_model.cc\<close>: how a program file is
  found and read, which capabilities a child gets and where, and what is pushed on its startup
  stack. The ELF loader that drives these callbacks, the name space and the region manager are
  library code: their answers are the fields of \<open>spawn_env\<close>. A dataspace is the list of its
  bytes.
\<close>

section \<open>What the environment answers\<close>

text \<open>
  A file of the ext4 server: its size and the size of the bounce buffer, or an error; and for a
  read request the bytes it leaves in the buffer, or an error.
\<close>

record file_srv =
  fs_setup :: "(u64 \<times> u32) option"
  fs_pread :: "nat \<Rightarrow> nat \<Rightarrow> string option"

record spawn_env =
  se_query_ds :: "string \<Rightarrow> string option"
  se_query_file :: "string \<Rightarrow> file_srv option"
  se_buf_cap :: bool
  se_mem_alloc :: "u32 \<Rightarrow> bool"
  se_attach :: "u32 \<Rightarrow> bool"

section \<open>Reading a program\<close>

text \<open>
  The copy loop of \<^verbatim>\<open>open_from_ext4\<close>. Offsets are natural numbers: the destination is an
  object of at most 4 GiB, so a copy faults long before the 64-bit offset could wrap. The result
  is the destination and the flag \<^verbatim>\<open>ok\<close>.
\<close>

function stream :: "(nat \<Rightarrow> nat \<Rightarrow> string option) \<Rightarrow> nat \<Rightarrow> nat \<Rightarrow> nat \<Rightarrow> nat \<Rightarrow> string \<Rightarrow> (string \<times> bool) outcome" where
  "stream pread buf_map bsz fsize off dst =
     (if off < fsize
      then let chunk = (if fsize - off > bsz then bsz else fsize - off)
           in case pread off chunk of
                None \<Rightarrow> Ret (dst, False)
              | Some bs \<Rightarrow>
                  if length bs = 0 then Ret (dst, True)
                  else if buf_map < length bs then Fault
                  else obind (mem_put dst off bs) (stream pread buf_map bsz fsize (off + length bs))
      else Ret (dst, True))"
  by pat_completeness auto

termination
  by (relation "measure (\<lambda>(_, _, _, fsize, off, _). fsize - off)") (auto intro: diff_less_mono2)

declare stream.simps [simp del]

text \<open>The returned flag says whether the file handle was released.\<close>

definition open_from_ext4 :: "spawn_env \<Rightarrow> string \<Rightarrow> (string option \<times> bool) outcome" where
  "open_from_ext4 E relpath =
     (case se_query_file E (snprintf_buf 520 (''ext4/'' @ relpath)) of
        None \<Rightarrow> Ret (None, False)
      | Some f \<Rightarrow>
          if \<not> se_buf_cap E then Ret (None, False)
          else case fs_setup f of
            None \<Rightarrow> Ret (None, False)
          | Some (fsize, bsz) \<Rightarrow>
              if bsz = 0 then Ret (None, False)
              else let dsz = (if fsize \<noteq> 0 then ucast fsize else 1) in
                if \<not> se_mem_alloc E dsz then Ret (None, False)
                else let buf_map = round_page bsz; dst_map = round_page dsz in
                  obind (if se_attach E buf_map \<and> se_attach E dst_map
                         then stream (fs_pread f) (unat buf_map) (unat bsz) (unat fsize) 0 (replicate (unat dst_map) NUL)
                         else Ret ([], False))
                    (\<lambda>(d, ok). Ret (if ok then Some d else None, True)))"

definition open_file :: "spawn_env \<Rightarrow> string \<Rightarrow> (string option \<times> bool) outcome" where
  "open_file E name =
     (if take 6 name = ''/ext4/'' then open_from_ext4 E (drop 6 name)
      else let rom_path = (if take 4 name \<noteq> ''rom/'' then snprintf_buf 280 (''rom/'' @ name) else take 279 name)
        in case se_query_ds E rom_path of
             Some d \<Rightarrow> Ret (Some d, False)
           | None \<Rightarrow> (case se_query_ds E name of Some d \<Rightarrow> Ret (Some d, False) | None \<Rightarrow> Ret (None, False)))"

definition local_attach_ds :: "(u32 \<Rightarrow> u32 \<Rightarrow> u32 option) \<Rightarrow> u32 \<Rightarrow> u32 \<Rightarrow> u32 option" where
  "local_attach_ds attach sz off =
     (let pg_off = trunc_page off;
          in_pg_off = off - pg_off;
          pg_sz = round_page (sz + in_pg_off)
      in map_option (\<lambda>vaddr. vaddr + in_pg_off) (attach pg_sz pg_off))"

definition local_detach_ds :: "u32 \<Rightarrow> u32" where
  "local_detach_ds addr = trunc_page addr"

section \<open>The child's capabilities\<close>

text \<open>
  An entry of the initial capability array; an invalid capability is \<open>None\<close>. The loader's stack
  takes pairs of a name and the index at which the child finds the capability.
\<close>

record env_cap_entry =
  ec_name :: string
  ec_cap :: "cap option"

definition L4_CAP_OFFSET :: u32 where
  "L4_CAP_OFFSET = 0x1000"

fun push_caps :: "env_cap_entry list \<Rightarrow> u32 \<Rightarrow> (string \<times> u32) list \<times> u32" where
  "push_caps [] start = ([], start)"
| "push_caps (e # es) start =
     (case ec_cap e of
        None \<Rightarrow> push_caps es start
      | Some c \<Rightarrow> (case push_caps es (start + L4_CAP_OFFSET) of (ps, st) \<Rightarrow> ((ec_name e, start) # ps, st)))"

definition push_initial_caps :: "env_cap_entry list \<Rightarrow> cap option \<Rightarrow> u32 \<Rightarrow> (string \<times> u32) list \<times> u32" where
  "push_initial_caps es spawnd_cap start =
     (case push_caps es start of (ps, st) \<Rightarrow>
        case spawnd_cap of None \<Rightarrow> (ps, st) | Some c \<Rightarrow> (ps @ [(''spawnd'', st)], st + L4_CAP_OFFSET))"

fun map_caps :: "env_cap_entry list \<Rightarrow> u32 \<Rightarrow> (cap \<times> u32) list \<times> u32" where
  "map_caps [] start = ([], start)"
| "map_caps (e # es) start =
     (case ec_cap e of
        None \<Rightarrow> map_caps es start
      | Some c \<Rightarrow> (case map_caps es (start + L4_CAP_OFFSET) of (ms, st) \<Rightarrow> ((c, start) # ms, st)))"

definition map_initial_caps :: "env_cap_entry list \<Rightarrow> cap option \<Rightarrow> u32 \<Rightarrow> (cap \<times> u32) list" where
  "map_initial_caps es spawnd_cap start =
     (case map_caps es start of (ms, st) \<Rightarrow>
        case spawnd_cap of None \<Rightarrow> ms | Some c \<Rightarrow> ms @ [(c, st)])"

record prog_info =
  pi_mem_alloc :: cap
  pi_log :: cap
  pi_factory :: cap
  pi_scheduler :: cap
  pi_rm :: cap
  pi_parent :: cap

record own_env =
  oe_mem_alloc :: cap
  oe_log :: cap
  oe_factory :: cap
  oe_scheduler :: cap

text \<open>
  The strings go to the startup stack in the order they are pushed; \<open>a0\<close> and \<open>al\<close> are the
  first and the last one pushed.
\<close>

record str_block =
  sb_pushed :: "string list"
  sb_a0 :: "string option"
  sb_al :: "string option"

definition push_strings :: "string list \<Rightarrow> str_block" where
  "push_strings ss = fold (\<lambda>s b. \<lparr>sb_pushed = sb_pushed b @ [s],
      sb_a0 = (if sb_pushed b = [] then Some s else sb_a0 b), sb_al = Some s\<rparr>)
     ss \<lparr>sb_pushed = [], sb_a0 = None, sb_al = None\<rparr>"

definition push_argv_strings :: "int \<Rightarrow> string list option \<Rightarrow> str_block" where
  "push_argv_strings argc argv =
     (case argv of
        None \<Rightarrow> push_strings []
      | Some a \<Rightarrow> if argc \<le> 0 then push_strings [] else push_strings (take (nat argc) a))"

definition push_env_strings :: "string list option \<Rightarrow> str_block" where
  "push_env_strings envp = (case envp of None \<Rightarrow> push_strings [] | Some e \<Rightarrow> push_strings e)"

definition init_prog ::
  "own_env \<Rightarrow> cap option \<Rightarrow> cap \<Rightarrow> cap \<Rightarrow> int \<Rightarrow> string list option \<Rightarrow> string list option \<Rightarrow>
   prog_info \<times> str_block \<times> str_block" where
  "init_prog env console rm parent argc argv envp =
     (\<lparr>pi_mem_alloc = oe_mem_alloc env, pi_log = (case console of Some c \<Rightarrow> c | None \<Rightarrow> oe_log env),
       pi_factory = oe_factory env, pi_scheduler = oe_scheduler env, pi_rm = rm, pi_parent = parent\<rparr>,
      push_argv_strings argc argv, push_env_strings envp)"

section \<open>Correctness\<close>

text \<open>
  The documented behaviour of a file server: a read inside the file delivers at least one and at
  most the requested number of bytes of the file at that offset.
\<close>

definition reads_from :: "(nat \<Rightarrow> nat \<Rightarrow> string option) \<Rightarrow> string \<Rightarrow> bool" where
  "reads_from pread content \<longleftrightarrow>
     (\<forall>off n. off < length content \<longrightarrow> 0 < n \<longrightarrow> n \<le> length content - off \<longrightarrow>
        (\<exists>k. 0 < k \<and> k \<le> n \<and> pread off n = Some (take k (drop off content))))"

lemma stream_correct:
  assumes "reads_from pread content" and "0 < bsz" and "bsz \<le> buf_map"
    and "length content \<le> length dst" and "off \<le> length content" and "take off dst = take off content"
  shows "stream pread buf_map bsz (length content) off dst = Ret (content @ drop (length content) dst, True)"
  using assms(4-6)
proof (induction "length content - off" arbitrary: off dst rule: less_induct)
  case less
  show ?case
  proof (cases "off < length content")
    case False
    with less.prems have "off = length content" by simp
    with less.prems(3) have "take (length content) dst = content" by simp
    then have "content @ drop (length content) dst = dst"
      using append_take_drop_id[of "length content" dst] by simp
    then show ?thesis using False by (simp add: stream.simps)
  next
    case True
    let ?c = "if length content - off > bsz then bsz else length content - off"
    have "0 < ?c" "?c \<le> length content - off" using assms(2) True by simp_all
    then obtain k where k: "0 < k" "k \<le> ?c" and r: "pread off ?c = Some (take k (drop off content))"
      using assms(1)[unfolded reads_from_def, rule_format, OF True, of ?c] by blast
    have len: "length (take k (drop off content)) = k" using k True by (auto split: if_splits)
    have k': "k \<le> buf_map" "off + k \<le> length content" using k assms(3) True by (auto split: if_splits)
    define d where "d = take off dst @ take k (drop off content) @ drop (off + k) dst"
    have put: "mem_put dst off (take k (drop off content)) = Ret d"
      using len k' less.prems(1) by (simp add: mem_put_def d_def)
    have "take (off + k) d = take (off + k) content"
      using less.prems True k' by (simp add: d_def take_add)
    moreover have "drop (length content) d = drop (length content) dst" "length d = length dst"
      using less.prems(1) True k' by (simp_all add: d_def)
    ultimately have "stream pread buf_map bsz (length content) (off + k) d = Ret (content @ drop (length content) dst, True)"
      using less.hyps[of "off + k" d] k(1) k'(2) True less.prems(1) by simp
    then show ?thesis
      using True r len put k(1) k'(1) by (subst stream.simps) (simp add: Let_def)
  qed
qed

lemma push_strings_correct:
  "push_strings ss = \<lparr>sb_pushed = ss, sb_a0 = (if ss = [] then None else Some (hd ss)),
     sb_al = (if ss = [] then None else Some (last ss))\<rparr>"
  unfolding push_strings_def by (induction ss rule: rev_induct) (auto simp: hd_append)

text \<open>
  Loading \<^verbatim>\<open>/ext4/<path>\<close> gives a dataspace that starts with exactly the bytes of the file,
  followed by zeros, and releases the file handle; this needs a file server that delivers at least
  one byte per read inside the file, a file and a buffer of at most 4 GiB minus a page, and a path
  of at most 514 characters.
\<close>

lemma open_file_reads_program:
  assumes "se_query_file E (''ext4/'' @ rel) = Some f" and "length rel \<le> 514"
    and "fs_setup f = Some (of_nat (length content), bsz)" and "reads_from (fs_pread f) content"
    and "0 < bsz" and "unat bsz \<le> 2 ^ 32 - 4096" and "length content \<le> 2 ^ 32 - 4096"
    and "se_buf_cap E" and "\<forall>n. se_mem_alloc E n" and "\<forall>n. se_attach E n"
  shows "\<exists>pad. open_file E (''/ext4/'' @ rel) = Ret (Some (content @ replicate pad NUL), True)"
proof -
  define fsize :: u64 where "fsize = of_nat (length content)"
  define dsz :: u32 where "dsz = (if fsize \<noteq> 0 then ucast fsize else 1)"
  have u: "unat fsize = length content"
    using assms(7) by (simp add: fsize_def unsigned_of_nat take_bit_nat_eq_self_iff)
  then have z: "fsize = 0 \<longleftrightarrow> length content = 0" by (metis unat_eq_zero)
  have d: "unat dsz = (if content = [] then 1 else length content)"
    using u z assms(7) by (simp add: dsz_def unsigned_ucast_eq take_bit_nat_eq_self_iff)
  then have "unat dsz \<le> 2 ^ 32 - 4096" using assms(7) by auto
  from round_page_ge[OF this] d have dst: "length content \<le> unat (round_page dsz)" by (auto split: if_splits)
  have buf: "0 < unat bsz" "unat bsz \<le> unat (round_page bsz)"
    using assms(5) round_page_ge[OF assms(6)] by (simp_all add: word_less_nat_alt)
  have "stream (fs_pread f) (unat (round_page bsz)) (unat bsz) (unat fsize) 0 (replicate (unat (round_page dsz)) NUL) =
      Ret (content @ replicate (unat (round_page dsz) - length content) NUL, True)"
    using stream_correct[OF assms(4) buf, of "replicate (unat (round_page dsz)) NUL" 0] dst by (simp add: u)
  moreover have "snprintf_buf 520 (''ext4/'' @ rel) = ''ext4/'' @ rel"
    using assms(2) by (intro snprintf_buf_fits) simp
  ultimately have "open_from_ext4 E rel =
      Ret (Some (content @ replicate (unat (round_page dsz) - length content) NUL), True)"
    using assms(1,3,5,8-10) by (simp add: open_from_ext4_def Let_def fsize_def[symmetric] dsz_def[symmetric])
  then show ?thesis by (simp add: open_file_def numeral_eq_Suc)
qed

definition demo_srv :: file_srv where
  "demo_srv = \<lparr>fs_setup = Some (3, 2), fs_pread = (\<lambda>off n. Some (take (min n 2) (drop off ''abc'')))\<rparr>"

lemma open_file_reads_program_witness:
  "\<exists>pad. open_file \<lparr>se_query_ds = (\<lambda>_. None), se_query_file = (\<lambda>p. if p = ''ext4/ls'' then Some demo_srv else None),
      se_buf_cap = True, se_mem_alloc = (\<lambda>_. True), se_attach = (\<lambda>_. True)\<rparr> ''/ext4/ls'' =
    Ret (Some (''abc'' @ replicate pad NUL), True)"
proof -
  have "reads_from (fs_pread demo_srv) ''abc''"
    unfolding reads_from_def demo_srv_def
  proof (intro allI impI)
    fix off n :: nat assume "off < length ''abc''" "0 < n" "n \<le> length ''abc'' - off"
    then show "\<exists>k>0. k \<le> n \<and> fs_pread \<lparr>fs_setup = Some (3, 2),
        fs_pread = \<lambda>off n. Some (take (min n 2) (drop off ''abc''))\<rparr> off n = Some (take k (drop off ''abc''))"
      by (intro exI[of _ "min n 2"]) simp
  qed
  then show ?thesis
    using open_file_reads_program[of "\<lparr>se_query_ds = (\<lambda>_. None),
        se_query_file = (\<lambda>p. if p = ''ext4/ls'' then Some demo_srv else None),
        se_buf_cap = True, se_mem_alloc = (\<lambda>_. True), se_attach = (\<lambda>_. True)\<rparr>" "''ls''" demo_srv "''abc''" 2]
    by (simp add: demo_srv_def)
qed

lemma push_caps_zip:
  "push_caps es start =
    (let vs = filter (\<lambda>e. ec_cap e \<noteq> None) es
     in (zip (map ec_name vs) (map (\<lambda>i. start + of_nat i * L4_CAP_OFFSET) [0..<length vs]),
         start + of_nat (length vs) * L4_CAP_OFFSET))"
proof (induction es arbitrary: start)
  case (Cons e es)
  then show ?case
    by (cases "ec_cap e")
      (simp_all add: Let_def upt_conv_Cons map_Suc_upt[symmetric] comp_def algebra_simps del: upt_Suc)
qed simp

lemma map_caps_zip:
  "map_caps es start =
    (let vs = filter (\<lambda>e. ec_cap e \<noteq> None) es
     in (zip (map (the \<circ> ec_cap) vs) (map (\<lambda>i. start + of_nat i * L4_CAP_OFFSET) [0..<length vs]),
         start + of_nat (length vs) * L4_CAP_OFFSET))"
proof (induction es arbitrary: start)
  case (Cons e es)
  then show ?case
    by (cases "ec_cap e")
      (simp_all add: Let_def upt_conv_Cons map_Suc_upt[symmetric] comp_def algebra_simps del: upt_Suc)
qed simp

text \<open>
  The two passes over the inherited capabilities agree: the i-th valid capability, and the
  loader's own service capability at the end, is announced to the child under its name at the
  same index at which it is mapped into the child's capability space.
\<close>

lemma initial_caps_lockstep:
  defines "entries es sc \<equiv> filter (\<lambda>e. ec_cap e \<noteq> None) es @
      (case sc of None \<Rightarrow> [] | Some c \<Rightarrow> [\<lparr>ec_name = ''spawnd'', ec_cap = Some c\<rparr>])"
  defines "slots n start \<equiv> map (\<lambda>i. start + of_nat i * L4_CAP_OFFSET) [0..<n]"
  shows "fst (push_initial_caps es sc start) = zip (map ec_name (entries es sc)) (slots (length (entries es sc)) start) \<and>
    map_initial_caps es sc start = zip (map (the \<circ> ec_cap) (entries es sc)) (slots (length (entries es sc)) start)"
  by (cases sc) (simp_all add: push_initial_caps_def map_initial_caps_def push_caps_zip map_caps_zip Let_def
      entries_def slots_def)

end
