(* ===== verification/Klog.thy ===== *)
theory Klog
  imports Prelude
begin

text \<open>
  The logging library every server links, \<^verbatim>\<open>pkg/klog/lib/klog.cc\<close>: a ring of 256 entries, the
  console, and the log file or the log daemon. The text a caller's format string expands to, the
  clock and the result of \<^verbatim>\<open>fopen\<close> are arguments. The outputs (console lines, lines appended to
  the log file, messages sent to the log daemon) are fields of the state. The locale
  \<open>bounded_log\<close> is the contract of the ring: it holds the last entries, in order.
\<close>

section \<open>Entries and their text\<close>

record klog_entry =
  ke_ts :: u64
  ke_seq :: u64
  ke_level :: int
  ke_facility :: int
  ke_msg :: string

definition ESC :: char where "ESC = CHR 0x1b"

definition level_color :: "int \<Rightarrow> string" where
  "level_color lvl =
     (if lvl \<le> 3 then ESC # ''[31m'' else if lvl = 4 then ESC # ''[33m''
      else if lvl \<ge> 7 then ESC # ''[2m'' else [])"

definition level_str :: "int \<Rightarrow> string" where
  "level_str lvl =
     (if 0 \<le> lvl \<and> lvl \<le> 7
      then [''EMERG'', ''ALERT'', ''CRIT '', ''ERR  '', ''WARN '', ''NOTE '', ''INFO '', ''DEBUG''] ! nat lvl
      else ''?    '')"

definition fac_str :: "int \<Rightarrow> string" where
  "fac_str fac =
     (if 0 \<le> fac \<and> fac \<le> 7
      then [''kern '', ''shell'', ''net  '', ''fs   '', ''blk  '', ''rtc  '', ''user '', ''disp ''] ! nat fac
      else ''user '')"

text \<open>\<^verbatim>\<open>[%5llu.%06llu] \<close> of a time stamp in microseconds.\<close>

definition fmt_time :: "u64 \<Rightarrow> string" where
  "fmt_time ts = ''['' @ pad_left (CHR '' '') 5 (show_nat (unat ts div 1000000)) @ ''.'' @
     pad_left (CHR ''0'') 6 (show_nat (unat ts mod 1000000)) @ ''] ''"

definition fmt_entry_console :: "nat \<Rightarrow> klog_entry \<Rightarrow> string" where
  "fmt_entry_console n e =
     (let col = level_color (ke_level e); reset = (if col \<noteq> [] then ESC # ''[0m'' else [])
      in snprintf_buf n (fmt_time (ke_ts e) @ col @ level_str (ke_level e) @ reset @ '' '' @
           fac_str (ke_facility e) @ '': '' @ ke_msg e))"

definition fmt_entry_file :: "nat \<Rightarrow> klog_entry \<Rightarrow> string" where
  "fmt_entry_file n e =
     snprintf_buf n (fmt_time (ke_ts e) @ level_str (ke_level e) @ '' '' @ fac_str (ke_facility e) @
       '': '' @ ke_msg e)"

section \<open>State\<close>

definition KLOG_RING_SIZE :: nat where "KLOG_RING_SIZE = 256"

record klog =
  kl_ring :: "klog_entry list"
  kl_head :: nat
  kl_count :: nat
  kl_console_level :: int
  kl_global_seq :: u64
  kl_file_seq :: u64
  kl_path :: string
  kl_syslogd :: bool
  kl_console :: "string list"
  kl_file :: "string list"
  kl_sent :: "(u64 \<times> u8 \<times> u8 \<times> string) list"

definition zero_entry :: klog_entry where
  "zero_entry = \<lparr>ke_ts = 0, ke_seq = 0, ke_level = 0, ke_facility = 0, ke_msg = []\<rparr>"

text \<open>Before \<^verbatim>\<open>klog_init\<close>: the static initialisers.\<close>

definition klog_boot :: klog where
  "klog_boot = \<lparr>kl_ring = replicate KLOG_RING_SIZE zero_entry, kl_head = 0, kl_count = 0,
     kl_console_level = 6, kl_global_seq = 0, kl_file_seq = 0, kl_path = ''/ext4/syslog.str'',
     kl_syslogd = False, kl_console = [], kl_file = [], kl_sent = []\<rparr>"

text \<open>The entries a reader of the ring visits, in the order of its loop.\<close>

definition snap_entries :: "klog \<Rightarrow> klog_entry list" where
  "snap_entries s =
     (let start = (kl_head s + KLOG_RING_SIZE - kl_count s) mod KLOG_RING_SIZE
      in map (\<lambda>i. kl_ring s ! ((start + i) mod KLOG_RING_SIZE)) [0..<kl_count s])"

section \<open>Operations\<close>

text \<open>
  The flush takes a snapshot, releases the lock, writes the file and takes the lock again to
  record how far it got: \<open>mid\<close> is what other threads do to the state in between.
\<close>

definition klog_flush :: "bool \<Rightarrow> (klog \<Rightarrow> klog) \<Rightarrow> klog \<Rightarrow> klog" where
  "klog_flush fopen_ok mid s =
     (if kl_syslogd s then s
      else let file_seq = kl_file_seq s;
               new = filter (\<lambda>e. ke_seq e > file_seq) (snap_entries s);
               s1 = mid s
        in if new = [] then s1
           else if \<not> fopen_ok then s1
           else let s2 = s1\<lparr>kl_file := kl_file s1 @ map (\<lambda>e. fmt_entry_file 320 e @ [CHR 0x0a]) new\<rparr>;
                    max_seq = fold (\<lambda>e m. if ke_seq e > m then ke_seq e else m) new file_seq
             in if max_seq > kl_file_seq s2 then s2\<lparr>kl_file_seq := max_seq\<rparr> else s2)"

text \<open>\<open>msg[200]\<close> after \<^verbatim>\<open>vsnprintf\<close> and the removal of a final newline.\<close>

definition klog_msg :: "string \<Rightarrow> string" where
  "klog_msg str =
     (let msg = cstr (snprintf_buf 200 str)
      in if msg \<noteq> [] \<and> last msg = CHR 0x0a then butlast msg else msg)"

text \<open>The critical section of \<^verbatim>\<open>klog_write\<close>: the slot at the head, then the whole section.\<close>

definition ring_ins :: "klog_entry \<Rightarrow> klog \<Rightarrow> klog" where
  "ring_ins e s =
     s\<lparr>kl_ring := (kl_ring s)[kl_head s := e], kl_head := (kl_head s + 1) mod KLOG_RING_SIZE,
       kl_count := (if kl_count s < KLOG_RING_SIZE then kl_count s + 1 else kl_count s)\<rparr>"

definition ring_put :: "u64 \<Rightarrow> int \<Rightarrow> int \<Rightarrow> string \<Rightarrow> klog \<Rightarrow> klog" where
  "ring_put ts level facility msg s =
     (let seq = kl_global_seq s + 1
      in ring_ins \<lparr>ke_ts = ts, ke_seq = seq, ke_level = level, ke_facility = facility, ke_msg = msg\<rparr>
           (s\<lparr>kl_global_seq := seq\<rparr>))"

definition klog_write :: "bool \<Rightarrow> u64 \<Rightarrow> int \<Rightarrow> int \<Rightarrow> string \<Rightarrow> klog \<Rightarrow> klog" where
  "klog_write fopen_ok ts level facility str s =
     (let msg = klog_msg str;
          snap = \<lparr>ke_ts = ts, ke_seq = kl_global_seq s + 1, ke_level = level, ke_facility = facility, ke_msg = msg\<rparr>;
          s1 = ring_put ts level facility msg s;
          s2 = (if level \<le> kl_console_level s then s1\<lparr>kl_console := kl_console s1 @ [fmt_entry_console 320 snap]\<rparr> else s1)
      in if kl_syslogd s then s2\<lparr>kl_sent := kl_sent s2 @ [(ts, word_of_int level, word_of_int facility, msg)]\<rparr>
         else if level \<le> 4 then klog_flush fopen_ok id s2 else s2)"

definition klog_init :: "bool \<Rightarrow> u64 \<Rightarrow> string option \<Rightarrow> bool \<Rightarrow> klog \<Rightarrow> klog" where
  "klog_init fopen_ok ts path syslogd s =
     (let p = (case path of None \<Rightarrow> kl_path s | Some q \<Rightarrow> snprintf_buf 256 q);
          s1 = s\<lparr>kl_ring := replicate KLOG_RING_SIZE zero_entry, kl_head := 0, kl_count := 0,
                 kl_global_seq := 0, kl_file_seq := 0, kl_path := p, kl_syslogd := syslogd\<rparr>
      in klog_write fopen_ok ts 6 0
           (''klog: ring buffer ready ('' @ show_nat KLOG_RING_SIZE @ '' slots) '' @
            map char_of [0xe2 :: nat, 0x86, 0x92] @ '' '' @ (if syslogd then ''syslogd'' else p)) s1)"

definition klog_dump :: "int \<Rightarrow> klog \<Rightarrow> klog" where
  "klog_dump min_level s =
     (let shown = filter (\<lambda>e. \<not> ke_level e > min_level) (snap_entries s)
      in s\<lparr>kl_console := kl_console s @
        (if shown = [] then [''(no log entries at this level)''] else map (fmt_entry_console 320) shown)\<rparr>)"

definition klog_clear :: "klog \<Rightarrow> klog" where
  "klog_clear s = s\<lparr>kl_ring := replicate KLOG_RING_SIZE zero_entry, kl_head := 0, kl_count := 0\<rparr>"

definition klog_set_console_level :: "int \<Rightarrow> klog \<Rightarrow> klog" where
  "klog_set_console_level level s = s\<lparr>kl_console_level := level\<rparr>"

definition klog_count :: "klog \<Rightarrow> nat" where
  "klog_count s = kl_count s"

text \<open>\<^verbatim>\<open>uptime_us\<close>: seconds and nanoseconds of the monotonic clock, or an error.\<close>

definition uptime_us :: "(u64 \<times> u64) option \<Rightarrow> u64" where
  "uptime_us clock = (case clock of None \<Rightarrow> 0 | Some (sec, nsec) \<Rightarrow> sec * 1000000 + nsec div 1000)"

section \<open>The contract of a bounded log\<close>

definition last_n :: "nat \<Rightarrow> 'a list \<Rightarrow> 'a list" where
  "last_n n xs = drop (length xs - n) xs"

lemma last_n_snoc: "0 < n \<Longrightarrow> last_n n (last_n n xs @ [x]) = last_n n (xs @ [x])"
  by (cases "length xs < n") (auto simp: last_n_def Suc_diff_le not_less)

locale bounded_log =
  fixes inv :: "'s \<Rightarrow> bool"
    and contents :: "'s \<Rightarrow> 'e list"
    and put :: "'i \<Rightarrow> 's \<Rightarrow> 's"
    and entry :: "'i \<Rightarrow> 'e"
    and cap :: nat
  assumes cap_pos: "0 < cap"
    and put_inv: "inv s \<Longrightarrow> inv (put i s)"
    and put_contents: "inv s \<Longrightarrow> contents (put i s) = last_n cap (contents s @ [entry i])"
begin

lemma fold_put_inv: "inv s \<Longrightarrow> inv (fold put js s)"
  by (induction js arbitrary: s) (auto simp: put_inv)

lemma fold_put:
  assumes "inv s"
  shows "contents (fold put js s) = (if js = [] then contents s else last_n cap (contents s @ map entry js))"
proof (induction js rule: rev_induct)
  case (snoc i js)
  have "contents (fold put (js @ [i]) s) = last_n cap (contents (fold put js s) @ [entry i])"
    using put_contents[OF fold_put_inv[OF assms]] by simp
  also have "\<dots> = last_n cap (contents s @ map entry js @ [entry i])"
    using snoc last_n_snoc[OF cap_pos, of "contents s @ map entry js" "entry i"] by simp
  finally show ?case by simp
qed simp

end

section \<open>The ring is a bounded log\<close>

definition ring_inv :: "klog \<Rightarrow> bool" where
  "ring_inv s \<longleftrightarrow> length (kl_ring s) = KLOG_RING_SIZE \<and> kl_head s < KLOG_RING_SIZE \<and> kl_count s \<le> KLOG_RING_SIZE"

lemma ring_pos: "0 < KLOG_RING_SIZE"
  by (simp add: KLOG_RING_SIZE_def)

lemma ring_inv_ins: "ring_inv s \<Longrightarrow> ring_inv (ring_ins e s)"
  by (auto simp: ring_inv_def ring_ins_def ring_pos)

text \<open>The index arithmetic: the i-th visited slot lies \<open>N - c + i\<close> steps after the head.\<close>

lemma ring_index: "c \<le> N \<Longrightarrow> (((h + N - c) mod N) + i) mod N = (h + (N - c + i)) mod (N :: nat)"
  by (simp add: mod_add_left_eq add.assoc)

lemma ring_index_ne: "h < N \<Longrightarrow> 0 < k \<Longrightarrow> k < N \<Longrightarrow> (h + k) mod N \<noteq> (h :: nat)"
  by (auto simp: mod_if)

lemma ring_index_step:
  assumes "c < N"
  shows "((h + 1) mod N + (N - (c + 1) + i)) mod N = (h + (N - c + i)) mod (N :: nat)"
proof -
  have "(h + 1) + (N - (c + 1) + i) = h + (N - c + i)" using assms by simp
  then show ?thesis by (metis mod_add_left_eq)
qed

lemma snap_entries_nth:
  assumes "ring_inv s" and "i < kl_count s"
  shows "snap_entries s ! i = kl_ring s ! ((kl_head s + (KLOG_RING_SIZE - kl_count s + i)) mod KLOG_RING_SIZE)"
  using assms by (simp add: snap_entries_def Let_def ring_inv_def ring_index)

lemma length_snap_entries [simp]: "length (snap_entries s) = kl_count s"
  by (simp add: snap_entries_def Let_def)

lemma snap_entries_ins:
  assumes "ring_inv s"
  shows "snap_entries (ring_ins e s) = last_n KLOG_RING_SIZE (snap_entries s @ [e])"
proof -
  let ?N = KLOG_RING_SIZE and ?h = "kl_head s" and ?c = "kl_count s"
  note inv = assms[unfolded ring_inv_def] and inv' = ring_inv_ins[OF assms, of e]
  have slot: "kl_ring (ring_ins e s) ! ((?h + k) mod ?N) = (if k mod ?N = 0 then e else kl_ring s ! ((?h + k) mod ?N))"
    if "k < ?N \<or> k = ?N" for k
    using inv that ring_index_ne[of ?h ?N k] by (cases "k = 0 \<or> k = ?N") (auto simp: ring_ins_def ring_pos)
  show ?thesis
  proof (cases "?c < ?N")
    case True
    have cnt: "kl_count (ring_ins e s) = ?c + 1" and hd: "kl_head (ring_ins e s) = (?h + 1) mod ?N"
      using True by (simp_all add: ring_ins_def)
    have "snap_entries (ring_ins e s) ! i = (snap_entries s @ [e]) ! i" if i: "i < ?c + 1" for i
    proof -
      have "snap_entries (ring_ins e s) ! i = kl_ring (ring_ins e s) ! ((?h + (?N - ?c + i)) mod ?N)"
        using snap_entries_nth[OF inv', of i, unfolded cnt hd ring_index_step[OF True]] i by blast
      moreover have "?N - ?c + i < ?N \<or> ?N - ?c + i = ?N" using i True by auto
      ultimately show ?thesis
        using slot[of "?N - ?c + i"] i True snap_entries_nth[OF assms, of i]
        by (cases "i = ?c") (auto simp: nth_append)
    qed
    then have "snap_entries (ring_ins e s) = snap_entries s @ [e]"
      using cnt by (intro nth_equalityI) auto
    then show ?thesis using True by (simp add: last_n_def)
  next
    case False
    then have c: "?c = ?N" using inv by simp
    have cnt: "kl_count (ring_ins e s) = ?N" using c by (simp add: ring_ins_def)
    have "snap_entries (ring_ins e s) ! i = (snap_entries s @ [e]) ! (i + 1)" if i: "i < ?N" for i
    proof -
      have "snap_entries (ring_ins e s) ! i = kl_ring (ring_ins e s) ! ((?h + (i + 1)) mod ?N)"
        using snap_entries_nth[OF inv', of i] cnt i
        by (simp add: ring_ins_def mod_add_left_eq add.assoc)
      then show ?thesis
        using slot[of "i + 1", OF disjCI] i c snap_entries_nth[OF assms, of "i + 1"]
        by (cases "i + 1 = ?N") (auto simp: nth_append)
    qed
    then show ?thesis
      using cnt c by (intro nth_equalityI) (auto simp: last_n_def nth_append)
  qed
qed

interpretation ring: bounded_log ring_inv snap_entries ring_ins id KLOG_RING_SIZE
  by unfold_locales (simp_all add: ring_pos ring_inv_ins snap_entries_ins)

section \<open>Sequence numbers\<close>

definition klog_inv :: "klog \<Rightarrow> bool" where
  "klog_inv s \<longleftrightarrow> ring_inv s \<and> kl_count s \<le> unat (kl_global_seq s) \<and> kl_file_seq s \<le> kl_global_seq s \<and>
     (\<forall>i < kl_count s. unat (ke_seq (snap_entries s ! i)) = unat (kl_global_seq s) - kl_count s + 1 + i)"

definition new_entries :: "klog \<Rightarrow> klog_entry list" where
  "new_entries s = filter (\<lambda>e. ke_seq e > kl_file_seq s) (snap_entries s)"

abbreviation file_line :: "klog_entry \<Rightarrow> string" where
  "file_line e \<equiv> fmt_entry_file 320 e @ [CHR 0x0a]"

text \<open>Keeping the entries above a mark in a list numbered without gaps is dropping a prefix.\<close>

lemma filter_consecutive:
  fixes k :: "'a \<Rightarrow> nat"
  assumes "\<And>i. i < length xs \<Longrightarrow> k (xs ! i) = b + i"
  shows "filter (\<lambda>x. m < k x) xs = drop (m + 1 - b) xs"
  using assms
proof (induction xs arbitrary: b)
  case (Cons x xs)
  have "k (xs ! i) = Suc b + i" if "i < length xs" for i
    using Cons.prems[of "Suc i"] that by simp
  then have "filter (\<lambda>x. m < k x) xs = drop (m + 1 - Suc b) xs" by (rule Cons.IH)
  moreover have "k x = b" using Cons.prems[of 0] by simp
  ultimately show ?case by (cases "m < b") (auto simp: Suc_diff_le not_less)
qed simp

lemma new_entries_drop:
  assumes "klog_inv s"
  shows "new_entries s = drop (unat (kl_file_seq s) + 1 - (unat (kl_global_seq s) - kl_count s + 1)) (snap_entries s)"
  unfolding new_entries_def word_less_nat_alt
  by (rule filter_consecutive) (use assms in \<open>simp add: klog_inv_def\<close>)

lemma new_entries_seqs:
  assumes "klog_inv s"
  shows "map (unat \<circ> ke_seq) (new_entries s) =
    [max (unat (kl_file_seq s)) (unat (kl_global_seq s) - kl_count s) + 1 ..< unat (kl_global_seq s) + 1]"
proof -
  let ?g = "unat (kl_global_seq s)" and ?f = "unat (kl_file_seq s)" and ?c = "kl_count s"
  have le: "?c \<le> ?g" "?f \<le> ?g" using assms by (simp_all add: klog_inv_def word_le_nat_alt)
  have "map (unat \<circ> ke_seq) (snap_entries s) = [?g - ?c + 1 ..< ?g + 1]"
    using assms le by (intro nth_equalityI) (simp_all add: klog_inv_def del: upt_Suc)
  then have "map (unat \<circ> ke_seq) (new_entries s) = drop (?f + 1 - (?g - ?c + 1)) [?g - ?c + 1 ..< ?g + 1]"
    by (simp only: new_entries_drop[OF assms] drop_map[symmetric])
  also have "\<dots> = [max ?f (?g - ?c) + 1 ..< ?g + 1]" by (simp add: max_def del: upt_Suc)
  finally show ?thesis .
qed

lemma fold_max_consecutive:
  assumes "map (unat \<circ> ke_seq) es = [a ..< b + 1]" and "es \<noteq> []" and "unat m < a"
  shows "unat (fold (\<lambda>e m. if ke_seq e > m then ke_seq e else m) es m) = b"
  using assms
proof (induction es arbitrary: a m)
  case (Cons e es)
  have ab: "a \<le> b" using Cons.prems(1) by (cases "a \<le> b") auto
  then have e: "unat (ke_seq e) = a" and t: "map (unat \<circ> ke_seq) es = [Suc a ..< b + 1]"
    using Cons.prems(1) by (simp_all add: upt_conv_Cons comp_def del: upt_Suc)
  have m: "ke_seq e > m" using e Cons.prems(3) by (simp add: word_less_nat_alt)
  show ?case
  proof (cases "es = []")
    case True
    with t ab have "a = b" by (cases "a < b") (auto simp: upt_conv_Cons simp del: upt_Suc)
    with True m e show ?thesis by simp
  next
    case False
    with Cons.IH[OF t False, of "ke_seq e"] e m show ?thesis by simp
  qed
qed simp

lemma klog_inv_put:
  assumes "klog_inv s" and "unat (kl_global_seq s) < 2 ^ 64 - 1"
  shows "klog_inv (ring_put ts level fac msg s)"
proof -
  let ?s = "ring_put ts level fac msg s" and ?g = "unat (kl_global_seq s)"
  let ?e = "\<lparr>ke_ts = ts, ke_seq = kl_global_seq s + 1, ke_level = level, ke_facility = fac, ke_msg = msg\<rparr>"
  let ?t = "s\<lparr>kl_global_seq := kl_global_seq s + 1\<rparr>"
  have g: "unat (kl_global_seq s + 1) = ?g + 1" using assms(2) by (simp add: unat_word_ariths)
  have r: "ring_inv ?t" "snap_entries ?t = snap_entries s"
    using assms(1) by (simp_all add: klog_inv_def ring_inv_def snap_entries_def)
  have p: "?s = ring_ins ?e ?t" by (simp add: ring_put_def Let_def)
  have c: "kl_count ?s = min (kl_count s + 1) KLOG_RING_SIZE" "kl_global_seq ?s = kl_global_seq s + 1" "kl_file_seq ?s = kl_file_seq s"
    using r(1) by (auto simp: p ring_ins_def ring_inv_def)
  have snap: "snap_entries ?s = last_n KLOG_RING_SIZE (snap_entries s @ [?e])"
    using snap_entries_ins[OF r(1)] r(2) by (simp add: p)
  have le: "kl_count s \<le> ?g" "kl_count s \<le> KLOG_RING_SIZE" and sq: "\<And>i. i < kl_count s \<Longrightarrow>
      unat (ke_seq (snap_entries s ! i)) = ?g - kl_count s + 1 + i"
    using assms(1) by (simp_all add: klog_inv_def ring_inv_def)
  have all: "unat (ke_seq ((snap_entries s @ [?e]) ! i)) = ?g - kl_count s + 1 + i" if "i < kl_count s + 1" for i
    using that sq[of i] le g by (auto simp: nth_append less_Suc_eq)
  have "unat (ke_seq (snap_entries ?s ! i)) = unat (kl_global_seq ?s) - kl_count ?s + 1 + i" if "i < kl_count ?s" for i
  proof -
    have i: "i + (kl_count s + 1 - KLOG_RING_SIZE) < kl_count s + 1" using that by (auto simp: c)
    have "snap_entries ?s ! i = (snap_entries s @ [?e]) ! (i + (kl_count s + 1 - KLOG_RING_SIZE))"
      unfolding snap last_n_def by (subst nth_drop) (simp_all add: add.commute)
    then show ?thesis using all[OF i] g le by (auto simp: c min_def)
  qed
  moreover have "ring_inv ?s" using ring_inv_ins[OF r(1)] by (simp add: p)
  moreover have "kl_file_seq ?s \<le> kl_global_seq ?s"
    using assms(1) g by (simp add: c klog_inv_def word_le_nat_alt)
  ultimately show ?thesis using le g by (auto simp: klog_inv_def c)
qed

section \<open>Flushing\<close>

text \<open>The invariant does not depend on the outputs and the console level.\<close>

lemma klog_inv_outputs [simp]:
  "klog_inv (s\<lparr>kl_console := c\<rparr>) = klog_inv s" "klog_inv (s\<lparr>kl_sent := m\<rparr>) = klog_inv s"
  "klog_inv (s\<lparr>kl_console_level := l\<rparr>) = klog_inv s" "klog_inv (s\<lparr>kl_path := p\<rparr>) = klog_inv s"
  "klog_inv (s\<lparr>kl_syslogd := b\<rparr>) = klog_inv s"
  by (simp_all add: klog_inv_def ring_inv_def snap_entries_def)

lemma new_entries_mark:
  assumes "klog_inv s" and "new_entries s \<noteq> []"
  shows "kl_file_seq s < kl_global_seq s"
proof (rule ccontr)
  assume "\<not> kl_file_seq s < kl_global_seq s"
  then have "map (unat \<circ> ke_seq) (new_entries s) = []"
    unfolding new_entries_seqs[OF assms(1)] by (simp add: word_less_nat_alt)
  with assms(2) show False by simp
qed

lemma new_max:
  assumes "klog_inv s" and "new_entries s \<noteq> []"
  shows "fold (\<lambda>e m. if ke_seq e > m then ke_seq e else m) (new_entries s) (kl_file_seq s) = kl_global_seq s"
  using fold_max_consecutive[OF new_entries_seqs[OF assms(1)] assms(2), of "kl_file_seq s"]
  by (simp add: word_unat_eq_iff less_Suc_eq_le)

text \<open>What other threads do while the file is written: they add entries, below the flush level.\<close>

definition puts :: "(u64 \<times> int \<times> int \<times> string) list \<Rightarrow> klog \<Rightarrow> klog" where
  "puts ws s = fold (\<lambda>(ts, l, f, m). ring_put ts l f m) ws s"

lemma ring_put_frame [simp]:
  "kl_file (ring_put ts l f m s) = kl_file s" "kl_file_seq (ring_put ts l f m s) = kl_file_seq s"
  "kl_global_seq (ring_put ts l f m s) = kl_global_seq s + 1" "kl_syslogd (ring_put ts l f m s) = kl_syslogd s"
  "kl_console (ring_put ts l f m s) = kl_console s"
  by (simp_all add: ring_put_def ring_ins_def Let_def)

lemma puts_facts:
  assumes "klog_inv s" and "unat (kl_global_seq s) + length ws < 2 ^ 64"
  shows "klog_inv (puts ws s) \<and> kl_file (puts ws s) = kl_file s \<and> kl_file_seq (puts ws s) = kl_file_seq s \<and>
    unat (kl_global_seq (puts ws s)) = unat (kl_global_seq s) + length ws"
  using assms
proof (induction ws arbitrary: s)
  case Nil
  then show ?case by (simp add: puts_def)
next
  case (Cons w ws)
  obtain ts l f m where w: "w = (ts, l, f, m)" by (cases w)
  have g: "unat (kl_global_seq s + 1) = unat (kl_global_seq s) + 1"
    using Cons.prems(2) by (simp add: unat_word_ariths)
  from Cons.IH[of "ring_put ts l f m s"] klog_inv_put[OF Cons.prems(1), of ts l f m] Cons.prems(2) g
  show ?case by (simp add: puts_def w)
qed

lemma klog_flush_eq:
  assumes "klog_inv s" and "\<not> kl_syslogd s" and "unat (kl_global_seq s) + length ws < 2 ^ 64"
  shows "klog_flush True (puts ws) s =
    (if new_entries s = [] then puts ws s
     else (puts ws s)\<lparr>kl_file := kl_file s @ map file_line (new_entries s), kl_file_seq := kl_global_seq s\<rparr>)"
proof (cases "new_entries s = []")
  case True
  then show ?thesis using assms(2) by (simp add: klog_flush_def Let_def new_entries_def)
next
  case False
  note p = puts_facts[OF assms(1,3)]
  have "kl_global_seq s > kl_file_seq s" by (rule new_entries_mark[OF assms(1) False])
  then show ?thesis
    using False assms(2) p new_max[OF assms(1) False]
    by (simp add: klog_flush_def Let_def new_entries_def[symmetric])
qed

lemma klog_inv_flush:
  assumes "klog_inv s" and "unat (kl_global_seq s) + length ws < 2 ^ 64"
  shows "klog_inv (klog_flush ok (puts ws) s) \<and>
    unat (kl_global_seq (klog_flush ok (puts ws) s)) \<le> unat (kl_global_seq s) + length ws"
proof -
  note p = puts_facts[OF assms]
  show ?thesis
  proof (cases "kl_syslogd s")
    case True
    then show ?thesis using assms(1) by (simp add: klog_flush_def)
  next
    case sys: False
    show ?thesis
    proof (cases "ok \<and> new_entries s \<noteq> []")
      case True
      then have e: "klog_flush ok (puts ws) s = (puts ws s)\<lparr>kl_file := kl_file s @ map file_line (new_entries s),
          kl_file_seq := kl_global_seq s\<rparr>"
        using klog_flush_eq[OF assms(1) sys assms(2)] by simp
      have "kl_global_seq s \<le> kl_global_seq (puts ws s)" using p by (simp add: word_le_nat_alt)
      then show ?thesis using p unfolding e by (simp add: klog_inv_def ring_inv_def snap_entries_def)
    next
      case False
      then have "klog_flush ok (puts ws) s = puts ws s"
        using sys by (auto simp: klog_flush_def Let_def new_entries_def)
      then show ?thesis using p by simp
    qed
  qed
qed

lemma puts_Nil: "puts [] = id"
  by (rule ext) (simp add: puts_def)

lemma klog_inv_write:
  assumes "klog_inv s" and "unat (kl_global_seq s) < 2 ^ 64 - 1"
  shows "klog_inv (klog_write ok ts level fac str s) \<and>
    unat (kl_global_seq (klog_write ok ts level fac str s)) = unat (kl_global_seq s) + 1"
proof -
  define s1 where "s1 = ring_put ts level fac (klog_msg str) s"
  have i: "klog_inv (s1\<lparr>kl_console := c\<rparr>)" "klog_inv (s1\<lparr>kl_sent := m\<rparr>)" "klog_inv (s1\<lparr>kl_console := c, kl_sent := m\<rparr>)" "klog_inv s1" for c m
    using klog_inv_put[OF assms] by (simp_all add: s1_def)
  have g: "unat (kl_global_seq s1) = unat (kl_global_seq s) + 1" using assms(2) by (simp add: s1_def unat_word_ariths)
  have f: "kl_global_seq (klog_flush ok id t) = kl_global_seq t" for t by (simp add: klog_flush_def Let_def)
  have k: "klog_inv (klog_flush ok id t)" if "klog_inv t" "kl_global_seq t = kl_global_seq s1" for t
    using klog_inv_flush[OF that(1), of "[]" ok] unsigned_less[of "kl_global_seq t", where 'a = nat]
    by (simp add: puts_Nil)
  show ?thesis
    unfolding klog_write_def Let_def s1_def[symmetric] using i g k by (auto simp: f)
qed

section \<open>Writing is appending to the bounded log\<close>

type_synonym log_call = "bool \<times> u64 \<times> int \<times> int \<times> string"

definition do_write :: "log_call \<Rightarrow> klog \<Rightarrow> klog" where
  "do_write c s = (case c of (ok, ts, level, fac, str) \<Rightarrow> klog_write ok ts level fac str s)"

definition call_entry :: "log_call \<Rightarrow> u64 \<times> int \<times> int \<times> string" where
  "call_entry c = (case c of (ok, ts, level, fac, str) \<Rightarrow> (ts, level, fac, klog_msg str))"

text \<open>The ring's entries without their sequence numbers.\<close>

definition logged :: "klog \<Rightarrow> (u64 \<times> int \<times> int \<times> string) list" where
  "logged s = map (\<lambda>e. (ke_ts e, ke_level e, ke_facility e, ke_msg e)) (snap_entries s)"

lemma klog_flush_ring:
  "kl_ring (klog_flush ok id s) = kl_ring s" "kl_head (klog_flush ok id s) = kl_head s"
  "kl_count (klog_flush ok id s) = kl_count s"
  by (simp_all add: klog_flush_def Let_def)

lemma klog_write_ring:
  "kl_ring (klog_write ok ts level fac str s) = kl_ring (ring_put ts level fac (klog_msg str) s)"
  "kl_head (klog_write ok ts level fac str s) = kl_head (ring_put ts level fac (klog_msg str) s)"
  "kl_count (klog_write ok ts level fac str s) = kl_count (ring_put ts level fac (klog_msg str) s)"
  by (simp_all add: klog_write_def Let_def klog_flush_ring)

lemma last_n_map: "last_n n (map f xs) = map f (last_n n xs)"
  by (simp add: last_n_def drop_map)

interpretation written: bounded_log ring_inv logged do_write call_entry KLOG_RING_SIZE
proof (unfold_locales, rule ring_pos)
  fix c :: log_call and s assume i: "ring_inv s"
  obtain ok ts level fac str where c: "c = (ok, ts, level, fac, str)" by (cases c)
  let ?e = "\<lparr>ke_ts = ts, ke_seq = kl_global_seq s + 1, ke_level = level, ke_facility = fac, ke_msg = klog_msg str\<rparr>"
  let ?t = "s\<lparr>kl_global_seq := kl_global_seq s + 1\<rparr>"
  have t: "ring_put ts level fac (klog_msg str) s = ring_ins ?e ?t" by (simp add: ring_put_def Let_def)
  have it: "ring_inv ?t" "snap_entries ?t = snap_entries s" using i by (simp_all add: ring_inv_def snap_entries_def)
  show "ring_inv (do_write c s)"
    using ring_inv_ins[OF it(1), of ?e]
    by (simp add: do_write_def c ring_inv_def klog_write_ring t)
  have "snap_entries (do_write c s) = snap_entries (ring_ins ?e ?t)"
    unfolding do_write_def c by (simp add: snap_entries_def klog_write_ring t)
  then show "logged (do_write c s) = last_n KLOG_RING_SIZE (logged s @ [call_entry c])"
    using snap_entries_ins[OF it(1), of ?e] it(2)
    by (simp add: logged_def call_entry_def c last_n_map[symmetric])
qed

lemma klog_inv_boot: "klog_inv klog_boot"
  by (simp add: klog_inv_def klog_boot_def ring_inv_def ring_pos)

section \<open>Sequences of operations\<close>

datatype klog_op = Write bool u64 int int string | Flush bool | Dump int | Clear | Set_level int

fun klog_do :: "klog_op \<Rightarrow> klog \<Rightarrow> klog" where
  "klog_do (Write ok ts level fac str) s = klog_write ok ts level fac str s"
| "klog_do (Flush ok) s = klog_flush ok id s"
| "klog_do (Dump level) s = klog_dump level s"
| "klog_do Clear s = klog_clear s"
| "klog_do (Set_level level) s = klog_set_console_level level s"

text \<open>The file holds lines of entries with increasing numbers up to the recorded mark.\<close>

definition file_ok :: "klog \<Rightarrow> bool" where
  "file_ok s \<longleftrightarrow> (\<exists>es. kl_file s = map file_line es \<and> sorted_wrt (<) (map ke_seq es) \<and>
     (\<forall>e \<in> set es. ke_seq e \<le> kl_file_seq s))"

lemma klog_flush_id:
  assumes "klog_inv s"
  shows "klog_flush ok id s =
    (if kl_syslogd s \<or> new_entries s = [] \<or> \<not> ok then s
     else s\<lparr>kl_file := kl_file s @ map file_line (new_entries s), kl_file_seq := kl_global_seq s\<rparr>)"
proof -
  have "klog_flush True id s =
    (if new_entries s = [] then s
     else s\<lparr>kl_file := kl_file s @ map file_line (new_entries s), kl_file_seq := kl_global_seq s\<rparr>)" if "\<not> kl_syslogd s"
    using klog_flush_eq[OF assms that, of "[]"] unsigned_less[of "kl_global_seq s", where 'a = nat]
    by (simp add: puts_Nil)
  moreover have "klog_flush ok id s = s" if "kl_syslogd s \<or> \<not> ok"
    using that by (auto simp: klog_flush_def Let_def)
  ultimately show ?thesis by (cases "kl_syslogd s"; cases ok) simp_all
qed

lemma new_entries_sorted:
  assumes "klog_inv s"
  shows "sorted_wrt (<) (map ke_seq (new_entries s))" "\<forall>e \<in> set (new_entries s). kl_file_seq s < ke_seq e \<and> ke_seq e \<le> kl_global_seq s"
proof -
  have "sorted_wrt (<) (map (unat \<circ> ke_seq) (new_entries s))"
    unfolding new_entries_seqs[OF assms] by (rule sorted_wrt_upt)
  then show "sorted_wrt (<) (map ke_seq (new_entries s))"
    by (simp add: sorted_wrt_map word_less_nat_alt)
  show "\<forall>e \<in> set (new_entries s). kl_file_seq s < ke_seq e \<and> ke_seq e \<le> kl_global_seq s"
  proof
    fix e assume "e \<in> set (new_entries s)"
    then have "unat (ke_seq e) \<in> set (map (unat \<circ> ke_seq) (new_entries s))" by simp
    then show "kl_file_seq s < ke_seq e \<and> ke_seq e \<le> kl_global_seq s"
      unfolding new_entries_seqs[OF assms] by (auto simp: word_less_nat_alt word_le_nat_alt Suc_le_eq simp del: upt_Suc)
  qed
qed

lemma file_ok_flush:
  assumes "klog_inv s" and "file_ok s"
  shows "file_ok (klog_flush ok id s)"
proof (cases "kl_syslogd s \<or> new_entries s = [] \<or> \<not> ok")
  case True
  then show ?thesis using assms by (simp add: klog_flush_id)
next
  case False
  from assms(2) obtain es where es: "kl_file s = map file_line es" "sorted_wrt (<) (map ke_seq es)"
    "\<forall>e \<in> set es. ke_seq e \<le> kl_file_seq s" by (auto simp: file_ok_def)
  note n = new_entries_sorted[OF assms(1)]
  have m: "kl_file_seq s \<le> kl_global_seq s" using assms(1) by (simp add: klog_inv_def)
  have "ke_seq e < ke_seq e'" if "e \<in> set es" "e' \<in> set (new_entries s)" for e e'
    using that es(3) n(2) by (meson order_le_less_trans)
  then have "sorted_wrt (<) (map ke_seq (es @ new_entries s))"
    using es(2) n(1) by (auto simp: sorted_wrt_append)
  moreover have "\<forall>e \<in> set (es @ new_entries s). ke_seq e \<le> kl_global_seq s"
    using es(3) n(2) m by (auto intro: order_trans)
  ultimately show ?thesis
    using False es(1) by (auto simp: klog_flush_id[OF assms(1)] file_ok_def intro!: exI[of _ "es @ new_entries s"])
qed

lemma file_ok_outputs [simp]:
  "file_ok (s\<lparr>kl_console := c\<rparr>) = file_ok s" "file_ok (s\<lparr>kl_sent := m\<rparr>) = file_ok s"
  "file_ok (s\<lparr>kl_console_level := l\<rparr>) = file_ok s" "file_ok (ring_put ts level fac msg s) = file_ok s"
  by (simp_all add: file_ok_def)

lemma file_ok_write:
  assumes "klog_inv s" and "file_ok s" and "unat (kl_global_seq s) < 2 ^ 64 - 1"
  shows "file_ok (klog_write ok ts level fac str s)"
proof -
  define s1 where "s1 = ring_put ts level fac (klog_msg str) s"
  have f: "file_ok (s1\<lparr>kl_console := c\<rparr>)" "file_ok (s1\<lparr>kl_sent := m\<rparr>)" "file_ok (s1\<lparr>kl_console := c, kl_sent := m\<rparr>)" "file_ok s1" for c m
    using assms(2) by (simp_all add: s1_def)
  have i: "klog_inv (s1\<lparr>kl_console := c\<rparr>)" "klog_inv s1" for c
    using klog_inv_put[OF assms(1,3)] by (simp_all add: s1_def)
  show ?thesis
    unfolding klog_write_def Let_def s1_def[symmetric] using f i by (auto intro: file_ok_flush)
qed

lemma klog_do_ok:
  assumes "klog_inv s" and "file_ok s" and "unat (kl_global_seq s) < 2 ^ 64 - 1"
  shows "klog_inv (klog_do op s) \<and> file_ok (klog_do op s) \<and>
    unat (kl_global_seq (klog_do op s)) \<le> unat (kl_global_seq s) + 1"
proof (cases op)
  case (Write ok ts level fac str)
  then show ?thesis using klog_inv_write[OF assms(1,3)] file_ok_write[OF assms] by simp
next
  case (Flush ok)
  then show ?thesis
    using klog_inv_flush[OF assms(1), of "[]" ok] assms(3) file_ok_flush[OF assms(1,2)] by (simp add: puts_Nil)
next
  case (Dump level)
  then show ?thesis
    using assms(1,2) by (simp add: klog_dump_def Let_def)
next
  case Clear
  then show ?thesis
    using assms(1,2) by (simp add: klog_clear_def klog_inv_def ring_inv_def ring_pos file_ok_def)
next
  case (Set_level level)
  then show ?thesis
    using assms(1,2) by (simp add: klog_set_console_level_def)
qed

lemma klog_ops_ok:
  assumes "klog_inv s" and "file_ok s" and "unat (kl_global_seq s) + length ops < 2 ^ 64"
  shows "klog_inv (fold klog_do ops s) \<and> file_ok (fold klog_do ops s)"
  using assms
proof (induction ops arbitrary: s)
  case (Cons op ops)
  have "unat (kl_global_seq s) < 2 ^ 64 - 1" using Cons.prems(3) by simp
  from klog_do_ok[OF Cons.prems(1,2) this, of op] Cons.prems(3) Cons.IH[of "klog_do op s"]
  show ?case by simp
qed simp

section \<open>Properties of the log\<close>

text \<open>
  C7: whatever is logged, the ring holds the last 256 entries written, oldest first, with the
  time, level, facility and (truncated) text each caller gave; a reader of the ring visits exactly
  these in this order.
\<close>

theorem klog_keeps_last_entries:
  assumes "calls \<noteq> []"
  shows "logged (fold do_write calls klog_boot) = last_n KLOG_RING_SIZE (map call_entry calls)"
proof -
  have "ring_inv klog_boot" using klog_inv_boot by (simp add: klog_inv_def)
  from written.fold_put[OF this, of calls] assms show ?thesis
    by (simp add: logged_def snap_entries_def klog_boot_def)
qed

theorem klog_keeps_last_entries_witness:
  "logged (fold do_write (replicate 300 (False, 7, 6, 1, ''up'')) klog_boot) = replicate 256 (7, 6, 1, ''up'')"
proof -
  have "klog_msg ''up'' = ''up''" by (simp add: klog_msg_def Let_def snprintf_buf_def cstr_def)
  then show ?thesis
    using klog_keeps_last_entries[of "replicate 300 (False, 7, 6, 1, ''up'')"]
    by (simp add: last_n_def call_entry_def KLOG_RING_SIZE_def)
qed





end
