(* ===== verification/Syslogd.thy ===== *)
theory Syslogd
  imports Klog
begin

text \<open>
  The log daemon, \<^verbatim>\<open>pkg/syslogd/server/src/main.cc\<close>: it formats the messages of all processes
  and appends them to one file. \<open>sl_disk\<close> is what has reached the file, \<open>sl_buf\<close> what still
  sits in the buffer of the open \<^verbatim>\<open>FILE\<close>. The results of the \<^verbatim>\<open>fopen\<close> calls of one request and
  the amount the C library chooses to write out early are arguments of the handler.
\<close>

section \<open>Formatting\<close>

definition sys_level_str :: "int \<Rightarrow> string" where
  "sys_level_str lvl =
     (if 0 \<le> lvl \<and> lvl \<le> 7
      then [''EMERG'', ''ALERT'', ''CRIT '', ''ERR  '', ''WARN '', ''NOTE '', ''INFO '', ''DEBUG''] ! nat lvl
      else ''?    '')"

definition sys_fac_str :: "int \<Rightarrow> string" where
  "sys_fac_str fac =
     (if 0 \<le> fac \<and> fac \<le> 7
      then [''kern '', ''shell'', ''net  '', ''fs   '', ''blk  '', ''rtc  '', ''user '', ''disp ''] ! nat fac
      else ''user '')"

text \<open>The full text of \<^verbatim>\<open>[%5llu.%06llu] %s %s: %.*s\n\<close>; its length is what \<^verbatim>\<open>snprintf\<close> returns.\<close>

definition sys_line :: "u64 \<Rightarrow> u8 \<Rightarrow> u8 \<Rightarrow> string \<Rightarrow> string" where
  "sys_line ts level facility msg =
     ''['' @ pad_left (CHR '' '') 5 (show_nat (unat ts div 1000000)) @ ''.'' @
     pad_left (CHR ''0'') 6 (show_nat (unat ts mod 1000000)) @ ''] '' @
     sys_level_str (uint level) @ '' '' @ sys_fac_str (uint facility) @ '': '' @ cstr msg @ [CHR 0x0a]"

section \<open>The server\<close>

record syslogd =
  sl_open :: bool
  sl_written :: u32
  sl_buf :: string
  sl_disk :: string

definition syslogd_init :: "string \<Rightarrow> syslogd" where
  "syslogd_init disk = \<lparr>sl_open = False, sl_written = 0, sl_buf = [], sl_disk = disk\<rparr>"

definition REOPEN_BYTES :: u32 where
  "REOPEN_BYTES = 3000"

definition sys_open_file :: "bool \<Rightarrow> syslogd \<Rightarrow> syslogd" where
  "sys_open_file fopen_ok s = s\<lparr>sl_open := fopen_ok\<rparr>"

text \<open>\<^verbatim>\<open>fclose\<close> writes the buffer out.\<close>

definition sys_fclose :: "syslogd \<Rightarrow> syslogd" where
  "sys_fclose s = s\<lparr>sl_disk := sl_disk s @ sl_buf s, sl_buf := [], sl_open := False\<rparr>"

definition sys_reopen :: "bool \<Rightarrow> syslogd \<Rightarrow> syslogd" where
  "sys_reopen fopen_ok s =
     sys_open_file fopen_ok ((if sl_open s then sys_fclose s else s)\<lparr>sl_written := 0\<rparr>)"

text \<open>\<^verbatim>\<open>fwrite\<close> adds to the buffer, of which the library writes out a prefix when it likes.\<close>

definition sys_fwrite :: "nat \<Rightarrow> string \<Rightarrow> syslogd \<Rightarrow> syslogd" where
  "sys_fwrite spill bs s =
     s\<lparr>sl_disk := sl_disk s @ take spill (sl_buf s @ bs), sl_buf := drop spill (sl_buf s @ bs)\<rparr>"

record fopen_results =
  fo_rotate :: bool
  fo_first :: bool
  fo_urgent :: bool

definition op_log :: "fopen_results \<Rightarrow> nat \<Rightarrow> u64 \<Rightarrow> u8 \<Rightarrow> u8 \<Rightarrow> string \<Rightarrow> syslogd \<Rightarrow> syslogd \<times> int" where
  "op_log fo spill ts level facility msg s =
     (let s1 = (if sl_written s \<ge> REOPEN_BYTES then sys_reopen (fo_rotate fo) s else s);
          s2 = (if \<not> sl_open s1 then sys_open_file (fo_first fo) s1 else s1)
      in if \<not> sl_open s2 then (s2, err EIO)
         else let line = sys_line ts level facility msg;
                  n = length line;
                  s3 = (if 0 < n \<and> n < 320
                        then (sys_fwrite spill line s2)\<lparr>sl_written := sl_written s2 + of_nat n\<rparr> else s2);
                  s4 = (if level \<le> 4 then sys_reopen (fo_urgent fo) s3 else s3)
           in (s4, 0))"

section \<open>Invariant\<close>

definition syslogd_inv :: "syslogd \<Rightarrow> bool" where
  "syslogd_inv s \<longleftrightarrow> length (sl_buf s) \<le> unat (sl_written s) \<and> unat (sl_written s) < 3320 \<and>
     (\<not> sl_open s \<longrightarrow> sl_buf s = [])"

text \<open>Everything logged, wherever it is.\<close>

definition sys_log :: "syslogd \<Rightarrow> string" where
  "sys_log s = sl_disk s @ sl_buf s"

lemma sys_reopen_facts:
  assumes "syslogd_inv s"
  shows "sl_buf (sys_reopen ok s) = []" "sl_written (sys_reopen ok s) = 0" "sl_open (sys_reopen ok s) = ok"
    "sys_log (sys_reopen ok s) = sys_log s" "syslogd_inv (sys_reopen ok s)"
  using assms by (auto simp: sys_reopen_def sys_open_file_def sys_fclose_def syslogd_inv_def sys_log_def)

lemma sys_open_file_facts:
  "sl_written (sys_open_file ok s) = sl_written s" "sl_open (sys_open_file ok s) = ok"
  "sys_log (sys_open_file ok s) = sys_log s" "sl_buf (sys_open_file ok s) = sl_buf s"
  by (simp_all add: sys_open_file_def sys_log_def)

lemma syslogd_inv_init: "syslogd_inv (syslogd_init d)"
  by (simp add: syslogd_inv_def syslogd_init_def)

text \<open>The state in which a line is written: the file is open and less than 3000 bytes are pending.\<close>

lemma op_log_ready:
  fixes fo :: fopen_results
  assumes "syslogd_inv s"
  defines "s1 \<equiv> (if sl_written s \<ge> REOPEN_BYTES then sys_reopen (fo_rotate fo) s else s)"
  defines "s2 \<equiv> (if \<not> sl_open s1 then sys_open_file (fo_first fo) s1 else s1)"
  shows "syslogd_inv s2" "unat (sl_written s2) < 3000" "sys_log s2 = sys_log s"
proof -
  have s1: "syslogd_inv s1" "unat (sl_written s1) < 3000" "sys_log s1 = sys_log s"
    using assms(1) sys_reopen_facts[OF assms(1)]
    by (auto simp: s1_def REOPEN_BYTES_def word_le_nat_alt not_le)
  then show "syslogd_inv s2" "unat (sl_written s2) < 3000" "sys_log s2 = sys_log s"
    by (auto simp: s2_def syslogd_inv_def sys_open_file_facts)
qed

lemma sys_write_facts:
  fixes spill :: nat
  assumes "syslogd_inv s" and "sl_open s" and "unat (sl_written s) < 3000" and "length l < 320"
  defines "t \<equiv> (sys_fwrite spill l s)\<lparr>sl_written := sl_written s + of_nat (length l)\<rparr>"
  shows "syslogd_inv t" "sys_log t = sys_log s @ l" "sl_open t"
proof -
  have "unat (sl_written s + of_nat (length l)) = unat (sl_written s) + length l"
    using assms(3,4) by (intro unat_add_of_nat) simp
  then show "syslogd_inv t" "sl_open t"
    using assms(1-4) by (auto simp: t_def syslogd_inv_def sys_fwrite_def)
  show "sys_log t = sys_log s @ l"
    by (simp add: t_def sys_log_def sys_fwrite_def del: take_append drop_append)
qed

section \<open>Properties of the daemon\<close>



lemma length_pad_left: "length (pad_left c w s) = max w (length s)"
  by (simp add: pad_left_def)

lemma nth_length: "i < length xs \<Longrightarrow> \<forall>x \<in> set xs. length x = n \<Longrightarrow> length (xs ! i) = n"
  by simp

lemma length_level_str: "length (level_str l) = 5" and length_fac_str: "length (fac_str f) = 5"
  unfolding level_str_def fac_str_def by (auto intro!: nth_length)

lemma sys_str_eq: "sys_level_str = level_str" "sys_fac_str = fac_str"
  by (simp_all add: fun_eq_iff sys_level_str_def level_str_def sys_fac_str_def fac_str_def)

lemma length_fmt_time: "length (fmt_time ts) \<le> 24"
proof -
  have "unat ts div 1000000 < 10 ^ 14" "unat ts mod 1000000 < 10 ^ 6"
    using unsigned_less[of ts, where 'a = nat] by (simp_all add: less_mult_imp_div_less)
  then have "length (show_nat (unat ts div 1000000)) \<le> 14" "length (show_nat (unat ts mod 1000000)) \<le> 6"
    using length_show_nat[of "unat ts div 1000000" 14] length_show_nat[of "unat ts mod 1000000" 6] by simp_all
  then show ?thesis by (simp add: fmt_time_def length_pad_left)
qed

lemma length_klog_msg: "length (klog_msg str) < 200"
  using length_cstr_le[of "snprintf_buf 200 str"] length_snprintf_buf[of 200 str]
  by (auto simp: klog_msg_def Let_def)

lemma NUL_klog_msg: "NUL \<notin> set (klog_msg str)"
  by (auto simp: klog_msg_def Let_def dest: in_set_butlastD)

text \<open>
  The two writers of the log file agree: for every message a process logs with a level and a
  facility that fit a byte, the line the daemon writes for it is, byte for byte, the line the
  process would have written itself with the library's own flush, it is never cut or dropped for
  length, and it is the message the caller's text gave after truncation to 199 bytes.
\<close>

lemma syslogd_writes_klog_line:
  assumes "0 \<le> level" and "level < 256" and "0 \<le> fac" and "fac < 256"
  shows "sys_line ts (word_of_int level) (word_of_int fac) (klog_msg str) =
      fmt_entry_file 320 \<lparr>ke_ts = ts, ke_seq = n, ke_level = level, ke_facility = fac, ke_msg = klog_msg str\<rparr> @ [CHR 0x0a] \<and>
    length (sys_line ts (word_of_int level) (word_of_int fac) (klog_msg str)) < 320"
proof -
  have u: "uint (word_of_int level :: u8) = level" "uint (word_of_int fac :: u8) = fac"
    using assms(1-4) by (simp_all add: unsigned_of_int take_bit_int_eq_self)
  define b where "b = fmt_time ts @ level_str level @ '' '' @ fac_str fac @ '': '' @ klog_msg str"
  have s: "sys_line ts (word_of_int level) (word_of_int fac) (klog_msg str) = b @ [CHR 0x0a]"
    by (simp add: sys_line_def b_def fmt_time_def u sys_str_eq cstr_id[OF NUL_klog_msg])
  have l: "length b < 319"
    using length_fmt_time[of ts] length_klog_msg[of str] by (simp add: b_def length_level_str length_fac_str)
  then have "fmt_entry_file 320 \<lparr>ke_ts = ts, ke_seq = n, ke_level = level, ke_facility = fac, ke_msg = klog_msg str\<rparr> = b"
    by (simp add: fmt_entry_file_def b_def snprintf_buf_fits)
  with s l show ?thesis by simp
qed

lemma syslogd_writes_klog_line_witness:
  "length (sys_line 1500000 (word_of_int 6) (word_of_int 2) (klog_msg (replicate 500 (CHR ''a'')))) < 320"
  using syslogd_writes_klog_line[of 6 2 1500000 "replicate 500 (CHR ''a'')"] by simp

end
