(* ===== verification/Tmpfs_Inode.thy ===== *)
theory Tmpfs_Inode
  imports Prelude
begin

text \<open>
  File contents of the in-memory file system, the classes \<^verbatim>\<open>Tmpfs_inode\<close> and \<^verbatim>\<open>Tmpfs_file\<close> of
  \<^verbatim>\<open>pkg/tmpfs/src/tmpfs.cc\<close>. An inode is its heap block with all its bytes (also the ones that
  were never written), its size and its capacity. Offsets are the signed 64-bit \<^verbatim>\<open>off64_t\<close> of
  the interface, as integers; the code narrows them to the 32-bit \<^verbatim>\<open>size_t\<close>, and so does the
  model. Whether \<^verbatim>\<open>realloc\<close> succeeds and what fresh memory contains are arguments. A write
  outside the block is a fault, the loop that doubles the capacity may never end.
\<close>

section \<open>Inodes\<close>

record inode =
  in_data :: string
  in_size :: size_t
  in_cap :: size_t

definition inode_new :: inode where
  "inode_new = \<lparr>in_data = [], in_size = 0, in_cap = 0\<rparr>"

text \<open>The heap: does a request of this size succeed, and which bytes come with it?\<close>

record heap =
  hp_realloc :: "size_t \<Rightarrow> bool"
  hp_junk :: "nat \<Rightarrow> char"

text \<open>\<^verbatim>\<open>while (ncap < need) ncap *= 2;\<close>\<close>

partial_function (option) grow :: "size_t \<Rightarrow> size_t \<Rightarrow> size_t option" where
  "grow need ncap = (if ncap < need then grow need (ncap * 2) else Some ncap)"

declare grow.simps [code]

definition ensure :: "heap \<Rightarrow> size_t \<Rightarrow> inode \<Rightarrow> (inode \<times> bool) outcome" where
  "ensure H need ino =
     (if need \<le> in_cap ino then Ret (ino, True)
      else case grow need (if in_cap ino \<noteq> 0 then in_cap ino else 64) of
             None \<Rightarrow> Stuck
           | Some ncap \<Rightarrow>
               if \<not> hp_realloc H ncap then Ret (ino, False)
               else Ret (ino\<lparr>in_data := take (unat ncap) (in_data ino) @
                             map (hp_junk H) [length (in_data ino)..<unat ncap], in_cap := ncap\<rparr>, True))"

definition inode_pread :: "inode \<Rightarrow> size_t \<Rightarrow> int \<Rightarrow> string outcome" where
  "inode_pread ino len off =
     (let o32 = word_of_int off :: size_t
      in if off < 0 \<or> o32 \<ge> in_size ino then Ret []
         else let avail = in_size ino - o32; n = (if len > avail then avail else len)
              in mem_get (in_data ino) (unat o32) (unat n))"

text \<open>The result is the inode and the returned count, or the negated error code.\<close>

definition inode_pwrite :: "heap \<Rightarrow> string \<Rightarrow> int \<Rightarrow> inode \<Rightarrow> (inode \<times> int) outcome" where
  "inode_pwrite H src off ino =
     (let o32 = word_of_int off :: size_t; len = of_nat (length src) :: size_t
      in if off < 0 then Ret (ino, err EINVAL)
         else if len = 0 then Ret (ino, 0)
         else obind (ensure H (o32 + len) ino) (\<lambda>(ino1, ok).
           if \<not> ok then Ret (ino1, err ENOSPC)
           else obind (if o32 > in_size ino1
                       then mem_put (in_data ino1) (unat (in_size ino1)) (replicate (unat (o32 - in_size ino1)) NUL)
                       else Ret (in_data ino1)) (\<lambda>d1.
                obind (mem_put d1 (unat o32) src) (\<lambda>d2.
                  Ret (ino1\<lparr>in_data := d2,
                            in_size := (if o32 + len > in_size ino1 then o32 + len else in_size ino1)\<rparr>,
                       sint len)))))"

definition inode_truncate :: "heap \<Rightarrow> int \<Rightarrow> inode \<Rightarrow> (inode \<times> int) outcome" where
  "inode_truncate H len ino =
     (let l32 = word_of_int len :: size_t
      in if len < 0 then Ret (ino, err EINVAL)
         else if l32 > in_size ino
         then obind (ensure H l32 ino) (\<lambda>(ino1, ok).
           if \<not> ok then Ret (ino1, err ENOSPC)
           else obind (mem_put (in_data ino1) (unat (in_size ino1)) (replicate (unat (l32 - in_size ino1)) NUL))
                  (\<lambda>d. Ret (ino1\<lparr>in_data := d, in_size := l32\<rparr>, 0)))
         else Ret (ino\<lparr>in_size := l32\<rparr>, 0))"

section \<open>Open files\<close>

text \<open>The buffers of a read are given by their lengths, the bytes read come back in order.\<close>

fun preadv_loop :: "inode \<Rightarrow> size_t list \<Rightarrow> int \<Rightarrow> string outcome" where
  "preadv_loop ino [] off = Ret []"
| "preadv_loop ino (n # ns) off =
     obind (inode_pread ino n off) (\<lambda>r.
       if r = [] then Ret []
       else if length r < unat n then Ret r
       else obind (preadv_loop ino ns (off + int (length r))) (\<lambda>rs. Ret (r @ rs)))"

definition file_preadv :: "inode \<Rightarrow> size_t list \<Rightarrow> int \<Rightarrow> string outcome" where
  "file_preadv ino iov off = preadv_loop ino iov off"

fun pwritev_loop :: "heap \<Rightarrow> string list \<Rightarrow> int \<Rightarrow> int \<Rightarrow> inode \<Rightarrow> (inode \<times> int) outcome" where
  "pwritev_loop H [] off tot ino = Ret (ino, tot)"
| "pwritev_loop H (b # bs) off tot ino =
     (if b = [] then pwritev_loop H bs off tot ino
      else obind (inode_pwrite H b off ino) (\<lambda>(ino1, r).
        if r < 0 then Ret (ino1, if tot \<noteq> 0 then tot else r)
        else if nat r < length b then Ret (ino1, tot + r)
        else pwritev_loop H bs (off + r) (tot + r) ino1))"

definition file_pwritev :: "heap \<Rightarrow> bool \<Rightarrow> string list \<Rightarrow> int \<Rightarrow> inode \<Rightarrow> (inode \<times> int) outcome" where
  "file_pwritev H app iov off ino =
     pwritev_loop H iov (if app then int (unat (in_size ino)) else off) 0 ino"

definition file_ftruncate :: "heap \<Rightarrow> int \<Rightarrow> inode \<Rightarrow> (inode \<times> int) outcome" where
  "file_ftruncate H len ino = inode_truncate H len ino"

text \<open>\<^verbatim>\<open>S_IFREG | 0644\<close> is 33188.\<close>

definition file_fstat :: "inode \<Rightarrow> stat_buf" where
  "file_fstat ino = stat_zero\<lparr>st_mode := 33188, st_size := int (unat (in_size ino)), st_blksize := 4096,
     st_blocks := (int (unat (in_size ino)) + 511) div 512\<rparr>"

section \<open>Invariant and contents\<close>

definition pow2_cap :: "size_t \<Rightarrow> bool" where
  "pow2_cap c \<longleftrightarrow> c = 0 \<or> (\<exists>k \<in> {6..31}. unat c = 2 ^ k)"

definition inode_inv :: "inode \<Rightarrow> bool" where
  "inode_inv ino \<longleftrightarrow> length (in_data ino) = unat (in_cap ino) \<and> in_size ino \<le> in_cap ino \<and> pow2_cap (in_cap ino)"

text \<open>What a reader of the file can see.\<close>

definition content :: "inode \<Rightarrow> string" where
  "content ino = take (unat (in_size ino)) (in_data ino)"

text \<open>The specification: writing at an offset, with a hole of zeros if it lies past the end.\<close>

definition posix_write :: "string \<Rightarrow> nat \<Rightarrow> string \<Rightarrow> string" where
  "posix_write c off bs = take off (c @ replicate (off - length c) NUL) @ bs @ drop (off + length bs) c"

definition posix_truncate :: "string \<Rightarrow> nat \<Rightarrow> string" where
  "posix_truncate c n = take n (c @ replicate (n - length c) NUL)"

lemma inode_inv_new: "inode_inv inode_new"
  by (simp add: inode_inv_def inode_new_def pow2_cap_def)

lemma length_content: "inode_inv ino \<Longrightarrow> length (content ino) = unat (in_size ino)"
  by (simp add: content_def inode_inv_def word_le_nat_alt min_def)

section \<open>Growing the block\<close>

lemma unat_double: "unat c = 2 ^ k \<Longrightarrow> k < 31 \<Longrightarrow> unat (c * 2 :: size_t) = 2 ^ Suc k"
proof -
  assume c: "unat c = 2 ^ k" and k: "k < 31"
  have "(2 :: nat) ^ Suc k \<le> 2 ^ 31" using k by (intro power_increasing) simp_all
  then show "unat (c * 2) = 2 ^ Suc k" using c by (simp add: unat_word_ariths)
qed

text \<open>The doubling loop ends when the request is at most 2 GiB, at the first power of two that is enough.\<close>

lemma grow_ends:
  assumes "unat c = 2 ^ k" and "k \<le> 31" and "unat need \<le> 2 ^ 31"
  shows "\<exists>j \<in> {k..31}. \<exists>n. grow need c = Some n \<and> unat n = 2 ^ j \<and> need \<le> n"
  using assms(1,2)
proof (induction "31 - k" arbitrary: c k)
  case 0
  then have "k = 31" by simp
  then show ?case using 0(2) assms(3) by (subst grow.simps) (auto simp: word_less_nat_alt word_le_nat_alt)
next
  case (Suc m)
  show ?case
  proof (cases "c < need")
    case True
    have k: "k < 31" "m = 31 - Suc k" using Suc(2) by simp_all
    with Suc(1)[of "Suc k" "c * 2"] unat_double[OF Suc(3)]
    obtain j n where "j \<in> {Suc k..31}" "grow need (c * 2) = Some n" "unat n = 2 ^ j" "need \<le> n" by auto
    with True show ?thesis by (subst grow.simps) auto
  next
    case False
    with Suc show ?thesis by (subst grow.simps) (auto simp: not_less)
  qed
qed

text \<open>For a larger request the capacity wraps to zero and the loop never ends.\<close>

lemma grow_Some:
  assumes "grow need c = Some n"
  shows "need \<le> n \<and> (\<exists>j. n = c * 2 ^ j)"
proof (rule grow.raw_induct[where P = "\<lambda>need c n. need \<le> n \<and> (\<exists>j. n = c * 2 ^ j)", OF _ assms])
  fix g :: "size_t \<Rightarrow> size_t \<Rightarrow> size_t option" and need c n
  assume IH: "\<And>need c n. g need c = Some n \<Longrightarrow> need \<le> n \<and> (\<exists>j. n = c * 2 ^ j)"
    and r: "(if c < need then g need (c * 2) else Some c) = Some n"
  show "need \<le> n \<and> (\<exists>j. n = c * 2 ^ j)"
  proof (cases "c < need")
    case True
    with r have "g need (c * 2) = Some n" by simp
    from IH[OF this] obtain j where "need \<le> n" "n = c * 2 * 2 ^ j" by auto
    then show ?thesis by (intro conjI exI[of _ "Suc j"]) (simp_all add: mult.assoc)
  next
    case False
    with r show ?thesis by (auto simp: not_less intro!: exI[of _ 0])
  qed
qed

lemma grow_diverges:
  assumes "unat c = 2 ^ k" and "2 ^ 31 < unat need"
  shows "grow need c = None"
proof (rule ccontr)
  assume "grow need c \<noteq> None"
  then obtain n where n: "grow need c = Some n" by auto
  from grow_Some[OF n] obtain j where j: "need \<le> n" "n = c * 2 ^ j" by auto
  have "unat (2 ^ j :: size_t) = 2 ^ j mod 2 ^ 32"
    using unsigned_of_nat[of "2 ^ j", where 'a = nat and 'b = 32] by (simp add: take_bit_eq_mod)
  then have "unat n = 2 ^ (k + j) mod 2 ^ 32"
    by (simp add: j(2) unat_word_ariths assms(1) power_add mod_mult_right_eq)
  moreover have "(2 :: nat) ^ (k + j) mod 2 ^ 32 \<le> 2 ^ 31"
  proof (cases "k + j \<le> 31")
    case True
    then have "(2 :: nat) ^ (k + j) \<le> 2 ^ 31" by (intro power_increasing) simp_all
    then show ?thesis by simp
  next
    case False
    then have "(2 :: nat) ^ 32 dvd 2 ^ (k + j)" by (intro le_imp_power_dvd) simp
    then show ?thesis by (simp add: dvd_eq_mod_eq_0)
  qed
  ultimately show False using j(1) assms(2) by (simp add: word_le_nat_alt)
qed

lemma ensure_spec:
  assumes "inode_inv ino" and "unat need \<le> 2 ^ 31"
  obtains (grown) ino1 where "ensure H need ino = Ret (ino1, True)" "inode_inv ino1" "need \<le> in_cap ino1"
      "in_size ino1 = in_size ino" "content ino1 = content ino" "\<exists>n. hp_realloc H n \<or> need \<le> in_cap ino"
  | (no_memory) n where "ensure H need ino = Ret (ino, False)" "\<not> hp_realloc H n" "in_cap ino < need" "need \<le> n"
proof (cases "need \<le> in_cap ino")
  case True
  then show thesis using grown[of ino] assms(1) by (simp add: ensure_def)
next
  case False
  define c where "c = (if in_cap ino \<noteq> 0 then in_cap ino else 64)"
  have "\<exists>k \<le> 31. 6 \<le> k \<and> unat c = 2 ^ k"
    using assms(1) by (cases "in_cap ino = 0") (auto simp: c_def inode_inv_def pow2_cap_def intro: exI[of _ 6])
  then obtain k where k: "6 \<le> k" "k \<le> 31" "unat c = 2 ^ k" by auto
  from grow_ends[OF k(3,2) assms(2)] obtain j n where j: "j \<in> {k..31}"
    and n: "grow need c = Some n" "unat n = 2 ^ j" "need \<le> n" by auto
  show thesis
  proof (cases "hp_realloc H n")
    case True
    define ino1 where "ino1 = ino\<lparr>in_data := take (unat n) (in_data ino) @ map (hp_junk H) [length (in_data ino)..<unat n], in_cap := n\<rparr>"
    have le: "unat (in_cap ino) \<le> unat n" using False n(3) by (simp add: word_le_nat_alt)
    have len: "length (in_data ino) = unat (in_cap ino)" "unat (in_size ino) \<le> unat (in_cap ino)"
      using assms(1) by (simp_all add: inode_inv_def word_le_nat_alt)
    have "pow2_cap n" using n(2) j k(1) by (auto simp: pow2_cap_def intro!: bexI[of _ j])
    then have "inode_inv ino1" using le len by (simp add: ino1_def inode_inv_def word_le_nat_alt)
    moreover have "ensure H need ino = Ret (ino1, True)"
      using False True n(1) by (simp add: ensure_def ino1_def c_def[symmetric])
    moreover have "content ino1 = content ino" using le len by (simp add: ino1_def content_def)
    ultimately show thesis using grown[of ino1] n(3) True by (auto simp: ino1_def)
  next
    case False
    then show thesis using no_memory[of n] \<open>\<not> need \<le> in_cap ino\<close> n(1,3)
      by (simp add: ensure_def c_def[symmetric] not_le)
  qed
qed

section \<open>Reading and writing\<close>

lemma posix_write_block:
  assumes "sz \<le> length d" and "off + length bs \<le> length d"
    and "d1 = (if sz < off then take sz d @ replicate (off - sz) NUL @ drop off d else d)"
  shows "take (max sz (off + length bs)) (take off d1 @ bs @ drop (off + length bs) d1) = posix_write (take sz d) off bs"
proof (cases "sz < off")
  case True
  then show ?thesis using assms by (simp add: posix_write_def max_def)
next
  case False
  moreover have "bs \<noteq> [] \<Longrightarrow> \<not> length d \<le> off" using assms(2) by (cases bs) auto
  ultimately show ?thesis using assms
    by (cases "sz \<le> off + length bs") (simp_all add: posix_write_def max_def min_def drop_take)
qed

lemma off32: "0 \<le> off \<Longrightarrow> off < 2 ^ 32 \<Longrightarrow> unat (word_of_int off :: size_t) = nat off"
  by (simp add: unsigned_of_int take_bit_int_eq_self)

lemma off_bound: "0 \<le> off \<Longrightarrow> nat off + n < 2 ^ 31 \<Longrightarrow> off + int n < 2 ^ 32"
  by (simp | arith)+

lemma pwrite_cases:
  assumes "inode_inv ino" and "0 \<le> off" and "src \<noteq> []" and "length src < 2 ^ 31" and "nat off + length src \<le> 2 ^ 31"
  obtains (written) ino1 where "inode_pwrite H src off ino = Ret (ino1, int (length src))" "inode_inv ino1"
      "content ino1 = posix_write (content ino) (nat off) src"
  | (no_space) n where "inode_pwrite H src off ino = Ret (ino, err ENOSPC)" "\<not> hp_realloc H n"
      "nat off + length src \<le> unat n" "unat (in_cap ino) < nat off + length src"
proof -
  define o32 :: size_t where "o32 = word_of_int off"
  define len :: size_t where "len = of_nat (length src)"
  have o: "unat o32 = nat off" using assms(2,5) by (simp add: o32_def off32)
  have l: "unat len = length src" using assms(4) by (simp add: len_def unsigned_of_nat take_bit_nat_eq_self_iff)
  have nz: "len \<noteq> 0" using l assms(3) by (metis length_0_conv unat_0)
  have need: "unat (o32 + len) = nat off + length src"
    using unat_add_of_nat[of o32 "length src"] o assms(5) by (simp add: len_def)
  have s: "sint len = int (length src)"
    using sint_small[of len] l assms(4) by simp
  from assms(1) have nd: "unat (o32 + len) \<le> 2 ^ 31" using need assms(5) by simp
  show thesis
  proof (cases rule: ensure_spec[OF assms(1) nd, of H, case_names grown no_memory])
    case (no_memory n)
    show thesis
      by (rule no_space[of n])
        (use no_memory nz assms(2) need in \<open>simp_all add: inode_pwrite_def Let_def o32_def[symmetric] len_def[symmetric] word_le_nat_alt word_less_nat_alt\<close>)
  next
    case (grown ino1)
    have cap: "length (in_data ino1) = unat (in_cap ino1)" "nat off + length src \<le> unat (in_cap ino1)"
      "unat (in_size ino1) \<le> unat (in_cap ino1)"
      using grown(2,3) need by (simp_all add: inode_inv_def word_le_nat_alt)
    let ?sz = "unat (in_size ino1)"
    define d1 where "d1 = (if ?sz < nat off then take ?sz (in_data ino1) @ replicate (nat off - ?sz) NUL @ drop (nat off) (in_data ino1) else in_data ino1)"
    define d2 where "d2 = take (nat off) d1 @ src @ drop (nat off + length src) d1"
    have len1: "length d1 = length (in_data ino1)" using cap by (auto simp: d1_def)
    have hole: "(if o32 > in_size ino1 then mem_put (in_data ino1) ?sz (replicate (unat (o32 - in_size ino1)) NUL)
        else Ret (in_data ino1)) = Ret d1"
      using cap o by (auto simp: d1_def mem_put_def word_less_nat_alt unat_sub word_le_nat_alt)
    have body: "mem_put d1 (unat o32) src = Ret d2"
      using cap len1 o by (simp add: mem_put_def d2_def)
    define ino2 where "ino2 = ino1\<lparr>in_data := d2, in_size := (if o32 + len > in_size ino1 then o32 + len else in_size ino1)\<rparr>"
    have r: "inode_pwrite H src off ino = Ret (ino2, int (length src))"
      using grown(1) nz assms(2) hole body s
      by (simp add: inode_pwrite_def Let_def o32_def[symmetric] len_def[symmetric] ino2_def)
    have sz: "unat (in_size ino2) = max ?sz (nat off + length src)"
      using need by (simp add: ino2_def word_less_nat_alt max_def)
    have "length d2 = unat (in_cap ino1)" using cap len1 by (simp add: d2_def)
    then have "inode_inv ino2"
      using grown(2,3) cap need by (auto simp: inode_inv_def ino2_def word_le_nat_alt)
    moreover have "content ino2 = posix_write (content ino) (nat off) src"
      using posix_write_block[OF _ _ d1_def, of src] cap sz grown(4,5)
      by (simp add: content_def ino2_def d2_def)
    ultimately show thesis using r by (intro written) simp_all
  qed
qed

lemma posix_write_append:
  "posix_write (posix_write c off a) (off + length a) b = posix_write c off (a @ b)"
  by (auto simp: posix_write_def min_def ac_simps)

lemma posix_write_Nil: "off \<le> length c \<Longrightarrow> posix_write c off [] = c"
  by (simp add: posix_write_def)

lemma length_posix_write: "length (posix_write c off bs) = max (length c) (off + length bs)"
  by (simp add: posix_write_def)

lemma posix_read_back: "take (length bs) (drop off (posix_write c off bs)) = bs"
  by (simp add: posix_write_def)

lemma pread_spec:
  assumes "inode_inv ino" and "0 \<le> off" and "off < 2 ^ 32"
  shows "inode_pread ino len off = Ret (take (unat len) (drop (nat off) (content ino)))"
proof -
  define o32 :: size_t where "o32 = word_of_int off"
  have o: "unat o32 = nat off" using assms(2,3) by (simp add: o32_def off32)
  have sz: "unat (in_size ino) \<le> length (in_data ino)" "unat (in_size ino) = length (content ino)"
    using assms(1) length_content[OF assms(1)] by (simp_all add: inode_inv_def word_le_nat_alt)
  show ?thesis
  proof (cases "o32 \<ge> in_size ino")
    case True
    then have "length (content ino) \<le> nat off" using o sz(2) by (simp add: word_le_nat_alt)
    with True assms(2) show ?thesis by (simp add: inode_pread_def Let_def o32_def[symmetric])
  next
    case False
    then have lt: "nat off < unat (in_size ino)" using o by (simp add: word_le_nat_alt)
    have av: "unat (in_size ino - o32) = unat (in_size ino) - nat off"
      using False o by (simp add: unat_sub word_le_nat_alt)
    define n where "n = (if len > in_size ino - o32 then in_size ino - o32 else len)"
    have n: "unat n = min (unat len) (unat (in_size ino) - nat off)"
      using av by (auto simp: n_def word_less_nat_alt)
    have "inode_pread ino len off = mem_get (in_data ino) (nat off) (unat n)"
      using False assms(2) by (simp add: inode_pread_def Let_def o32_def[symmetric] n_def o)
    also have "\<dots> = Ret (take (unat n) (drop (nat off) (in_data ino)))"
      using n sz(1) lt by (simp add: mem_get_def)
    also have "take (unat n) (drop (nat off) (in_data ino)) = take (unat len) (drop (nat off) (content ino))"
      by (simp add: content_def n drop_take)
    finally show ?thesis .
  qed
qed

lemma preadv_spec:
  assumes "inode_inv ino"
  shows "0 \<le> off \<Longrightarrow> off + int (sum_list (map unat ns)) < 2 ^ 32 \<Longrightarrow> 0 \<notin> set ns \<Longrightarrow>
    file_preadv ino ns off = Ret (take (sum_list (map unat ns)) (drop (nat off) (content ino)))"
  unfolding file_preadv_def
proof (induction ns arbitrary: off)
  case (Cons n ns)
  let ?c = "content ino"
  let ?r = "take (unat n) (drop (nat off) ?c)"
  have n: "0 < unat n" using Cons.prems(3) by (auto simp: unat_gt_0)
  have "off \<le> off + int (sum_list (map unat (n # ns)))" by (simp only: le_add_same_cancel1 of_nat_0_le_iff)
  then have "off < 2 ^ 32" using Cons.prems(2) by (rule order_le_less_trans)
  then have r: "inode_pread ino n off = Ret ?r" by (rule pread_spec[OF assms Cons.prems(1)])
  show ?case
  proof (cases "length ?c - nat off < unat n")
    case True
    then have "take (sum_list (map unat (n # ns))) (drop (nat off) ?c) = ?r" by simp
    with True r show ?thesis by (cases "?r = []") auto
  next
    case False
    then have l: "length ?r = unat n" by simp
    have t: "nat (off + int (unat n)) = nat off + unat n"
      using nat_add_distrib[OF Cons.prems(1) of_nat_0_le_iff, of "unat n"] by simp
    have "preadv_loop ino ns (off + int (unat n)) = Ret (take (sum_list (map unat ns)) (drop (nat off + unat n) ?c))"
      using Cons.IH[of "off + int (unat n)"] Cons.prems t by simp
    moreover have "?r \<noteq> []" using l n by auto
    ultimately show ?thesis using r l by (simp add: take_add add.commute)
  qed
qed simp

lemma pwritev_loop_spec:
  assumes "\<And>n. hp_realloc H n"
  shows "inode_inv ino \<Longrightarrow> 0 \<le> off \<Longrightarrow> 0 \<le> tot \<Longrightarrow> nat off + length (concat bs) < 2 ^ 31 \<Longrightarrow>
    nat off \<le> length (content ino) \<or> concat bs \<noteq> [] \<Longrightarrow>
    \<exists>ino1. pwritev_loop H bs off tot ino = Ret (ino1, tot + int (length (concat bs))) \<and> inode_inv ino1 \<and>
      content ino1 = posix_write (content ino) (nat off) (concat bs)"
proof (induction bs arbitrary: off tot ino)
  case Nil
  then show ?case by (simp add: posix_write_Nil)
next
  case (Cons b bs)
  show ?case
  proof (cases "b = []")
    case True
    then show ?thesis using Cons.IH[OF Cons.prems(1,2,3)] Cons.prems(4,5) by simp
  next
    case False
    have b: "length b < 2 ^ 31" "nat off + length b \<le> 2 ^ 31" using Cons.prems(4) by simp_all
    obtain ino1 where w: "inode_pwrite H b off ino = Ret (ino1, int (length b))" "inode_inv ino1"
      "content ino1 = posix_write (content ino) (nat off) b"
      using pwrite_cases[OF Cons.prems(1,2) False b, of H] assms by metis
    have off: "nat (off + int (length b)) = nat off + length b" using Cons.prems(2) by simp
    have "\<exists>ino2. pwritev_loop H bs (off + int (length b)) (tot + int (length b)) ino1 =
        Ret (ino2, tot + int (length b) + int (length (concat bs))) \<and> inode_inv ino2 \<and>
        content ino2 = posix_write (content ino1) (nat (off + int (length b))) (concat bs)"
      by (rule Cons.IH[OF w(2)]) (use Cons.prems off in \<open>simp_all add: w(3) length_posix_write\<close>)
    then show ?thesis using False w(1) by (auto simp: w(3) off posix_write_append)
  qed
qed

section \<open>Properties of file contents\<close>

definition demo_heap :: heap where
  "demo_heap = \<lparr>hp_realloc = (\<lambda>n. True), hp_junk = (\<lambda>i. CHR ''?'')\<rparr>"

text \<open>
  C11: writing at an offset does what POSIX says as long as the end of the write is at most 2 GiB:
  the visible contents are the old ones with the bytes in place and a hole before them filled with
  zeros, whatever the fresh heap memory contained, and the full count is returned; or the heap is
  exhausted, the answer is -ENOSPC and the inode is unchanged.
\<close>

theorem tmpfs_write_refines_posix:
  assumes "inode_inv ino" and "0 \<le> off" and "src \<noteq> []" and "length src < 2 ^ 31" and "nat off + length src \<le> 2 ^ 31"
  shows "(\<exists>ino1. inode_pwrite H src off ino = Ret (ino1, int (length src)) \<and> inode_inv ino1 \<and>
      content ino1 = posix_write (content ino) (nat off) src) \<or>
    (\<exists>n. inode_pwrite H src off ino = Ret (ino, err ENOSPC) \<and> \<not> hp_realloc H n \<and>
      nat off + length src \<le> unat n \<and> unat (in_cap ino) < nat off + length src)"
  by (rule pwrite_cases[OF assms, of H]) blast+

theorem tmpfs_write_refines_posix_witness:
  "\<exists>ino1. inode_pwrite demo_heap ''ab'' 3 inode_new = Ret (ino1, 2) \<and> content ino1 = [NUL, NUL, NUL, CHR ''a'', CHR ''b'']"
proof -
  have "posix_write (content inode_new) (nat 3) ''ab'' = [NUL, NUL, NUL, CHR ''a'', CHR ''b'']"
    by (simp add: posix_write_def content_def inode_new_def) (simp add: numeral_eq_Suc)
  then show ?thesis
    using tmpfs_write_refines_posix[OF inode_inv_new, of 3 "''ab''" demo_heap] by (auto simp: demo_heap_def)
qed



text \<open>
  C13: the loop that doubles the capacity ends exactly when at most 2 GiB are needed: beyond that
  the 32-bit capacity wraps to zero and the call never returns.
\<close>

theorem tmpfs_ensure_ends_iff:
  assumes "inode_inv ino"
  shows "ensure H need ino = Stuck \<longleftrightarrow> 2 ^ 31 < unat need"
proof (cases "unat need \<le> 2 ^ 31")
  case True
  have "ensure H need ino \<noteq> Stuck" by (rule ensure_spec[OF assms True, of H]) simp_all
  with True show ?thesis by simp
next
  case False
  define c where "c = (if in_cap ino \<noteq> 0 then in_cap ino else 64)"
  have "\<exists>k \<le> 31. unat c = 2 ^ k"
    using assms by (cases "in_cap ino = 0") (auto simp: c_def inode_inv_def pow2_cap_def intro: exI[of _ 6])
  then obtain k where k: "k \<le> 31" "unat c = 2 ^ k" by auto
  have "unat (in_cap ino) \<le> unat c" by (simp add: c_def)
  also have "\<dots> \<le> 2 ^ 31" unfolding k(2) using k(1) by (intro power_increasing) simp_all
  finally have "\<not> need \<le> in_cap ino" using False by (simp add: word_le_nat_alt)
  moreover have "grow need c = None" using grow_diverges[OF k(2)] False by simp
  ultimately show ?thesis using False by (simp add: ensure_def c_def[symmetric])
qed

theorem tmpfs_ensure_ends_iff_witness: "ensure demo_heap 0x80000001 inode_new = Stuck"
  using tmpfs_ensure_ends_iff[OF inode_inv_new, of demo_heap "0x80000001"] by simp

text \<open>
  C14: a write whose end wraps around the 32-bit address range to a small value passes the
  capacity check and then writes outside the heap block.
\<close>

theorem tmpfs_write_wrap_faults:
  assumes "inode_inv ino" and "src \<noteq> []" and "length src < 2 ^ 31" and "2 ^ 31 < off" and "off < 2 ^ 32"
    and "nat off + length src - 2 ^ 32 \<le> unat (in_cap ino)" and "2 ^ 32 \<le> nat off + length src"
  shows "inode_pwrite H src off ino = Fault"
proof -
  define o32 :: size_t where "o32 = word_of_int off"
  define len :: size_t where "len = of_nat (length src)"
  have o: "unat o32 = nat off" using assms(4,5) by (simp add: o32_def off32)
  have l: "unat len = length src" using assms(3) by (simp add: len_def unsigned_of_nat take_bit_nat_eq_self_iff)
  have nz: "len \<noteq> 0" using l assms(2) by (metis length_0_conv unat_0)
  have "nat off < 2 ^ 32" using assms(5) by simp
  then have "unat (o32 + len) = nat off + length src - 2 ^ 32"
    using o l assms(3,7) by (simp add: unat_word_ariths mod_if)
  then have e: "ensure H (o32 + len) ino = Ret (ino, True)"
    using assms(6) by (simp add: ensure_def word_le_nat_alt)
  have cap: "unat (in_cap ino) \<le> 2 ^ 31" "unat (in_size ino) \<le> unat (in_cap ino)" "length (in_data ino) = unat (in_cap ino)"
    using assms(1) power_increasing[of _ 31 "2 :: nat"] by (auto simp: inode_inv_def pow2_cap_def word_le_nat_alt)
  have big: "2 ^ 31 < unat o32" using o assms(4) by simp
  have "o32 > in_size ino" "unat (o32 - in_size ino) = unat o32 - unat (in_size ino)"
    using big cap by (simp_all add: word_less_nat_alt unat_sub word_le_nat_alt)
  then show ?thesis
    using nz assms(4) e big cap
    by (simp add: inode_pwrite_def Let_def o32_def[symmetric] len_def[symmetric] mem_put_def)
qed

theorem tmpfs_write_wrap_faults_witness: "inode_pwrite demo_heap ''abcdefgh'' 0xfffffff8 inode_new = Fault"
  using tmpfs_write_wrap_faults[OF inode_inv_new, of "''abcdefgh''" "0xfffffff8" demo_heap]
  by (simp add: inode_new_def)

end
