(* ===== verification/Dirents.thy ===== *)
theory Dirents
  imports Prelude
begin

text \<open>
  Directory streams: the records \<^verbatim>\<open>getdents\<close> fills into a caller's buffer, shared by the
  in-memory, device and synthetic file systems, and the contract of such a stream. Each of the
  three keeps a cursor in the directory object, returns as many records as fit, and starts over
  once it has returned nothing.
\<close>

datatype dtype = DT_REG | DT_DIR | DT_CHR

record dirent =
  de_ino :: nat
  de_off :: nat
  de_reclen :: nat
  de_type :: dtype
  de_name :: string

text \<open>
  The length of a record for a name of \<open>nl\<close> bytes with its terminator: \<^verbatim>\<open>d_name\<close> lies at offset
  19 of \<^verbatim>\<open>struct dirent64\<close>, records are rounded up to a multiple of \<^verbatim>\<open>sizeof(long)\<close>, 4.
\<close>

definition reclen_of :: "nat \<Rightarrow> nat" where
  "reclen_of nl = (19 + nl + 3) div 4 * 4"

lemma reclen_of_bounds: "19 + nl \<le> reclen_of nl" "reclen_of nl \<le> 22 + nl"
  unfolding reclen_of_def by presburger+

text \<open>A name as it arrives in \<^verbatim>\<open>d_name[256]\<close>.\<close>

definition clip_name :: "string \<Rightarrow> string" where
  "clip_name nm = take (min (length nm + 1) 256 - 1) nm"

lemma clip_name_short: "length nm < 256 \<Longrightarrow> clip_name nm = nm"
  by (simp add: clip_name_def)

text \<open>
  Reading a directory: call until nothing comes. Between two calls somebody else may act on the
  directory, the second argument says how.
\<close>

fun read_all :: "('s \<Rightarrow> 's \<times> 'e list) \<Rightarrow> ('s \<Rightarrow> 's) list \<Rightarrow> 's \<Rightarrow> 's \<times> 'e list" where
  "read_all call [] s = (s, [])"
| "read_all call (f # fs) s =
     (case call s of (s', es) \<Rightarrow>
        if es = [] then (s', []) else (case read_all call fs (f s') of (s2, rest) \<Rightarrow> (s2, es @ rest)))"

locale dirent_stream =
  fixes ok :: "'s \<Rightarrow> bool"
    and items :: "'s \<Rightarrow> 'e list"
    and pos :: "'s \<Rightarrow> nat"
    and call :: "nat \<Rightarrow> 's \<Rightarrow> 's \<times> 'e list"
    and need :: "'e \<Rightarrow> nat"
    and env :: "('s \<Rightarrow> 's) set"
  assumes call_ok: "ok s \<Longrightarrow> call sz s = (s', es) \<Longrightarrow> ok s'"
    and call_take: "ok s \<Longrightarrow> call sz s = (s', es) \<Longrightarrow> es = take (length es) (drop (pos s) (items s))"
    and call_items: "ok s \<Longrightarrow> call sz s = (s', es) \<Longrightarrow> es \<noteq> [] \<Longrightarrow> items s' = items s \<and> pos s' = pos s + length es"
    and call_end: "ok s \<Longrightarrow> call sz s = (s', []) \<Longrightarrow> pos s' = 0"
    and call_progress: "ok s \<Longrightarrow> pos s < length (items s) \<Longrightarrow> need (items s ! pos s) \<le> sz \<Longrightarrow>
        call sz s = (s', es) \<Longrightarrow> es \<noteq> []"
    and env_keeps: "f \<in> env \<Longrightarrow> ok s \<Longrightarrow> 0 < pos s \<Longrightarrow> ok (f s) \<and> items (f s) = items s \<and> pos (f s) = pos s"
begin

text \<open>
  With a buffer that holds every single record, reading to the end lists everything once, as it
  was when the reading began.
\<close>

lemma read_all_lists:
  assumes "ok s" and "\<forall>e \<in> set (items s). need e \<le> sz" and "length (items s) - pos s < length fs"
    and "pos s \<le> length (items s)" and "set fs \<subseteq> env" and "read_all (call sz) fs s = (s', es)"
  shows "es = drop (pos s) (items s) \<and> pos s' = 0"
  using assms
proof (induction fs arbitrary: s s' es)
  case (Cons f fs)
  obtain s1 e1 where c: "call sz s = (s1, e1)" by fastforce
  show ?case
  proof (cases "e1 = []")
    case True
    have "\<not> pos s < length (items s)"
    proof
      assume l: "pos s < length (items s)"
      then have "need (items s ! pos s) \<le> sz" using Cons.prems(2) by simp
      from call_progress[OF Cons.prems(1) l this c] True show False by simp
    qed
    with True c Cons.prems call_end[of s sz s1] show ?thesis by simp
  next
    case False
    note i = call_items[OF Cons.prems(1) c False] and t = call_take[OF Cons.prems(1) c]
    obtain s2 rest where r: "read_all (call sz) fs (f s1) = (s2, rest)" by fastforce
    have l: "length e1 \<le> length (items s) - pos s" "0 < length e1"
      using False arg_cong[OF t, of length] by simp_all
    have f: "ok (f s1) \<and> items (f s1) = items s \<and> pos (f s1) = pos s + length e1"
      using env_keeps[of f s1] call_ok[OF Cons.prems(1) c] Cons.prems(5) i l(2) by simp
    have "rest = drop (pos (f s1)) (items (f s1)) \<and> pos s2 = 0"
      by (rule Cons.IH[OF _ _ _ _ _ r]) (use Cons.prems(2-5) f l in \<open>simp_all, linarith+\<close>)
    moreover have "e1 @ drop (pos s + length e1) (items s) = drop (pos s) (items s)"
      using t by (metis append_take_drop_id drop_drop add.commute)
    ultimately show ?thesis using c False r Cons.prems(6) f by auto
  qed
qed simp

end

end
