(* ===== verification/Tmpfs_Dir.thy ===== *)
theory Tmpfs_Dir
  imports Tmpfs_Inode Dirents
begin

text \<open>
  The directory tree of the in-memory file system, the class \<^verbatim>\<open>Tmpfs_dir\<close> of
  \<^verbatim>\<open>pkg/tmpfs/src/tmpfs.cc\<close>. Reference-counted objects live in two append-only stores, inodes
  and directories, and a reference is an index; a directory is the linked list of its entries,
  newest first, with the cursor of \<^verbatim>\<open>getdents\<close>. The operations walk the path recursively, each
  in its own copy of the recursion as in the source; \<open>resolve\<close> is the common reference they are
  shown equal to.
\<close>

section \<open>State\<close>

datatype tnode = Ino nat | Sub nat

record tdir =
  td_head :: "(string \<times> tnode) list"
  td_pos :: nat

record tmpfs =
  tf_inodes :: "inode list"
  tf_dirs :: "tdir list"

definition tdir_new :: tdir where
  "tdir_new = \<lparr>td_head = [], td_pos = 0\<rparr>"

definition tmpfs_init :: tmpfs where
  "tmpfs_init = \<lparr>tf_inodes = [], tf_dirs = [tdir_new]\<rparr>"

text \<open>What \<^verbatim>\<open>get_entry\<close> hands out: a directory, or a fresh handle on an inode.\<close>

datatype tfile = TDir nat | TFile nat bool

text \<open>Which of the allocations of an operation succeed.\<close>

record dir_alloc =
  da_node :: bool
  da_entry :: bool
  da_name :: bool
  da_handle :: bool

text \<open>The open flags, \<^verbatim>\<open>0100\<close>, \<^verbatim>\<open>01000\<close> and \<^verbatim>\<open>02000\<close> in octal.\<close>

definition O_CREAT :: u32 where "O_CREAT = 0x40"
definition O_TRUNC :: u32 where "O_TRUNC = 0x200"
definition O_APPEND :: u32 where "O_APPEND = 0x400"

section \<open>Entries and paths\<close>

definition split_path :: "string \<Rightarrow> (string \<times> string option) option" where
  "split_path path =
     (let p = dropWhile (\<lambda>c. c = CHR ''/'') path
      in if p = [] then None
         else let sep = dropWhile (\<lambda>c. c \<noteq> CHR ''/'') p; r = dropWhile (\<lambda>c. c = CHR ''/'') sep
              in Some (takeWhile (\<lambda>c. c \<noteq> CHR ''/'') p, if r = [] then None else Some r))"

fun dir_find :: "string \<Rightarrow> (string \<times> tnode) list \<Rightarrow> tnode option" where
  "dir_find name [] = None"
| "dir_find name (e # es) = (if fst e = name then Some (snd e) else dir_find name es)"

fun dir_remove :: "string \<Rightarrow> (string \<times> tnode) list \<Rightarrow> (string \<times> tnode) list" where
  "dir_remove name [] = []"
| "dir_remove name (e # es) = (if fst e = name then es else e # dir_remove name es)"

definition dir_head :: "tmpfs \<Rightarrow> nat \<Rightarrow> (string \<times> tnode) list" where
  "dir_head fs d = td_head (tf_dirs fs ! d)"

definition set_head :: "tmpfs \<Rightarrow> nat \<Rightarrow> (string \<times> tnode) list \<Rightarrow> tmpfs" where
  "set_head fs d es = fs\<lparr>tf_dirs := (tf_dirs fs)[d := (tf_dirs fs ! d)\<lparr>td_head := es\<rparr>]\<rparr>"

text \<open>\<^verbatim>\<open>alloc\<close> puts the new entry in front; \<^verbatim>\<open>add_file\<close> and \<^verbatim>\<open>add_dir\<close> set its target.\<close>

definition add_entry :: "dir_alloc \<Rightarrow> tmpfs \<Rightarrow> nat \<Rightarrow> string \<Rightarrow> tnode \<Rightarrow> tmpfs option" where
  "add_entry A fs d name t =
     (if \<not> da_entry A \<or> \<not> da_name A then None else Some (set_head fs d ((name, t) # dir_head fs d)))"

lemma length_dropWhile_tl: "xs \<noteq> [] \<Longrightarrow> P (hd xs) \<Longrightarrow> length (dropWhile P xs) < length xs"
  by (cases xs) (auto simp: le_imp_less_Suc length_dropWhile_le)

lemma split_path_shorter:
  assumes "split_path path = Some (n, Some r)"
  shows "length r < length path"
proof -
  let ?sl = "\<lambda>c. c = CHR ''/''" and ?ns = "\<lambda>c. c \<noteq> CHR ''/''"
  obtain p where p: "p = dropWhile ?sl path" by blast
  obtain q where q: "q = dropWhile ?sl (dropWhile ?ns p)" by blast
  have sp: "split_path path = (if p = [] then None else Some (takeWhile ?ns p, if q = [] then None else Some q))"
    unfolding split_path_def Let_def p[symmetric] q[symmetric] by (rule refl)
  have ne: "p \<noteq> []" using assms unfolding sp by (cases "p = []") simp_all
  have r: "r = dropWhile ?sl (dropWhile ?ns p)"
    using assms ne unfolding sp q[symmetric] by (cases "q = []") simp_all
  have "?ns (hd p)" using ne hd_dropWhile[of ?sl path] unfolding p by simp
  then have "length (dropWhile ?ns p) < length p" by (rule length_dropWhile_tl[OF ne])
  moreover have "length r \<le> length (dropWhile ?ns p)" unfolding r by (rule length_dropWhile_le)
  moreover have "length p \<le> length path" unfolding p by (rule length_dropWhile_le)
  ultimately show ?thesis by linarith
qed

section \<open>Operations\<close>

text \<open>The leaf of \<^verbatim>\<open>get_entry\<close>, once the directory and the name are known.\<close>

definition open_leaf :: "dir_alloc \<Rightarrow> heap \<Rightarrow> u32 \<Rightarrow> tmpfs \<Rightarrow> nat \<Rightarrow> string \<Rightarrow> (tmpfs \<times> (errno + tfile)) outcome" where
  "open_leaf A H fl fs d name =
     (let app = (fl AND O_APPEND \<noteq> 0)
      in case dir_find name (dir_head fs d) of
           Some (Sub s) \<Rightarrow> Ret (fs, Inr (TDir s))
         | Some (Ino i) \<Rightarrow>
             obind (if fl AND O_TRUNC \<noteq> 0
                    then obind (inode_truncate H 0 (tf_inodes fs ! i))
                           (\<lambda>(ino, _). Ret (fs\<lparr>tf_inodes := (tf_inodes fs)[i := ino]\<rparr>))
                    else Ret fs)
               (\<lambda>fs1. Ret (fs1, if da_handle A then Inr (TFile i app) else Inl ENOMEM))
         | None \<Rightarrow>
             if fl AND O_CREAT = 0 then Ret (fs, Inl ENOENT)
             else if \<not> da_node A then Ret (fs, Inl ENOMEM)
             else let i = length (tf_inodes fs); fs1 = fs\<lparr>tf_inodes := tf_inodes fs @ [inode_new]\<rparr>
                  in case add_entry A fs1 d name (Ino i) of
                       None \<Rightarrow> Ret (fs1, Inl ENOMEM)
                     | Some fs2 \<Rightarrow> Ret (fs2, if da_handle A then Inr (TFile i app) else Inl ENOMEM))"

function get_entry :: "dir_alloc \<Rightarrow> heap \<Rightarrow> u32 \<Rightarrow> tmpfs \<Rightarrow> nat \<Rightarrow> string \<Rightarrow> (tmpfs \<times> (errno + tfile)) outcome" where
  "get_entry A H fl fs d path =
     (case split_path path of
        None \<Rightarrow> Ret (fs, Inr (TDir d))
      | Some (name, Some rest) \<Rightarrow>
          (case dir_find name (dir_head fs d) of
             None \<Rightarrow> Ret (fs, Inl ENOENT)
           | Some (Ino i) \<Rightarrow> Ret (fs, Inl ENOTDIR)
           | Some (Sub s) \<Rightarrow> get_entry A H fl fs s rest)
      | Some (name, None) \<Rightarrow> open_leaf A H fl fs d name)"
  by pat_completeness auto
termination by (relation "measure (\<lambda>(A, H, fl, fs, d, path). length path)") (auto dest: split_path_shorter)

function mkdir :: "dir_alloc \<Rightarrow> tmpfs \<Rightarrow> nat \<Rightarrow> string \<Rightarrow> tmpfs \<times> int" where
  "mkdir A fs d path =
     (case split_path path of
        None \<Rightarrow> (fs, err EEXIST)
      | Some (name, Some rest) \<Rightarrow>
          (case dir_find name (dir_head fs d) of
             None \<Rightarrow> (fs, err ENOENT)
           | Some (Ino i) \<Rightarrow> (fs, err ENOTDIR)
           | Some (Sub s) \<Rightarrow> mkdir A fs s rest)
      | Some (name, None) \<Rightarrow>
          if dir_find name (dir_head fs d) \<noteq> None then (fs, err EEXIST)
          else if \<not> da_node A then (fs, err ENOMEM)
          else let s = length (tf_dirs fs); fs1 = fs\<lparr>tf_dirs := tf_dirs fs @ [tdir_new]\<rparr>
               in case add_entry A fs1 d name (Sub s) of
                    None \<Rightarrow> (fs1, err ENOMEM)
                  | Some fs2 \<Rightarrow> (fs2, 0))"
  by pat_completeness auto
termination by (relation "measure (\<lambda>(A, fs, d, path). length path)") (auto dest: split_path_shorter)

function unlink :: "tmpfs \<Rightarrow> nat \<Rightarrow> string \<Rightarrow> tmpfs \<times> int" where
  "unlink fs d path =
     (case split_path path of
        None \<Rightarrow> (fs, err EISDIR)
      | Some (name, rest) \<Rightarrow>
          (case dir_find name (dir_head fs d) of
             None \<Rightarrow> (fs, err ENOENT)
           | Some e \<Rightarrow>
               (case rest of
                  Some r \<Rightarrow> (case e of Ino i \<Rightarrow> (fs, err ENOTDIR) | Sub s \<Rightarrow> unlink fs s r)
                | None \<Rightarrow>
                    (case e of Sub s \<Rightarrow> (fs, err EISDIR)
                     | Ino i \<Rightarrow> (set_head fs d (dir_remove name (dir_head fs d)), 0)))))"
  by pat_completeness auto
termination by (relation "measure (\<lambda>(fs, d, path). length path)") (auto dest: split_path_shorter)

function rmdir :: "tmpfs \<Rightarrow> nat \<Rightarrow> string \<Rightarrow> tmpfs \<times> int" where
  "rmdir fs d path =
     (case split_path path of
        None \<Rightarrow> (fs, err EINVAL)
      | Some (name, rest) \<Rightarrow>
          (case dir_find name (dir_head fs d) of
             None \<Rightarrow> (fs, err ENOENT)
           | Some e \<Rightarrow>
               (case rest of
                  Some r \<Rightarrow> (case e of Ino i \<Rightarrow> (fs, err ENOTDIR) | Sub s \<Rightarrow> rmdir fs s r)
                | None \<Rightarrow>
                    (case e of Ino i \<Rightarrow> (fs, err ENOTDIR)
                     | Sub s \<Rightarrow>
                         if dir_head fs s \<noteq> [] then (fs, err ENOTEMPTY)
                         else (set_head fs d (dir_remove name (dir_head fs d)), 0)))))"
  by pat_completeness auto
termination by (relation "measure (\<lambda>(fs, d, path). length path)") (auto dest: split_path_shorter)

function faccessat :: "tmpfs \<Rightarrow> nat \<Rightarrow> string \<Rightarrow> int" where
  "faccessat fs d path =
     (case split_path path of
        None \<Rightarrow> 0
      | Some (name, rest) \<Rightarrow>
          (case dir_find name (dir_head fs d) of
             None \<Rightarrow> err ENOENT
           | Some e \<Rightarrow>
               (case rest of
                  Some r \<Rightarrow> (case e of Ino i \<Rightarrow> err ENOTDIR | Sub s \<Rightarrow> faccessat fs s r)
                | None \<Rightarrow> 0)))"
  by pat_completeness auto
termination by (relation "measure (\<lambda>(fs, d, path). length path)") (auto dest: split_path_shorter)

text \<open>\<^verbatim>\<open>S_IFDIR | 0755\<close>.\<close>

definition dir_fstat :: stat_buf where
  "dir_fstat = stat_zero\<lparr>st_mode := 0x41ED, st_nlink := 2, st_blksize := 4096\<rparr>"

fun getdents_loop :: "(string \<times> tnode) list \<Rightarrow> nat \<Rightarrow> dirent list" where
  "getdents_loop [] sz = []"
| "getdents_loop (e # es) sz =
     (let nl = min (length (fst e) + 1) 256; rl = reclen_of nl
      in if rl > sz then []
         else \<lparr>de_ino = 1, de_off = 0, de_reclen = rl,
               de_type = (case snd e of Sub s \<Rightarrow> DT_DIR | Ino i \<Rightarrow> DT_REG), de_name = take (nl - 1) (fst e)\<rparr>
              # getdents_loop es (sz - rl))"

text \<open>The returned byte count is the sum of the record lengths.\<close>

definition dir_getdents :: "nat \<Rightarrow> tdir \<Rightarrow> tdir \<times> dirent list" where
  "dir_getdents sz td =
     (let out = getdents_loop (drop (td_pos td) (td_head td)) sz
      in (td\<lparr>td_pos := (if out = [] then 0 else td_pos td + length out)\<rparr>, out))"

declare get_entry.simps [simp del] mkdir.simps [simp del] unlink.simps [simp del] rmdir.simps [simp del]
  faccessat.simps [simp del]

section \<open>Path resolution\<close>

text \<open>Where a path leads: the directory of its last component and that component's name.\<close>

function resolve :: "tmpfs \<Rightarrow> nat \<Rightarrow> string \<Rightarrow> errno + nat \<times> string option" where
  "resolve fs d path =
     (case split_path path of
        None \<Rightarrow> Inr (d, None)
      | Some (name, None) \<Rightarrow> Inr (d, Some name)
      | Some (name, Some rest) \<Rightarrow>
          (case dir_find name (dir_head fs d) of
             None \<Rightarrow> Inl ENOENT
           | Some (Ino i) \<Rightarrow> Inl ENOTDIR
           | Some (Sub s) \<Rightarrow> resolve fs s rest))"
  by pat_completeness auto
termination by (relation "measure (\<lambda>(fs, d, path). length path)") (auto dest: split_path_shorter)

declare resolve.simps [simp del]

lemma get_entry_resolve:
  "get_entry A H fl fs d path =
     (case resolve fs d path of Inl e \<Rightarrow> Ret (fs, Inl e) | Inr (p, None) \<Rightarrow> Ret (fs, Inr (TDir p))
      | Inr (p, Some n) \<Rightarrow> open_leaf A H fl fs p n)"
  by (induction fs d path rule: resolve.induct)
    (subst get_entry.simps, subst resolve.simps, simp split: option.split prod.split tnode.split)

definition mkdir_leaf :: "dir_alloc \<Rightarrow> tmpfs \<Rightarrow> nat \<Rightarrow> string \<Rightarrow> tmpfs \<times> int" where
  "mkdir_leaf A fs p n =
     (if dir_find n (dir_head fs p) \<noteq> None then (fs, err EEXIST)
      else if \<not> da_node A then (fs, err ENOMEM)
      else let fs1 = fs\<lparr>tf_dirs := tf_dirs fs @ [tdir_new]\<rparr>
           in case add_entry A fs1 p n (Sub (length (tf_dirs fs))) of None \<Rightarrow> (fs1, err ENOMEM) | Some fs2 \<Rightarrow> (fs2, 0))"

lemma mkdir_resolve:
  "mkdir A fs d path =
     (case resolve fs d path of Inl e \<Rightarrow> (fs, err e) | Inr (p, None) \<Rightarrow> (fs, err EEXIST)
      | Inr (p, Some n) \<Rightarrow> mkdir_leaf A fs p n)"
  by (induction fs d path rule: resolve.induct)
    (subst mkdir.simps, subst resolve.simps, simp add: mkdir_leaf_def split: option.split prod.split tnode.split)

lemma unlink_resolve:
  "unlink fs d path =
     (case resolve fs d path of Inl e \<Rightarrow> (fs, err e) | Inr (p, None) \<Rightarrow> (fs, err EISDIR)
      | Inr (p, Some n) \<Rightarrow> (case dir_find n (dir_head fs p) of None \<Rightarrow> (fs, err ENOENT) | Some (Sub s) \<Rightarrow> (fs, err EISDIR)
          | Some (Ino i) \<Rightarrow> (set_head fs p (dir_remove n (dir_head fs p)), 0)))"
  by (induction fs d path rule: resolve.induct)
    (subst unlink.simps, subst resolve.simps, simp split: option.split prod.split tnode.split)

lemma rmdir_resolve:
  "rmdir fs d path =
     (case resolve fs d path of Inl e \<Rightarrow> (fs, err e) | Inr (p, None) \<Rightarrow> (fs, err EINVAL)
      | Inr (p, Some n) \<Rightarrow> (case dir_find n (dir_head fs p) of None \<Rightarrow> (fs, err ENOENT) | Some (Ino i) \<Rightarrow> (fs, err ENOTDIR)
          | Some (Sub s) \<Rightarrow> if dir_head fs s \<noteq> [] then (fs, err ENOTEMPTY)
              else (set_head fs p (dir_remove n (dir_head fs p)), 0)))"
  by (induction fs d path rule: resolve.induct)
    (subst rmdir.simps, subst resolve.simps, simp split: option.split prod.split tnode.split)

lemma faccessat_resolve:
  "faccessat fs d path =
     (case resolve fs d path of Inl e \<Rightarrow> err e | Inr (p, None) \<Rightarrow> 0
      | Inr (p, Some n) \<Rightarrow> if dir_find n (dir_head fs p) = None then err ENOENT else 0)"
  by (induction fs d path rule: resolve.induct)
    (subst faccessat.simps, subst resolve.simps, simp split: option.split prod.split tnode.split)

lemmas op_resolve = get_entry_resolve mkdir_resolve unlink_resolve rmdir_resolve faccessat_resolve

section \<open>The tree as a map\<close>

text \<open>The abstract file system: which node a name of a directory stands for.\<close>

definition ns :: "tmpfs \<Rightarrow> nat \<times> string \<Rightarrow> tnode option" where
  "ns fs dn = (if fst dn < length (tf_dirs fs) then dir_find (snd dn) (dir_head fs (fst dn)) else None)"

definition name_ok :: "string \<Rightarrow> bool" where
  "name_ok n \<longleftrightarrow> n \<noteq> [] \<and> CHR ''/'' \<notin> set n"

fun node_ok :: "tmpfs \<Rightarrow> nat \<Rightarrow> tnode \<Rightarrow> bool" where
  "node_ok fs d (Ino i) \<longleftrightarrow> i < length (tf_inodes fs)"
| "node_ok fs d (Sub s) \<longleftrightarrow> d < s \<and> s < length (tf_dirs fs)"

definition names_distinct :: "tmpfs \<Rightarrow> bool" where
  "names_distinct fs \<longleftrightarrow> (\<forall>d < length (tf_dirs fs). distinct (map fst (dir_head fs d)))"

text \<open>
  Directories have distinct, non-empty names without slashes; references are valid; a
  sub-directory is younger than its parent, so there are no cycles; no two names share a node.
\<close>

definition fs_inv :: "tmpfs \<Rightarrow> bool" where
  "fs_inv fs \<longleftrightarrow> tf_dirs fs \<noteq> [] \<and> names_distinct fs \<and>
     (\<forall>d n x. ns fs (d, n) = Some x \<longrightarrow> name_ok n \<and> node_ok fs d x) \<and> inj_on (ns fs) (dom (ns fs))"

lemma dir_find_None: "dir_find n es = None \<longleftrightarrow> n \<notin> fst ` set es"
  by (induction es) auto

lemma dir_find_remove:
  "distinct (map fst es) \<Longrightarrow> dir_find m (dir_remove n es) = (if m = n then None else dir_find m es)"
  by (induction es) (auto simp: dir_find_None, force)

lemma set_dir_remove: "set (dir_remove n es) \<subseteq> set es"
  by (induction es) auto

lemma distinct_dir_remove: "distinct (map fst es) \<Longrightarrow> distinct (map fst (dir_remove n es))"
  by (induction es) (auto dest: set_dir_remove[THEN subsetD])

lemma dir_head_set_head [simp]:
  "p < length (tf_dirs fs) \<Longrightarrow> dir_head (set_head fs p es) d = (if d = p then es else dir_head fs d)"
  by (auto simp: dir_head_def set_head_def)

lemma set_head_sizes [simp]:
  "length (tf_dirs (set_head fs p es)) = length (tf_dirs fs)" "tf_inodes (set_head fs p es) = tf_inodes fs"
  by (auto simp: set_head_def)

lemma ns_set_head:
  "p < length (tf_dirs fs) \<Longrightarrow> ns (set_head fs p es) (d, n) = (if d = p then dir_find n es else ns fs (d, n))"
  by (simp add: ns_def)

lemma ns_add: "p < length (tf_dirs fs) \<Longrightarrow> ns (set_head fs p ((n, t) # dir_head fs p)) = (ns fs)((p, n) \<mapsto> t)"
  by (rule ext) (auto simp: ns_def)

lemma ns_remove:
  "p < length (tf_dirs fs) \<Longrightarrow> names_distinct fs \<Longrightarrow>
     ns (set_head fs p (dir_remove n (dir_head fs p))) = (ns fs)((p, n) := None)"
  by (rule ext) (auto simp: ns_def names_distinct_def dir_find_remove)

lemma ns_new_dir [simp]: "ns (fs\<lparr>tf_dirs := tf_dirs fs @ [tdir_new]\<rparr>) = ns fs"
  by (rule ext) (auto simp: ns_def dir_head_def nth_append tdir_new_def)

lemma ns_inodes [simp]: "ns (fs\<lparr>tf_inodes := is\<rparr>) = ns fs"
  by (rule ext) (auto simp: ns_def dir_head_def)

lemma names_distinct_inodes [simp]: "names_distinct (fs\<lparr>tf_inodes := is\<rparr>) = names_distinct fs"
  by (auto simp: names_distinct_def dir_head_def)

lemma names_distinct_new_dir: "names_distinct fs \<Longrightarrow> names_distinct (fs\<lparr>tf_dirs := tf_dirs fs @ [tdir_new]\<rparr>)"
  by (auto simp: names_distinct_def dir_head_def nth_append tdir_new_def)

lemma node_ok_mono:
  "node_ok fs d x \<Longrightarrow> length (tf_inodes fs) \<le> length (tf_inodes fs') \<Longrightarrow>
     length (tf_dirs fs) \<le> length (tf_dirs fs') \<Longrightarrow> node_ok fs' d x"
  by (cases x) auto

lemma fs_invD:
  assumes "fs_inv fs" "ns fs (d, n) = Some x"
  shows "name_ok n" "node_ok fs d x" "d < length (tf_dirs fs)"
  using assms by (auto simp: fs_inv_def ns_def split: if_splits)

lemma fs_inv_extend:
  assumes i: "fs_inv fs" and e: "ns fs' = ns fs" "names_distinct fs'" "length (tf_inodes fs) \<le> length (tf_inodes fs')"
    "length (tf_dirs fs) \<le> length (tf_dirs fs')"
  shows "fs_inv fs'"
proof -
  have "name_ok n \<and> node_ok fs' d x" if "ns fs' (d, n) = Some x" for d n x
    using fs_invD(1,2)[OF i, of d n x] that node_ok_mono[OF _ e(3,4)] unfolding e(1) by blast
  with i e show ?thesis unfolding fs_inv_def by auto
qed

lemma fs_inv_new_inode: "fs_inv fs \<Longrightarrow> fs_inv (fs\<lparr>tf_inodes := tf_inodes fs @ [ino]\<rparr>)"
  by (rule fs_inv_extend) (auto simp: fs_inv_def)

lemma fs_inv_set_inode: "fs_inv fs \<Longrightarrow> fs_inv (fs\<lparr>tf_inodes := (tf_inodes fs)[i := ino]\<rparr>)"
  by (rule fs_inv_extend) (auto simp: fs_inv_def)

lemma fs_inv_new_dir: "fs_inv fs \<Longrightarrow> fs_inv (fs\<lparr>tf_dirs := tf_dirs fs @ [tdir_new]\<rparr>)"
  by (rule fs_inv_extend) (auto simp: fs_inv_def names_distinct_new_dir)

lemma fresh_inode: "fs_inv fs \<Longrightarrow> Ino (length (tf_inodes fs)) \<notin> ran (ns fs)"
  by (auto simp: ran_def dest: fs_invD(2))

lemma fresh_dir: "fs_inv fs \<Longrightarrow> Sub (length (tf_dirs fs)) \<notin> ran (ns fs)"
  by (auto simp: ran_def dest: fs_invD(2))

lemma names_distinct_set_head:
  "names_distinct fs \<Longrightarrow> p < length (tf_dirs fs) \<Longrightarrow> distinct (map fst es) \<Longrightarrow> names_distinct (set_head fs p es)"
  by (simp add: names_distinct_def)

lemma node_ok_set_head [simp]: "node_ok (set_head fs p es) d x = node_ok fs d x"
  by (cases x) auto

lemma tf_dirs_set_head_Nil [simp]: "tf_dirs (set_head fs p es) = [] \<longleftrightarrow> tf_dirs fs = []"
  by (simp add: set_head_def)

lemma inj_on_map_upd: "inj_on m (dom m) \<Longrightarrow> v \<notin> ran m \<Longrightarrow> inj_on (m(k \<mapsto> v)) (dom (m(k \<mapsto> v)))"
  by (auto simp: inj_on_def ran_def)

lemma inj_on_map_del: "inj_on m (dom m) \<Longrightarrow> inj_on (m(k := None)) (dom (m(k := None)))"
  by (auto simp: inj_on_def)

lemma fs_inv_add:
  assumes i: "fs_inv fs" and p: "p < length (tf_dirs fs)" and n: "name_ok n" "ns fs (p, n) = None"
    and t: "node_ok fs p t" "t \<notin> ran (ns fs)"
  shows "fs_inv (set_head fs p ((n, t) # dir_head fs p))"
proof -
  have "names_distinct (set_head fs p ((n, t) # dir_head fs p))"
    using i p n(2) by (intro names_distinct_set_head) (auto simp: fs_inv_def names_distinct_def ns_def dir_find_None)
  moreover have "inj_on ((ns fs)((p, n) \<mapsto> t)) (dom ((ns fs)((p, n) \<mapsto> t)))"
    using i t(2) unfolding fs_inv_def by (intro inj_on_map_upd) blast+
  moreover have "name_ok m \<and> node_ok fs d x" if "((ns fs)((p, n) \<mapsto> t)) (d, m) = Some x" for d m x
    using that n(1) t(1) fs_invD(1,2)[OF i] by (auto split: if_splits)
  ultimately show ?thesis using i unfolding fs_inv_def ns_add[OF p] by simp
qed

lemma fs_inv_remove:
  assumes i: "fs_inv fs" and p: "p < length (tf_dirs fs)"
  shows "fs_inv (set_head fs p (dir_remove n (dir_head fs p)))"
proof -
  have nd: "names_distinct fs" using i by (simp add: fs_inv_def)
  have "names_distinct (set_head fs p (dir_remove n (dir_head fs p)))"
    using nd p by (intro names_distinct_set_head distinct_dir_remove) (auto simp: names_distinct_def)
  moreover have "inj_on ((ns fs)((p, n) := None)) (dom ((ns fs)((p, n) := None)))"
    using i unfolding fs_inv_def by (intro inj_on_map_del) blast
  moreover have "name_ok m \<and> node_ok fs d x" if "((ns fs)((p, n) := None)) (d, m) = Some x" for d m x
    using that fs_invD(1,2)[OF i] by (auto split: if_splits)
  ultimately show ?thesis using i unfolding fs_inv_def ns_remove[OF p nd] by simp
qed

section \<open>The operations on the tree\<close>

lemma split_path_name_ok:
  assumes "split_path path = Some (n, r)"
  shows "name_ok n"
proof -
  let ?sl = "\<lambda>c. c = CHR ''/''" and ?ns = "\<lambda>c. c \<noteq> CHR ''/''"
  obtain p where p: "p = dropWhile ?sl path" by blast
  have ne: "p \<noteq> []" and n: "n = takeWhile ?ns p"
    using assms unfolding split_path_def Let_def p[symmetric] by (cases "p = []"; simp)+
  have "?ns (hd p)" using ne hd_dropWhile[of ?sl path] unfolding p by simp
  then have "n \<noteq> []" using ne unfolding n by (cases p) simp_all
  moreover have "CHR ''/'' \<notin> set n" unfolding n by (auto dest: set_takeWhileD)
  ultimately show ?thesis unfolding name_ok_def by simp
qed

lemma ns_find: "d < length (tf_dirs fs) \<Longrightarrow> ns fs (d, n) = dir_find n (dir_head fs d)"
  by (simp add: ns_def)

lemma sub_valid: "fs_inv fs \<Longrightarrow> d < length (tf_dirs fs) \<Longrightarrow> dir_find n (dir_head fs d) = Some (Sub s) \<Longrightarrow>
    d < s \<and> s < length (tf_dirs fs)"
  using fs_invD(2)[of fs d n "Sub s"] by (simp add: ns_find)

lemma resolve_valid:
  "fs_inv fs \<Longrightarrow> d < length (tf_dirs fs) \<Longrightarrow> resolve fs d path = Inr (p, x) \<Longrightarrow>
     d \<le> p \<and> p < length (tf_dirs fs) \<and> (\<forall>n. x = Some n \<longrightarrow> name_ok n)"
proof (induction fs d path rule: resolve.induct)
  case (1 fs d path)
  show ?case
  proof (cases "split_path path")
    case None
    with 1(4) have "p = d \<and> x = None" by (subst (asm) resolve.simps) simp
    with 1(3) show ?thesis by simp
  next
    case (Some nr)
    obtain n r where nr: "nr = (n, r)" by fastforce
    show ?thesis
    proof (cases r)
      case None
      with Some nr 1(4) have "p = d \<and> x = Some n" by (subst (asm) resolve.simps) simp
      with 1(3) split_path_name_ok Some nr show ?thesis by simp
    next
      case (Some rest)
      note sp = \<open>split_path path = Some nr\<close>[unfolded nr Some]
      with 1(4) obtain s where s: "dir_find n (dir_head fs d) = Some (Sub s)" "resolve fs s rest = Inr (p, x)"
        by (subst (asm) resolve.simps) (auto split: option.splits tnode.splits)
      note v = sub_valid[OF 1(2,3) s(1)]
      have "s \<le> p \<and> p < length (tf_dirs fs) \<and> (\<forall>n. x = Some n \<longrightarrow> name_ok n)"
        by (rule 1(1)[OF sp refl refl s(1) refl 1(2) conjunct2[OF v] s(2)])
      with v show ?thesis by simp
    qed
  qed
qed

text \<open>A walk only looks at directories above the one it ends in.\<close>

lemma resolve_frame:
  assumes e: "\<And>d' n'. d' < p \<Longrightarrow> dir_find n' (dir_head fs' d') = dir_find n' (dir_head fs d')"
  shows "fs_inv fs \<Longrightarrow> d < length (tf_dirs fs) \<Longrightarrow> resolve fs d path = Inr (p, x) \<Longrightarrow> resolve fs' d path = Inr (p, x)"
  using e
proof (induction fs d path rule: resolve.induct)
  case (1 fs d path)
  show ?case
  proof (cases "\<exists>n rest. split_path path = Some (n, Some rest)")
    case False
    then show ?thesis using 1(4) by (subst resolve.simps, subst (asm) resolve.simps) (auto split: option.splits)
  next
    case True
    then obtain n rest where sp: "split_path path = Some (n, Some rest)" by blast
    with 1(4) obtain s where s: "dir_find n (dir_head fs d) = Some (Sub s)" "resolve fs s rest = Inr (p, x)"
      by (subst (asm) resolve.simps) (auto split: option.splits tnode.splits)
    note v = sub_valid[OF 1(2,3) s(1)]
    have "d < p" using resolve_valid[OF 1(2) conjunct2[OF v] s(2)] v by simp
    then have "dir_find n (dir_head fs' d) = Some (Sub s)" using 1(5) s(1) by simp
    moreover have "resolve fs' s rest = Inr (p, x)"
      by (rule 1(1)[OF sp refl refl s(1) refl 1(2) conjunct2[OF v] s(2) 1(5)])
    ultimately show ?thesis using sp by (subst resolve.simps) simp
  qed
qed

lemma inode_truncate_0: "inode_truncate H 0 ino = Ret (ino\<lparr>in_size := 0\<rparr>, 0)"
  by (simp add: inode_truncate_def)

lemma ns_Sub_valid: "fs_inv fs \<Longrightarrow> ns fs (p, n) = Some (Sub s) \<Longrightarrow> p < s \<and> s < length (tf_dirs fs)"
  using fs_invD(2)[of fs p n "Sub s"] by simp

text \<open>The two ways a file system changes: a fresh node is linked, a name is unlinked.\<close>

lemma link_node:
  assumes i: "fs_inv fs" "d < length (tf_dirs fs)" and r: "resolve fs d path = Inr (p, Some n)" and f: "ns fs (p, n) = None"
    and fs1: "fs_inv fs1" "ns fs1 = ns fs" "length (tf_dirs fs) \<le> length (tf_dirs fs1)"
      "\<And>d. d < length (tf_dirs fs) \<Longrightarrow> dir_head fs1 d = dir_head fs d"
    and t: "node_ok fs1 p t" "t \<notin> ran (ns fs)" and fs2: "fs2 = set_head fs1 p ((n, t) # dir_head fs1 p)"
  shows "fs_inv fs2" "ns fs2 = (ns fs)((p, n) \<mapsto> t)" "resolve fs2 d path = Inr (p, Some n)"
    "dir_find n (dir_head fs2 p) = Some t"
proof -
  have v: "p < length (tf_dirs fs)" "name_ok n" using resolve_valid[OF i r] by auto
  then have p1: "p < length (tf_dirs fs1)" using fs1(3) by simp
  show "fs_inv fs2" unfolding fs2 by (rule fs_inv_add[OF fs1(1) p1 v(2)]) (use f t fs1(2) in auto)
  show "ns fs2 = (ns fs)((p, n) \<mapsto> t)" unfolding fs2 by (simp add: ns_add[OF p1] fs1(2))
  show "resolve fs2 d path = Inr (p, Some n)"
    by (rule resolve_frame[OF _ i r]) (use p1 v fs1(4) in \<open>simp add: fs2\<close>)
  show "dir_find n (dir_head fs2 p) = Some t" using p1 by (simp add: fs2)
qed

lemma unlink_node:
  assumes i: "fs_inv fs" "d < length (tf_dirs fs)" and r: "resolve fs d path = Inr (p, Some n)"
    and fs2: "fs2 = set_head fs p (dir_remove n (dir_head fs p))"
  shows "fs_inv fs2" "ns fs2 = (ns fs)((p, n) := None)" "resolve fs2 d path = Inr (p, Some n)"
    "dir_find n (dir_head fs2 p) = None"
proof -
  have v: "p < length (tf_dirs fs)" using resolve_valid[OF i r] by auto
  have nd: "names_distinct fs" using i by (simp add: fs_inv_def)
  show "fs_inv fs2" unfolding fs2 by (rule fs_inv_remove[OF i(1) v])
  show "ns fs2 = (ns fs)((p, n) := None)" unfolding fs2 by (rule ns_remove[OF v nd])
  show "resolve fs2 d path = Inr (p, Some n)" by (rule resolve_frame[OF _ i r]) (use v in \<open>simp add: fs2\<close>)
  show "dir_find n (dir_head fs2 p) = None" using v nd by (simp add: fs2 dir_find_remove names_distinct_def)
qed

lemma open_leaf_fresh:
  "dir_find n (dir_head fs p) = None \<Longrightarrow> fl AND O_CREAT \<noteq> 0 \<Longrightarrow> da_node A \<Longrightarrow> da_entry A \<Longrightarrow> da_name A \<Longrightarrow>
     open_leaf A H fl fs p n =
       Ret (set_head (fs\<lparr>tf_inodes := tf_inodes fs @ [inode_new]\<rparr>) p ((n, Ino (length (tf_inodes fs))) # dir_head fs p),
            if da_handle A then Inr (TFile (length (tf_inodes fs)) (fl AND O_APPEND \<noteq> 0)) else Inl ENOMEM)"
  by (simp add: open_leaf_def add_entry_def Let_def dir_head_def)

lemma create_links:
  assumes i: "fs_inv fs" "d < length (tf_dirs fs)" and r: "resolve fs d path = Inr (p, Some n)" and f: "ns fs (p, n) = None"
    and fs2: "fs2 = set_head (fs\<lparr>tf_inodes := tf_inodes fs @ [inode_new]\<rparr>) p ((n, Ino (length (tf_inodes fs))) # dir_head fs p)"
  shows "fs_inv fs2" "ns fs2 = (ns fs)((p, n) \<mapsto> Ino (length (tf_inodes fs)))" "resolve fs2 d path = Inr (p, Some n)"
    "dir_find n (dir_head fs2 p) = Some (Ino (length (tf_inodes fs)))"
proof -
  let ?f = "fs\<lparr>tf_inodes := tf_inodes fs @ [inode_new]\<rparr>"
  have h: "dir_head ?f p = dir_head fs p" by (simp add: dir_head_def)
  have e: "fs2 = set_head ?f p ((n, Ino (length (tf_inodes fs))) # dir_head ?f p)" unfolding fs2 h by (rule refl)
  have "node_ok ?f p (Ino (length (tf_inodes fs)))" by simp
  note l = link_node[OF i r f fs_inv_new_inode[OF i(1)] ns_inodes _ _ this fresh_inode[OF i(1)] e]
  show "fs_inv fs2" "ns fs2 = (ns fs)((p, n) \<mapsto> Ino (length (tf_inodes fs)))" "resolve fs2 d path = Inr (p, Some n)"
    "dir_find n (dir_head fs2 p) = Some (Ino (length (tf_inodes fs)))"
    by (rule l; simp add: dir_head_def)+
qed

lemma mkdir_links:
  assumes i: "fs_inv fs" "d < length (tf_dirs fs)" and r: "resolve fs d path = Inr (p, Some n)" and f: "ns fs (p, n) = None"
    and g: "g = fs\<lparr>tf_dirs := tf_dirs fs @ [tdir_new]\<rparr>"
    and fs2: "fs2 = set_head g p ((n, Sub (length (tf_dirs fs))) # dir_head g p)"
  shows "fs_inv fs2" "ns fs2 = (ns fs)((p, n) \<mapsto> Sub (length (tf_dirs fs)))" "resolve fs2 d path = Inr (p, Some n)"
    "dir_find n (dir_head fs2 p) = Some (Sub (length (tf_dirs fs)))" "dir_head fs2 (length (tf_dirs fs)) = []"
proof -
  have v: "p < length (tf_dirs fs)" using resolve_valid[OF i r] by auto
  have "node_ok g p (Sub (length (tf_dirs fs)))" using v by (simp add: g)
  note l = link_node[OF i r f fs_inv_new_dir[OF i(1), folded g] ns_new_dir[of fs, folded g] _ _ this fresh_dir[OF i(1)] fs2]
  show "fs_inv fs2" "ns fs2 = (ns fs)((p, n) \<mapsto> Sub (length (tf_dirs fs)))" "resolve fs2 d path = Inr (p, Some n)"
    "dir_find n (dir_head fs2 p) = Some (Sub (length (tf_dirs fs)))"
    by (rule l; simp add: dir_head_def g nth_append)+
  show "dir_head fs2 (length (tf_dirs fs)) = []"
    using v by (simp add: fs2 g) (simp add: dir_head_def tdir_new_def)
qed

lemma mkdir_leaf_ok:
  assumes "mkdir_leaf A fs p n = (fs1, 0)"
  shows "dir_find n (dir_head fs p) = None \<and>
    fs1 = set_head (fs\<lparr>tf_dirs := tf_dirs fs @ [tdir_new]\<rparr>) p
      ((n, Sub (length (tf_dirs fs))) # dir_head (fs\<lparr>tf_dirs := tf_dirs fs @ [tdir_new]\<rparr>) p)"
  using assms by (auto simp: mkdir_leaf_def Let_def add_entry_def split: if_splits option.splits)

lemma err_not_0 [simp]: "errcode e \<noteq> 0"
  by (cases e) auto

lemma mkdir_ok:
  assumes "mkdir A fs d path = (fs1, 0)"
  obtains p n where "resolve fs d path = Inr (p, Some n)" "mkdir_leaf A fs p n = (fs1, 0)"
  using assms unfolding mkdir_resolve by (auto split: sum.splits option.splits prod.splits)

section \<open>Reachable file systems\<close>

text \<open>Any sequence of operations, through any directory and any open file.\<close>

inductive tmpfs_reach :: "tmpfs \<Rightarrow> bool" where
  init: "tmpfs_reach tmpfs_init"
| open_step: "tmpfs_reach fs \<Longrightarrow> d < length (tf_dirs fs) \<Longrightarrow> get_entry A H fl fs d path = Ret (fs', r) \<Longrightarrow> tmpfs_reach fs'"
| mkdir_step: "tmpfs_reach fs \<Longrightarrow> d < length (tf_dirs fs) \<Longrightarrow> mkdir A fs d path = (fs', r) \<Longrightarrow> tmpfs_reach fs'"
| unlink_step: "tmpfs_reach fs \<Longrightarrow> d < length (tf_dirs fs) \<Longrightarrow> unlink fs d path = (fs', r) \<Longrightarrow> tmpfs_reach fs'"
| rmdir_step: "tmpfs_reach fs \<Longrightarrow> d < length (tf_dirs fs) \<Longrightarrow> rmdir fs d path = (fs', r) \<Longrightarrow> tmpfs_reach fs'"
| getdents_step: "tmpfs_reach fs \<Longrightarrow> d < length (tf_dirs fs) \<Longrightarrow> dir_getdents sz (tf_dirs fs ! d) = (td, out) \<Longrightarrow>
    tmpfs_reach (fs\<lparr>tf_dirs := (tf_dirs fs)[d := td]\<rparr>)"
| write_step: "tmpfs_reach fs \<Longrightarrow> i < length (tf_inodes fs) \<Longrightarrow> file_pwritev H app iov off (tf_inodes fs ! i) = Ret (ino, r) \<Longrightarrow>
    tmpfs_reach (fs\<lparr>tf_inodes := (tf_inodes fs)[i := ino]\<rparr>)"
| truncate_step: "tmpfs_reach fs \<Longrightarrow> i < length (tf_inodes fs) \<Longrightarrow> file_ftruncate H len (tf_inodes fs ! i) = Ret (ino, r) \<Longrightarrow>
    tmpfs_reach (fs\<lparr>tf_inodes := (tf_inodes fs)[i := ino]\<rparr>)"

lemma fs_inv_init: "fs_inv tmpfs_init"
proof -
  have "ns tmpfs_init = (\<lambda>_. None)" by (rule ext) (simp add: ns_def tmpfs_init_def dir_head_def tdir_new_def)
  then show ?thesis by (simp add: fs_inv_def names_distinct_def) (simp add: tmpfs_init_def dir_head_def tdir_new_def)
qed

lemma open_keeps_inv:
  assumes i: "fs_inv fs" "d < length (tf_dirs fs)" and g: "get_entry A H fl fs d path = Ret (fs', r)"
  shows "fs_inv fs'"
proof (cases "\<exists>p n. resolve fs d path = Inr (p, Some n)")
  case False
  then show ?thesis using i g unfolding get_entry_resolve by (auto split: sum.splits option.splits prod.splits)
next
  case True
  then obtain p n where r: "resolve fs d path = Inr (p, Some n)" by blast
  then have o: "open_leaf A H fl fs p n = Ret (fs', r)" using g unfolding get_entry_resolve by simp
  show ?thesis
  proof (cases "dir_find n (dir_head fs p)")
    case None
    then have "ns fs (p, n) = None" by (simp add: ns_def)
    note c = create_links(1)[OF i r this refl]
    show ?thesis
    proof (cases "fl AND O_CREAT \<noteq> 0 \<and> da_node A \<and> da_entry A \<and> da_name A")
      case True
      with open_leaf_fresh[OF None, of fl A H] o c show ?thesis by simp
    next
      case False
      with o None i fs_inv_new_inode[OF i(1)] show ?thesis
        by (auto simp: open_leaf_def add_entry_def Let_def split: if_splits)
    qed
  next
    case (Some t)
    with o i(1) fs_inv_set_inode[OF i(1)] show ?thesis
      by (cases t) (auto simp: open_leaf_def inode_truncate_0 Let_def split: if_splits)
  qed
qed

lemma mkdir_keeps_inv:
  assumes i: "fs_inv fs" "d < length (tf_dirs fs)" and m: "mkdir A fs d path = (fs', r)"
  shows "fs_inv fs'"
proof (cases "r = 0")
  case True
  with m obtain p n where r: "resolve fs d path = Inr (p, Some n)" "mkdir_leaf A fs p n = (fs', 0)" by (auto elim: mkdir_ok)
  note l = mkdir_leaf_ok[OF r(2)]
  then have "ns fs (p, n) = None" by (simp add: ns_def)
  from mkdir_links(1)[OF i r(1) this refl conjunct2[OF l]] show ?thesis .
next
  case False
  with m i(1) fs_inv_new_dir[OF i(1)] show ?thesis
    unfolding mkdir_resolve by (auto simp: mkdir_leaf_def add_entry_def Let_def split: sum.splits option.splits prod.splits if_splits)
qed

lemma remove_keeps_inv:
  assumes i: "fs_inv fs" "d < length (tf_dirs fs)"
  shows "unlink fs d path = (fs', r) \<Longrightarrow> fs_inv fs'" and "rmdir fs d path = (fs', r) \<Longrightarrow> fs_inv fs'"
proof -
  have u: "fs_inv (set_head fs p (dir_remove n (dir_head fs p)))" if "resolve fs d path = Inr (p, Some n)" for p n
    by (rule unlink_node(1)[OF i that refl])
  show "unlink fs d path = (fs', r) \<Longrightarrow> fs_inv fs'"
    unfolding unlink_resolve using i(1) u by (auto split: sum.splits option.splits prod.splits tnode.splits)
  show "rmdir fs d path = (fs', r) \<Longrightarrow> fs_inv fs'"
    unfolding rmdir_resolve using i(1) u by (auto split: sum.splits option.splits prod.splits tnode.splits if_splits)
qed

lemma getdents_keeps_inv:
  assumes "fs_inv fs" and "d < length (tf_dirs fs)" and "dir_getdents sz (tf_dirs fs ! d) = (td, out)"
  shows "fs_inv (fs\<lparr>tf_dirs := (tf_dirs fs)[d := td]\<rparr>)"
proof -
  have h: "td_head td = td_head (tf_dirs fs ! d)" using assms(3) by (auto simp: dir_getdents_def Let_def)
  then have e: "dir_head (fs\<lparr>tf_dirs := (tf_dirs fs)[d := td]\<rparr>) = dir_head fs"
    using assms(2) by (intro ext) (auto simp: dir_head_def nth_list_update)
  show ?thesis using assms(1)
    by (rule fs_inv_extend) (use assms(1) e in \<open>auto simp: ns_def fun_eq_iff names_distinct_def fs_inv_def\<close>)
qed

section \<open>Properties\<close>

text \<open>
  C15: whatever sequence of opens, creations, removals, directory reads and file writes is run on
  the in-memory file system, it stays a tree: names of a directory are distinct, non-empty and
  without slashes, every entry refers to an existing file or directory, sub-directories are
  strictly below their parent, and no file or directory has two names.
\<close>

theorem tmpfs_stays_a_tree: "tmpfs_reach fs \<Longrightarrow> fs_inv fs"
proof (induction rule: tmpfs_reach.induct)
  case init
  show ?case by (rule fs_inv_init)
next
  case (open_step fs d A H fl path fs' r)
  then show ?case using open_keeps_inv by blast
next
  case (mkdir_step fs d A path fs' r)
  then show ?case using mkdir_keeps_inv by blast
next
  case (unlink_step fs d path fs' r)
  then show ?case using remove_keeps_inv(1) by blast
next
  case (rmdir_step fs d path fs' r)
  then show ?case using remove_keeps_inv(2) by blast
next
  case (getdents_step fs d sz td out)
  then show ?case using getdents_keeps_inv by blast
qed (simp_all add: fs_inv_set_inode)

definition all_alloc :: dir_alloc where
  "all_alloc = \<lparr>da_node = True, da_entry = True, da_name = True, da_handle = True\<rparr>"

lemma split_path_simps:
  "split_path ''f'' = Some (''f'', None)" "split_path ''a'' = Some (''a'', None)"
  "split_path ''/a//f/'' = Some (''a'', Some ''f/'')" "split_path ''f/'' = Some (''f'', None)"
  by (simp_all add: split_path_def)

definition demo_fs :: tmpfs where
  "demo_fs = fst (mkdir all_alloc tmpfs_init 0 ''a'')"

lemma demo_fs: "demo_fs = \<lparr>tf_inodes = [], tf_dirs = [\<lparr>td_head = [(''a'', Sub 1)], td_pos = 0\<rparr>, tdir_new]\<rparr>"
  unfolding demo_fs_def
  by (subst mkdir.simps)
    (simp add: split_path_simps tmpfs_init_def dir_head_def set_head_def tdir_new_def all_alloc_def add_entry_def Let_def)

lemma demo_fs_reach: "tmpfs_reach demo_fs"
  unfolding demo_fs_def
  by (rule mkdir_step[OF tmpfs_reach.init, of 0 all_alloc "''a''" _ "snd (mkdir all_alloc tmpfs_init 0 ''a'')"])
    (simp_all add: tmpfs_init_def)

lemma demo_fs_inv: "fs_inv demo_fs"
  using mkdir_keeps_inv[OF fs_inv_init, of 0 all_alloc "''a''" demo_fs]
  by (cases "mkdir all_alloc tmpfs_init 0 ''a''") (auto simp: demo_fs_def tmpfs_init_def)

lemma demo_resolve: "resolve demo_fs 0 ''/a//f/'' = Inr (1, Some ''f'')"
  by (subst resolve.simps, simp add: split_path_simps demo_fs dir_head_def, subst resolve.simps, simp add: split_path_simps)

theorem tmpfs_stays_a_tree_witness: "fs_inv demo_fs \<and> ns demo_fs (0, ''a'') = Some (Sub 1)"
  using tmpfs_stays_a_tree[OF demo_fs_reach] by (simp add: ns_def demo_fs dir_head_def)

text \<open>
  Creating a file that does not exist links a new empty file under that name and nothing
  else changes; opening the same path afterwards, without truncation, gives a handle on that very
  file and leaves the file system as it is.
\<close>

lemma tmpfs_create_then_open:
  assumes "fs_inv fs" and "d < length (tf_dirs fs)" and "resolve fs d path = Inr (p, Some n)" and "ns fs (p, n) = None"
    and "fl AND O_CREAT \<noteq> 0" and "da_node A" and "da_entry A" and "da_name A" and "da_handle A"
  shows "\<exists>fs'. get_entry A H fl fs d path = Ret (fs', Inr (TFile (length (tf_inodes fs)) (fl AND O_APPEND \<noteq> 0))) \<and>
    fs_inv fs' \<and> ns fs' = (ns fs)((p, n) \<mapsto> Ino (length (tf_inodes fs))) \<and> tf_inodes fs' = tf_inodes fs @ [inode_new] \<and>
    (\<forall>A' H' fl'. da_handle A' \<longrightarrow> fl' AND O_TRUNC = 0 \<longrightarrow>
       get_entry A' H' fl' fs' d path = Ret (fs', Inr (TFile (length (tf_inodes fs)) (fl' AND O_APPEND \<noteq> 0))))"
proof -
  have v: "p < length (tf_dirs fs)" using resolve_valid[OF assms(1-3)] by simp
  then have f: "dir_find n (dir_head fs p) = None" using assms(4) by (simp add: ns_def)
  define fs' where "fs' = set_head (fs\<lparr>tf_inodes := tf_inodes fs @ [inode_new]\<rparr>) p ((n, Ino (length (tf_inodes fs))) # dir_head fs p)"
  note c = create_links[OF assms(1-4) fs'_def]
  have "get_entry A H fl fs d path = Ret (fs', Inr (TFile (length (tf_inodes fs)) (fl AND O_APPEND \<noteq> 0)))"
    using assms open_leaf_fresh[OF f assms(5-8), of H] by (simp add: get_entry_resolve fs'_def)
  moreover have "get_entry A' H' fl' fs' d path = Ret (fs', Inr (TFile (length (tf_inodes fs)) (fl' AND O_APPEND \<noteq> 0)))"
    if "da_handle A'" "fl' AND O_TRUNC = 0" for A' H' fl'
    using c(3,4) that by (simp add: get_entry_resolve open_leaf_def)
  moreover have "tf_inodes fs' = tf_inodes fs @ [inode_new]" by (simp add: fs'_def)
  ultimately show ?thesis using c(1,2) by blast
qed

lemma tmpfs_create_then_open_witness:
  "\<exists>fs'. get_entry all_alloc demo_heap O_CREAT demo_fs 0 ''/a//f/'' = Ret (fs', Inr (TFile 0 False)) \<and>
     get_entry all_alloc demo_heap 0 fs' 0 ''/a//f/'' = Ret (fs', Inr (TFile 0 False))"
proof -
  have "ns demo_fs (1, ''f'') = None" by (simp add: ns_def demo_fs dir_head_def tdir_new_def)
  from tmpfs_create_then_open[OF demo_fs_inv _ demo_resolve this, of O_CREAT all_alloc demo_heap]
  obtain fs' where a: "get_entry all_alloc demo_heap O_CREAT demo_fs 0 ''/a//f/'' = Ret (fs', Inr (TFile 0 False))"
    and b: "\<forall>A' H' fl'. da_handle A' \<longrightarrow> fl' AND O_TRUNC = 0 \<longrightarrow>
       get_entry A' H' fl' fs' 0 ''/a//f/'' = Ret (fs', Inr (TFile 0 (fl' AND O_APPEND \<noteq> 0)))"
    by (auto simp: demo_fs all_alloc_def O_CREAT_def O_APPEND_def)
  from spec[OF spec[OF spec[OF b, of all_alloc], of demo_heap], of 0] a show ?thesis by (auto simp: all_alloc_def)
qed

text \<open>
  C16: removing a file by its path unlinks exactly that name: the path is gone, every other name
  is kept, and the contents stay with whoever still has the file open.
\<close>

theorem tmpfs_unlink_removes_name:
  assumes "fs_inv fs" and "d < length (tf_dirs fs)" and "resolve fs d path = Inr (p, Some n)" and "ns fs (p, n) = Some (Ino i)"
  shows "\<exists>fs'. unlink fs d path = (fs', 0) \<and> fs_inv fs' \<and> ns fs' = (ns fs)((p, n) := None) \<and>
    tf_inodes fs' = tf_inodes fs \<and> faccessat fs' d path = err ENOENT \<and> unlink fs' d path = (fs', err ENOENT)"
proof -
  define fs' where "fs' = set_head fs p (dir_remove n (dir_head fs p))"
  note u = unlink_node[OF assms(1-3) fs'_def]
  have "dir_find n (dir_head fs p) = Some (Ino i)" using assms(4) by (simp add: ns_def split: if_splits)
  then have "unlink fs d path = (fs', 0)" using assms(3) by (simp add: unlink_resolve fs'_def)
  moreover have "faccessat fs' d path = err ENOENT" "unlink fs' d path = (fs', err ENOENT)"
    using u(3,4) by (simp_all add: faccessat_resolve unlink_resolve)
  ultimately show ?thesis using u(1,2) by (auto simp: fs'_def)
qed

lemma demo_file: "get_entry all_alloc demo_heap O_CREAT tmpfs_init 0 ''f'' =
    Ret (\<lparr>tf_inodes = [inode_new], tf_dirs = [\<lparr>td_head = [(''f'', Ino 0)], td_pos = 0\<rparr>]\<rparr>, Inr (TFile 0 False))"
  by (subst get_entry.simps)
    (simp add: split_path_simps open_leaf_def tmpfs_init_def dir_head_def set_head_def tdir_new_def all_alloc_def add_entry_def
      O_CREAT_def O_APPEND_def Let_def)

theorem tmpfs_unlink_removes_name_witness:
  "\<exists>fs'. unlink \<lparr>tf_inodes = [inode_new], tf_dirs = [\<lparr>td_head = [(''f'', Ino 0)], td_pos = 0\<rparr>]\<rparr> 0 ''f'' = (fs', 0) \<and>
     faccessat fs' 0 ''f'' = err ENOENT"
proof -
  let ?fs = "\<lparr>tf_inodes = [inode_new], tf_dirs = [\<lparr>td_head = [(''f'', Ino 0)], td_pos = 0\<rparr>]\<rparr>"
  have i: "fs_inv ?fs" by (rule open_keeps_inv[OF fs_inv_init _ demo_file]) (simp add: tmpfs_init_def)
  have "resolve ?fs 0 ''f'' = Inr (0, Some ''f'')" by (subst resolve.simps) (simp add: split_path_simps)
  from tmpfs_unlink_removes_name[OF i _ this, of 0] show ?thesis by (auto simp: ns_def dir_head_def)
qed

text \<open>
  A directory that was just made is empty, cannot be made again, and removing it restores
  every name to what it was before.
\<close>

lemma tmpfs_mkdir_rmdir:
  assumes "fs_inv fs" and "d < length (tf_dirs fs)" and "mkdir A fs d path = (fs1, 0)"
  shows "mkdir A' fs1 d path = (fs1, err EEXIST) \<and>
    get_entry A' H fl fs1 d path = Ret (fs1, Inr (TDir (length (tf_dirs fs)))) \<and>
    td_head (tf_dirs fs1 ! length (tf_dirs fs)) = [] \<and>
    (\<exists>fs2. rmdir fs1 d path = (fs2, 0) \<and> fs_inv fs2 \<and> ns fs2 = ns fs \<and> tf_inodes fs2 = tf_inodes fs)"
proof -
  obtain p n where r: "resolve fs d path = Inr (p, Some n)" "mkdir_leaf A fs p n = (fs1, 0)" by (rule mkdir_ok[OF assms(3)])
  note k = mkdir_leaf_ok[OF r(2)]
  then have f: "ns fs (p, n) = None" by (simp add: ns_def)
  note l = mkdir_links[OF assms(1,2) r(1) f refl conjunct2[OF k]]
  have d1: "d < length (tf_dirs fs1)" using k assms(2) by simp
  define fs2 where "fs2 = set_head fs1 p (dir_remove n (dir_head fs1 p))"
  note u = unlink_node[OF l(1) d1 l(3) fs2_def]
  have "rmdir fs1 d path = (fs2, 0)" using l(3,4,5) by (simp add: rmdir_resolve fs2_def)
  moreover have "ns fs2 = ns fs" unfolding u(2) l(2) using f by (auto simp: fun_eq_iff)
  moreover have "tf_inodes fs2 = tf_inodes fs" using k by (simp add: fs2_def)
  moreover have "mkdir A' fs1 d path = (fs1, err EEXIST)" using l(3,4) by (simp add: mkdir_resolve mkdir_leaf_def)
  moreover have "get_entry A' H fl fs1 d path = Ret (fs1, Inr (TDir (length (tf_dirs fs))))"
    using l(3,4) by (simp add: get_entry_resolve open_leaf_def)
  ultimately show ?thesis using u(1) l(5) unfolding dir_head_def by blast
qed

lemma tmpfs_mkdir_rmdir_witness:
  "\<exists>fs2. rmdir demo_fs 0 ''a'' = (fs2, 0) \<and> ns fs2 = ns tmpfs_init"
proof -
  have "mkdir all_alloc tmpfs_init 0 ''a'' = (demo_fs, 0)"
    unfolding demo_fs
    by (subst mkdir.simps)
      (simp add: split_path_simps tmpfs_init_def dir_head_def set_head_def tdir_new_def all_alloc_def add_entry_def Let_def)
  from tmpfs_mkdir_rmdir[OF fs_inv_init _ this, of all_alloc demo_heap 0] show ?thesis by (auto simp: tmpfs_init_def)
qed

text \<open>
  A directory can be removed exactly when its path names an existing directory without
  entries; otherwise an error is returned and nothing changes.
\<close>

lemma tmpfs_rmdir_only_empty:
  assumes "fs_inv fs" and "d < length (tf_dirs fs)"
  shows "(snd (rmdir fs d path) = 0 \<longleftrightarrow>
      (\<exists>p n s. resolve fs d path = Inr (p, Some n) \<and> ns fs (p, n) = Some (Sub s) \<and> (\<forall>m. ns fs (s, m) = None))) \<and>
    (snd (rmdir fs d path) \<noteq> 0 \<longrightarrow> fst (rmdir fs d path) = fs)"
proof -
  have e: "(\<forall>m. dir_find m es = None) \<longleftrightarrow> es = []" for es by (cases es) (auto intro: exI[of _ "fst (hd es)"])
  show ?thesis
  proof (cases "\<exists>p n. resolve fs d path = Inr (p, Some n)")
    case False
    then show ?thesis by (auto simp: rmdir_resolve split: sum.splits option.splits prod.splits)
  next
    case True
    then obtain p n where r: "resolve fs d path = Inr (p, Some n)" by blast
    have p: "p < length (tf_dirs fs)" using resolve_valid[OF assms r] by simp
    have "(\<forall>m. ns fs (s, m) = None) \<longleftrightarrow> dir_head fs s = []" if "dir_find n (dir_head fs p) = Some (Sub s)" for s
      using sub_valid[OF assms(1) p that] e[of "dir_head fs s"] by (simp add: ns_def)
    with r p show ?thesis by (auto simp: rmdir_resolve ns_find split: option.splits tnode.splits if_splits)
  qed
qed

lemma tmpfs_rmdir_only_empty_witness: "snd (rmdir demo_fs 0 ''a'') = 0"
proof -
  have "resolve demo_fs 0 ''a'' = Inr (0, Some ''a'')" by (subst resolve.simps) (simp add: split_path_simps)
  with tmpfs_rmdir_only_empty[OF demo_fs_inv, of 0 "''a''"] show ?thesis
    by (simp add: demo_fs ns_def dir_head_def tdir_new_def)
qed

section \<open>Reading directories\<close>

definition tmp_dirent :: "string \<times> tnode \<Rightarrow> dirent" where
  "tmp_dirent e =
     \<lparr>de_ino = 1, de_off = 0, de_reclen = reclen_of (min (length (fst e) + 1) 256),
      de_type = (case snd e of Sub s \<Rightarrow> DT_DIR | Ino i \<Rightarrow> DT_REG), de_name = clip_name (fst e)\<rparr>"

lemma getdents_loop_take:
  "getdents_loop es sz = take (length (getdents_loop es sz)) (map tmp_dirent es)"
  by (induction es sz rule: getdents_loop.induct) (simp_all add: Let_def tmp_dirent_def clip_name_def)

lemma getdents_loop_nonempty: "es \<noteq> [] \<Longrightarrow> de_reclen (tmp_dirent (hd es)) \<le> sz \<Longrightarrow> getdents_loop es sz \<noteq> []"
  by (cases es) (simp_all add: Let_def tmp_dirent_def)

text \<open>The records of one call fit the buffer.\<close>

lemma getdents_loop_fits: "sum_list (map de_reclen (getdents_loop es sz)) \<le> sz"
proof (induction es arbitrary: sz)
  case (Cons e es)
  from Cons[of "sz - reclen_of (min (length (fst e) + 1) 256)"] show ?case by (auto simp: Let_def)
qed simp

interpretation tmpdir: dirent_stream "\<lambda>_. True" "\<lambda>td. map tmp_dirent (td_head td)" td_pos dir_getdents de_reclen "{id}"
proof (unfold_locales, goal_cases)
  case (2 s sz s' es)
  then have "es = getdents_loop (drop (td_pos s) (td_head s)) sz" by (simp add: dir_getdents_def Let_def)
  then show ?case using getdents_loop_take[of "drop (td_pos s) (td_head s)" sz] by (simp add: drop_map)
next
  case (5 s sz s' es)
  then show ?case using getdents_loop_nonempty[of "drop (td_pos s) (td_head s)" sz]
    by (auto simp: dir_getdents_def Let_def hd_drop_conv_nth)
qed (auto simp: dir_getdents_def Let_def)



end
