(* ===== verification/Devfs.thy ===== *)
theory Devfs
  imports Dirents "HOL-Library.List_Lexorder" "HOL-Library.Char_ord"
begin

text \<open>
  The device file system, \<^verbatim>\<open>pkg/devfs/lib/devfs.cc\<close>: a registry of named device files, the
  built-in \<^verbatim>\<open>null\<close> and \<^verbatim>\<open>zero\<close> devices, and the directory object mounted at \<^verbatim>\<open>/dev\<close>. The
  registry is a \<^verbatim>\<open>std::map\<close> keyed by strings: an association list kept in the order of the
  keys. The files of drivers come from outside, they are values of a type parameter.
\<close>

section \<open>Ordered maps\<close>

fun map_put :: "'k::linorder \<Rightarrow> 'v \<Rightarrow> ('k \<times> 'v) list \<Rightarrow> ('k \<times> 'v) list" where
  "map_put k v [] = [(k, v)]"
| "map_put k v (e # es) =
     (if k < fst e then (k, v) # e # es else if k = fst e then (k, v) # es else e # map_put k v es)"

fun map_erase :: "'k::linorder \<Rightarrow> ('k \<times> 'v) list \<Rightarrow> ('k \<times> 'v) list" where
  "map_erase k [] = []"
| "map_erase k (e # es) = (if k = fst e then es else e # map_erase k es)"

definition keys_sorted :: "('k::linorder \<times> 'v) list \<Rightarrow> bool" where
  "keys_sorted m \<longleftrightarrow> sorted_wrt (<) (map fst m)"

datatype ('k, 'v) kv_op = Put 'k 'v | Del 'k

fun kv_do :: "('k \<Rightarrow> 'v \<Rightarrow> 'm \<Rightarrow> 'm) \<Rightarrow> ('k \<Rightarrow> 'm \<Rightarrow> 'm) \<Rightarrow> 'm \<Rightarrow> ('k, 'v) kv_op \<Rightarrow> 'm" where
  "kv_do put del m (Put k v) = put k v m"
| "kv_do put del m (Del k) = del k m"

fun kv_spec :: "('k \<Rightarrow> 'v option) \<Rightarrow> ('k, 'v) kv_op \<Rightarrow> 'k \<Rightarrow> 'v option" where
  "kv_spec f (Put k v) = f(k \<mapsto> v)"
| "kv_spec f (Del k) = f(k := None)"

locale name_map =
  fixes ok :: "'m \<Rightarrow> bool"
    and lookup :: "'m \<Rightarrow> 'k \<Rightarrow> 'v option"
    and put :: "'k \<Rightarrow> 'v \<Rightarrow> 'm \<Rightarrow> 'm"
    and del :: "'k \<Rightarrow> 'm \<Rightarrow> 'm"
  assumes put_ok: "ok m \<Longrightarrow> ok (put k v m)"
    and del_ok: "ok m \<Longrightarrow> ok (del k m)"
    and lookup_put: "ok m \<Longrightarrow> lookup (put k v m) = (lookup m)(k \<mapsto> v)"
    and lookup_del: "ok m \<Longrightarrow> lookup (del k m) = (lookup m)(k := None)"
begin

lemma kv_ok: "ok m \<Longrightarrow> ok (foldl (kv_do put del) m ops)"
proof (induction ops arbitrary: m)
  case (Cons op ops)
  then show ?case by (cases op) (simp_all add: put_ok del_ok)
qed simp

text \<open>Looking a key up gives what the last operation on it left.\<close>

lemma kv_refines: "ok m \<Longrightarrow> lookup (foldl (kv_do put del) m ops) = foldl kv_spec (lookup m) ops"
proof (induction ops arbitrary: m)
  case (Cons op ops)
  then show ?case by (cases op) (simp_all add: put_ok del_ok lookup_put lookup_del fun_upd_def)
qed simp

end

lemma set_map_put: "set (map fst (map_put k v m)) = insert k (set (map fst m))"
  by (induction m) auto

lemma set_map_erase: "set (map_erase k m) \<subseteq> set m"
  by (induction m) auto

lemma keys_sorted_put: "keys_sorted m \<Longrightarrow> keys_sorted (map_put k v m)"
proof (induction m)
  case (Cons e m)
  then show ?case using set_map_put[of k v m] by (auto simp: keys_sorted_def less_trans)
qed (simp add: keys_sorted_def)

lemma keys_sorted_erase: "keys_sorted m \<Longrightarrow> keys_sorted (map_erase k m)"
proof (induction m)
  case (Cons e m)
  then show ?case using set_map_erase[of k m] by (auto simp: keys_sorted_def subset_iff)
qed (simp add: keys_sorted_def)

lemma map_of_put: "keys_sorted m \<Longrightarrow> map_of (map_put k v m) = (map_of m)(k \<mapsto> v)"
proof (induction m)
  case (Cons e m)
  then show ?case by (cases e) (auto simp: keys_sorted_def fun_eq_iff)
qed simp

lemma map_of_erase: "keys_sorted m \<Longrightarrow> map_of (map_erase k m) = (map_of m)(k := None)"
proof (induction m)
  case (Cons e m)
  moreover have "map_of m (fst e) = None"
    using Cons.prems by (auto simp: keys_sorted_def map_of_eq_None_iff)
  ultimately show ?case by (cases e) (auto simp: keys_sorted_def fun_eq_iff)
qed simp

interpretation ordered: name_map keys_sorted map_of map_put map_erase
  by unfold_locales (simp_all add: keys_sorted_put keys_sorted_erase map_of_put map_of_erase)

section \<open>Device files\<close>

datatype 'd dev_node = Null_file | Zero_file | Driver_file 'd

text \<open>Buffers are given by their lengths; \<^verbatim>\<open>total\<close> is a 32-bit \<^verbatim>\<open>ssize_t\<close>.\<close>

definition null_readv :: "size_t list \<Rightarrow> int" where
  "null_readv iov = 0"

fun writev_total :: "size_t list \<Rightarrow> size_t \<Rightarrow> size_t" where
  "writev_total [] tot = tot"
| "writev_total (l # ls) tot = writev_total ls (tot + l)"

definition null_writev :: "size_t list \<Rightarrow> int" where
  "null_writev iov = sint (writev_total iov 0)"

text \<open>\<^verbatim>\<open>S_IFCHR | 0666\<close> is 8630.\<close>

definition null_fstat :: stat_buf where
  "null_fstat = stat_zero\<lparr>st_mode := 8630, st_rdev := (1, 3), st_nlink := 1\<rparr>"

definition zero_readv :: "size_t list \<Rightarrow> string list \<times> int" where
  "zero_readv iov = (map (\<lambda>l. replicate (unat l) NUL) iov, sint (writev_total iov 0))"

definition zero_writev :: "size_t list \<Rightarrow> int" where
  "zero_writev iov = sint (writev_total iov 0)"

definition zero_fstat :: stat_buf where
  "zero_fstat = stat_zero\<lparr>st_mode := 8630, st_rdev := (1, 5), st_nlink := 1\<rparr>"

text \<open>The default of \<^verbatim>\<open>Device_file\<close>.\<close>

definition device_fstat :: stat_buf where
  "device_fstat = stat_zero\<lparr>st_mode := 8630, st_nlink := 1\<rparr>"

section \<open>The registry and the directory\<close>

record 'd devfs =
  dv_devices :: "(string \<times> 'd dev_node) list"
  dv_idx :: nat
  dv_snap :: "string list"

definition register_device :: "string option \<Rightarrow> 'd dev_node option \<Rightarrow> 'd devfs \<Rightarrow> 'd devfs \<times> int" where
  "register_device name file s =
     (case (name, file) of
        (Some n, Some f) \<Rightarrow> (s\<lparr>dv_devices := map_put n f (dv_devices s)\<rparr>, 0)
      | _ \<Rightarrow> (s, err EINVAL))"

definition unregister_device :: "string option \<Rightarrow> 'd devfs \<Rightarrow> 'd devfs \<times> int" where
  "unregister_device name s =
     (case name of
        None \<Rightarrow> (s, err EINVAL)
      | Some n \<Rightarrow> (s\<lparr>dv_devices := map_erase n (dv_devices s)\<rparr>,
                   if map_of (dv_devices s) n \<noteq> None then 0 else err ENOENT))"

text \<open>What \<^verbatim>\<open>init\<close> mounts.\<close>

definition devfs_init :: "'d devfs" where
  "devfs_init =
     fst (register_device (Some ''zero'') (Some Zero_file)
       (fst (register_device (Some ''null'') (Some Null_file) \<lparr>dv_devices = [], dv_idx = 0, dv_snap = []\<rparr>)))"

datatype 'd dev_entry = Dev_dir | Dev_open "'d dev_node"

definition devfs_get_entry :: "string \<Rightarrow> 'd devfs \<Rightarrow> errno + 'd dev_entry" where
  "devfs_get_entry path s =
     (if path = [] \<or> path = ''.'' then Inr Dev_dir
      else case map_of (dv_devices s) path of None \<Rightarrow> Inl ENOENT | Some f \<Rightarrow> Inr (Dev_open f))"

text \<open>\<^verbatim>\<open>S_IFDIR | 0555\<close> is 16749.\<close>

definition devfs_fstat :: stat_buf where
  "devfs_fstat = stat_zero\<lparr>st_mode := 16749, st_ino := 1, st_nlink := 2\<rparr>"

definition devfs_faccessat :: "string \<Rightarrow> 'd devfs \<Rightarrow> int" where
  "devfs_faccessat path s =
     (if path = [] \<or> path = ''.'' then 0
      else if map_of (dv_devices s) path \<noteq> None then 0 else err ENOENT)"

definition devfs_name :: "string list \<Rightarrow> nat \<Rightarrow> string \<times> dtype" where
  "devfs_name snap idx =
     (if idx = 0 then (''.'', DT_DIR) else if idx = 1 then (''..'', DT_DIR) else (snap ! (idx - 2), DT_CHR))"

function devfs_fill :: "string list \<Rightarrow> nat \<Rightarrow> nat \<Rightarrow> dirent list" where
  "devfs_fill snap idx sz =
     (if idx < 2 + length snap \<and> 0 < sz
      then let (name, ty) = devfs_name snap idx; n = reclen_of (length name + 1)
           in if n > sz then []
              else \<lparr>de_ino = idx + 1, de_off = idx + 1, de_reclen = n mod 65536, de_type = ty, de_name = name\<rparr>
                   # devfs_fill snap (idx + 1) (sz - n)
      else [])"
  by pat_completeness auto
termination by (relation "measure (\<lambda>(snap, idx, sz). 2 + length snap - idx)") auto

declare devfs_fill.simps [simp del]

definition devfs_getdents :: "nat \<Rightarrow> 'd devfs \<Rightarrow> 'd devfs \<times> dirent list" where
  "devfs_getdents sz s =
     (let snap = (if dv_idx s = 0 then map fst (dv_devices s) else dv_snap s);
          out = devfs_fill snap (dv_idx s) sz
      in (s\<lparr>dv_snap := snap, dv_idx := (if out = [] then 0 else dv_idx s + length out)\<rparr>, out))"

section \<open>The listing\<close>

definition dev_dirent :: "string list \<Rightarrow> nat \<Rightarrow> dirent" where
  "dev_dirent snap idx =
     \<lparr>de_ino = idx + 1, de_off = idx + 1, de_reclen = reclen_of (length (fst (devfs_name snap idx)) + 1) mod 65536,
      de_type = snd (devfs_name snap idx), de_name = fst (devfs_name snap idx)\<rparr>"

definition listing_of :: "string list \<Rightarrow> dirent list" where
  "listing_of snap = map (dev_dirent snap) [0..<2 + length snap]"

definition devfs_items :: "'d devfs \<Rightarrow> dirent list" where
  "devfs_items s = listing_of (if dv_idx s = 0 then map fst (dv_devices s) else dv_snap s)"

definition rec_need :: "dirent \<Rightarrow> nat" where
  "rec_need e = reclen_of (length (de_name e) + 1)"

lemma drop_listing: "idx < 2 + length snap \<Longrightarrow> drop idx (listing_of snap) = dev_dirent snap idx # drop (Suc idx) (listing_of snap)"
  by (subst Cons_nth_drop_Suc[symmetric]) (simp_all add: listing_of_def del: upt_Suc)

lemma devfs_fill_take:
  "devfs_fill snap idx sz = take (length (devfs_fill snap idx sz)) (drop idx (listing_of snap))"
proof (induction snap idx sz rule: devfs_fill.induct)
  case (1 snap idx sz)
  obtain name ty where n: "devfs_name snap idx = (name, ty)" by fastforce
  define k where "k = reclen_of (length name + 1)"
  show ?case
  proof (cases "idx < 2 + length snap \<and> 0 < sz \<and> k \<le> sz")
    case True
    then have "devfs_fill snap idx sz = dev_dirent snap idx # devfs_fill snap (idx + 1) (sz - k)"
      by (subst devfs_fill.simps) (simp add: n k_def dev_dirent_def Let_def)
    moreover have "devfs_fill snap (idx + 1) (sz - k) =
        take (length (devfs_fill snap (idx + 1) (sz - k))) (drop (Suc idx) (listing_of snap))"
      using 1[OF _ n[symmetric] refl k_def] True by simp
    ultimately show ?thesis using True by (simp add: drop_listing)
  next
    case False
    then have "devfs_fill snap idx sz = []" by (subst devfs_fill.simps) (auto simp: n k_def Let_def)
    then show ?thesis by simp
  qed
qed

lemma devfs_fill_nonempty:
  assumes "idx < 2 + length snap" and "rec_need (dev_dirent snap idx) \<le> sz"
  shows "devfs_fill snap idx sz \<noteq> []"
proof -
  have "0 < sz" using assms(2) reclen_of_bounds(1)[of "length (de_name (dev_dirent snap idx)) + 1"] by (simp add: rec_need_def)
  then show ?thesis using assms
    by (subst devfs_fill.simps) (auto simp: rec_need_def dev_dirent_def Let_def split: prod.split)
qed

text \<open>What others may do to the registry while a directory is read.\<close>

definition registry_op :: "(string, 'd dev_node) kv_op \<Rightarrow> 'd devfs \<Rightarrow> 'd devfs" where
  "registry_op op s =
     (case op of Put n f \<Rightarrow> fst (register_device (Some n) (Some f) s) | Del n \<Rightarrow> fst (unregister_device (Some n) s))"

definition registry_ops :: "(string, 'd dev_node) kv_op list \<Rightarrow> 'd devfs \<Rightarrow> 'd devfs" where
  "registry_ops ops s = foldl (\<lambda>s op. registry_op op s) s ops"

lemma registry_ops_devices: "dv_devices (registry_ops ops s) = foldl (kv_do map_put map_erase) (dv_devices s) ops"
  and registry_ops_cursor [simp]: "dv_idx (registry_ops ops s) = dv_idx s" "dv_snap (registry_ops ops s) = dv_snap s"
proof (induction ops arbitrary: s)
  case (Cons op ops)
  { case 1 show ?case using Cons(1)[of "registry_op op s"]
      by (cases op) (simp_all add: registry_ops_def registry_op_def register_device_def unregister_device_def) }
  { case 2 show ?case using Cons(2)[of "registry_op op s"]
      by (cases op) (simp_all add: registry_ops_def registry_op_def register_device_def unregister_device_def) }
  { case 3 show ?case using Cons(3)[of "registry_op op s"]
      by (cases op) (simp_all add: registry_ops_def registry_op_def register_device_def unregister_device_def) }
qed (simp_all add: registry_ops_def)

interpretation devdir: dirent_stream "\<lambda>_. True" devfs_items dv_idx devfs_getdents rec_need "range registry_ops"
proof (unfold_locales, goal_cases)
  case (2 s sz s' es)
  then show ?case
    using devfs_fill_take[of "if dv_idx s = 0 then map fst (dv_devices s) else dv_snap s" "dv_idx s" sz]
    by (simp add: devfs_getdents_def devfs_items_def Let_def)
next
  case (3 s sz s' es)
  then show ?case by (auto simp: devfs_getdents_def devfs_items_def Let_def split: if_splits)
next
  case (4 s sz s')
  then show ?case by (auto simp: devfs_getdents_def Let_def)
next
  case (5 s sz s' es)
  define snap where "snap = (if dv_idx s = 0 then map fst (dv_devices s) else dv_snap s)"
  have l: "dv_idx s < 2 + length snap" "devfs_items s ! dv_idx s = dev_dirent snap (dv_idx s)"
    using 5(2) by (auto simp: devfs_items_def snap_def[symmetric] listing_of_def simp del: upt_Suc)
  have "es = devfs_fill snap (dv_idx s) sz" using 5(4) by (simp add: devfs_getdents_def snap_def Let_def)
  with devfs_fill_nonempty[OF l(1)] 5(3) l(2) show ?case by simp
qed (auto simp: devfs_items_def)

section \<open>Properties\<close>

text \<open>
  C18: whatever sequence of registrations and removals ran after the device file system came up,
  a name of \<^verbatim>\<open>/dev\<close> opens the file registered last under it, and \<^verbatim>\<open>null\<close> and \<^verbatim>\<open>zero\<close> unless they
  were replaced; a name that was never registered, or whose last operation was its removal, does
  not exist, for opening and for the access check alike.
\<close>

theorem devfs_lookup_last_registered:
  fixes ops :: "(string, 'd dev_node) kv_op list"
  assumes "path \<noteq> []" and "path \<noteq> ''.''"
  shows "devfs_get_entry path (registry_ops ops devfs_init) =
      (case foldl kv_spec [''null'' \<mapsto> Null_file, ''zero'' \<mapsto> Zero_file] ops path of
         None \<Rightarrow> Inl ENOENT | Some f \<Rightarrow> Inr (Dev_open f)) \<and>
    (devfs_faccessat path (registry_ops ops devfs_init) = 0 \<longleftrightarrow>
      foldl kv_spec [''null'' \<mapsto> Null_file, ''zero'' \<mapsto> Zero_file] ops path \<noteq> None)"
proof -
  have i: "dv_devices (devfs_init :: 'd devfs) = map_put ''zero'' Zero_file (map_put ''null'' Null_file [])"
    by (simp add: devfs_init_def register_device_def)
  have k: "keys_sorted (dv_devices (devfs_init :: 'd devfs))" unfolding i by (intro keys_sorted_put) (simp add: keys_sorted_def)
  have m: "map_of (dv_devices (devfs_init :: 'd devfs)) = [''null'' \<mapsto> Null_file, ''zero'' \<mapsto> Zero_file]"
    unfolding i by (auto simp: map_of_put keys_sorted_put keys_sorted_def fun_eq_iff)
  from ordered.kv_refines[OF k, of ops] m
  have "map_of (dv_devices (registry_ops ops devfs_init)) = foldl kv_spec [''null'' \<mapsto> Null_file, ''zero'' \<mapsto> Zero_file] ops"
    by (simp add: registry_ops_devices)
  then show ?thesis using assms by (simp add: devfs_get_entry_def devfs_faccessat_def)
qed

theorem devfs_lookup_last_registered_witness:
  "devfs_get_entry ''i2c'' (registry_ops [Put ''i2c'' (Driver_file (7::nat)), Del ''zero''] devfs_init) =
     Inr (Dev_open (Driver_file 7))"
  using devfs_lookup_last_registered[of "''i2c''" "[Put ''i2c'' (Driver_file (7::nat)), Del ''zero'']"] by simp

text \<open>
  Reading \<^verbatim>\<open>/dev\<close> lists the two dot entries and then every device that was registered when
  the reading began, each exactly once and in alphabetical order, even when devices are
  registered and removed between the calls.
\<close>

lemma devfs_listing_is_snapshot:
  assumes "keys_sorted (dv_devices s)" and "dv_idx s = 0" and "\<forall>n \<in> fst ` set (dv_devices s). length n + 23 \<le> sz"
    and "25 \<le> sz" and "length (dv_devices s) + 2 < length opss"
  shows "(\<exists>s'. read_all (devfs_getdents sz) (map registry_ops opss) s = (s', listing_of (map fst (dv_devices s)))) \<and>
    map de_name (listing_of (map fst (dv_devices s))) = ''.'' # ''..'' # map fst (dv_devices s) \<and>
    sorted_wrt (<) (map fst (dv_devices s))"
proof -
  obtain s' es where r: "read_all (devfs_getdents sz) (map registry_ops opss) s = (s', es)" by fastforce
  let ?snap = "map fst (dv_devices s)"
  have it: "devfs_items s = listing_of ?snap" using assms(2) by (simp add: devfs_items_def)
  have names: "map de_name (listing_of ?snap) = ''.'' # ''..'' # ?snap"
    by (rule nth_equalityI)
      (auto simp: listing_of_def dev_dirent_def devfs_name_def nth_Cons' numeral_2_eq_2 simp del: upt_Suc)
  have "rec_need e \<le> sz" if "e \<in> set (devfs_items s)" for e
  proof -
    have "de_name e \<in> set (''.'' # ''..'' # ?snap)" using that names unfolding it by (metis image_eqI list.set_map)
    then have "length (de_name e) + 23 \<le> sz" using assms(3,4) by auto
    then show ?thesis using reclen_of_bounds(2)[of "length (de_name e) + 1"] by (simp add: rec_need_def)
  qed
  with devdir.read_all_lists[OF _ _ _ _ _ r] assms it
  have "es = listing_of ?snap" by (auto simp: listing_of_def simp del: upt_Suc)
  with r names assms(1) show ?thesis by (auto simp: keys_sorted_def)
qed

lemma devfs_listing_is_snapshot_witness:
  "\<exists>s'. read_all (devfs_getdents 64) (map registry_ops [[Del ''null''], [Put ''a'' (Driver_file (1::nat))], [], [], []]) devfs_init =
     (s', listing_of [''null'', ''zero''])"
proof -
  have i: "dv_devices (devfs_init :: nat devfs) = [(''null'', Null_file), (''zero'', Zero_file)]"
    by (simp add: devfs_init_def register_device_def less_char_def)
  have "dv_idx (devfs_init :: nat devfs) = 0" by (simp add: devfs_init_def register_device_def)
  with devfs_listing_is_snapshot[of "devfs_init :: nat devfs" 64 "[[Del ''null''], [Put ''a'' (Driver_file 1)], [], [], []]"] i
  show ?thesis by (simp add: keys_sorted_def less_char_def)
qed

end
