(* ===== verification/Procfs.thy ===== *)
theory Procfs
  imports Dirents Spawnd
begin

text \<open>
  The synthetic read-only file systems \<^verbatim>\<open>/proc\<close>, \<^verbatim>\<open>/sys\<close> and \<^verbatim>\<open>/svc\<close> of
  \<^verbatim>\<open>pkg/procfs/src/procfs.cc\<close> and the device table they share with the device manager
  (\<^verbatim>\<open>pkg/devmgr\<close>). A generator prints into a buffer of a given capacity and returns the length
  of the text as \<^verbatim>\<open>snprintf\<close> does; opening a file takes a snapshot of its generator. What the
  generators ask the kernel and the servers for is the record \<open>proc_env\<close>.
\<close>

section \<open>Data sources\<close>

record proc_env =
  pe_clock :: "int \<times> int"
  pe_cpus :: "u32 option"
  pe_mem :: "(u64 \<times> u64) option"
  pe_spawnd :: "(u32 \<Rightarrow> errno + (u64 \<times> u32 \<times> u32)) option"
  pe_dev :: "(string \<Rightarrow> bool) option"
  pe_slot :: bool
  pe_caps :: "string \<Rightarrow> bool"

definition ARCH :: string where "ARCH = ''armv7''"

text \<open>\<^verbatim>\<open>__builtin_popcountl\<close> of the scheduler's processor map.\<close>

definition cpu_count :: "proc_env \<Rightarrow> nat" where
  "cpu_count E = (case pe_cpus E of None \<Rightarrow> 1 | Some m \<Rightarrow> length (filter (bit m) [0..<32]))"

section \<open>Generators\<close>

type_synonym gen_fn = "proc_env \<Rightarrow> nat \<Rightarrow> string \<times> nat"

text \<open>\<^verbatim>\<open>w += snprintf(buf + w, n - w, ...)\<close>: what the buffer holds, and the count.\<close>

definition emit :: "nat \<Rightarrow> string \<times> nat \<Rightarrow> string \<Rightarrow> string \<times> nat" where
  "emit n bw t = (fst bw @ snprintf_buf (n - snd bw) t, snd bw + length t)"

definition gen_uptime :: gen_fn where
  "gen_uptime E n =
     (let (sec, nsec) = pe_clock E
      in emit n ([], 0) (show_int sec @ ''.'' @ pad_left (CHR ''0'') 2 (show_int (nsec div 10000000)) @ '' 0.00'' @ ''\<newline>''))"

definition gen_meminfo :: gen_fn where
  "gen_meminfo E n =
     (let (tot, free) = (case pe_mem E of None \<Rightarrow> (0, 0) | Some (l, f) \<Rightarrow> (ucast (l div 1024) :: u32, ucast (f div 1024) :: u32))
      in emit n ([], 0) (''MemTotal:    '' @ pad_left (CHR '' '') 8 (show_nat (unat tot)) @ '' kB\<newline>'' @
           ''MemFree:     '' @ pad_left (CHR '' '') 8 (show_nat (unat free)) @ '' kB\<newline>''))"

definition gen_version :: gen_fn where
  "gen_version E n = emit n ([], 0) (''TuringOS version Fiasco.OC/L4Re ('' @ ARCH @ '')\<newline>'')"

function cpuinfo_loop :: "nat \<Rightarrow> nat \<Rightarrow> nat \<Rightarrow> string \<times> nat \<Rightarrow> string \<times> nat" where
  "cpuinfo_loop ncpu n i bw =
     (if i < ncpu \<and> snd bw < n
      then cpuinfo_loop ncpu n (i + 1)
             (emit n bw (''processor'' @ [CHR 0x09] @ '': '' @ show_nat i @ ''\<newline>'' @
                         ''architecture'' @ [CHR 0x09] @ '': '' @ ARCH @ ''\<newline>\<newline>''))
      else bw)"
  by pat_completeness auto
termination by (relation "measure (\<lambda>(ncpu, n, i, bw). ncpu - i)") auto

definition gen_cpuinfo :: gen_fn where
  "gen_cpuinfo E n = cpuinfo_loop (cpu_count E) n 0 ([], 0)"

definition gen_cpu_online :: gen_fn where
  "gen_cpu_online E n =
     (if cpu_count E \<le> 1 then emit n ([], 0) ''0\<newline>''
      else emit n ([], 0) (''0-'' @ show_nat (cpu_count E - 1) @ ''\<newline>''))"

definition task_line :: "u64 \<times> u32 \<times> u32 \<Rightarrow> string" where
  "task_line r =
     (case r of (cpu_us, st, h) \<Rightarrow>
        pad_left (CHR '' '') 6 (show_nat (unat h)) @ ''  '' @
        pad_right 7 (if st = 1 then ''RUNNING'' else if st = 2 then ''EXITED'' else ''?'') @ ''  '' @
        show_nat (unat cpu_us) @ ''\<newline>'')"

function tasks_loop :: "(u32 \<Rightarrow> errno + (u64 \<times> u32 \<times> u32)) \<Rightarrow> nat \<Rightarrow> nat \<Rightarrow> string \<times> nat \<Rightarrow> string \<times> nat" where
  "tasks_loop task_stat n slot bw =
     (if slot < 32 \<and> snd bw < n
      then tasks_loop task_stat n (slot + 1)
             (case task_stat (of_nat slot) of Inl _ \<Rightarrow> bw | Inr r \<Rightarrow> emit n bw (task_line r))
      else bw)"
  by pat_completeness auto
termination by (relation "measure (\<lambda>(task_stat, n, slot, bw). 32 - slot)") auto

declare cpuinfo_loop.simps [simp del] tasks_loop.simps [simp del]

definition tasks_header :: string where
  "tasks_header = ''HANDLE  STATE    CPU_US\<newline>''"

definition gen_tasks :: gen_fn where
  "gen_tasks E n =
     (let bw = emit n ([], 0) tasks_header
      in case pe_spawnd E of None \<Rightarrow> bw | Some task_stat \<Rightarrow> tasks_loop task_stat n 0 bw)"

definition svc_line :: "string \<Rightarrow> string \<Rightarrow> string \<Rightarrow> gen_fn" where
  "svc_line name proto capname E n =
     emit n ([], 0) (pad_right 8 name @ '' '' @ pad_right 16 proto @ '' '' @ (if pe_caps E capname then ''up'' else ''absent'') @ ''\<newline>'')"

definition gen_svc_authd :: gen_fn where
  "gen_svc_authd = svc_line ''authd'' ''Auth_svr/0x5905'' ''authd''"

definition gen_svc_spawnd :: gen_fn where
  "gen_svc_spawnd = svc_line ''spawnd'' ''Spawn_svr/0x5901'' ''spawnd''"

definition gen_svc_syslogd :: gen_fn where
  "gen_svc_syslogd = svc_line ''syslogd'' ''Klog_svr/0x5900'' ''syslogd''"

text \<open>The managed devices.\<close>

record dev_row =
  dr_name :: string
  dr_cls :: string
  dr_driver :: string

definition g_device_table :: "dev_row list" where
  "g_device_table =
     [\<lparr>dr_name = ''temp0'', dr_cls = ''sensor'', dr_driver = ''rom/ds18b20-server''\<rparr>,
      \<lparr>dr_name = ''radio0'', dr_cls = ''tuner'', dr_driver = ''rom/tef6686hn-server''\<rparr>]"

definition dev_online :: "proc_env \<Rightarrow> string \<Rightarrow> bool" where
  "dev_online E name =
     (case pe_dev E of None \<Rightarrow> False | Some query \<Rightarrow> if \<not> pe_slot E then False else query name)"

definition gen_device :: "nat \<Rightarrow> gen_fn" where
  "gen_device idx E n =
     (let e = g_device_table ! idx
      in emit n ([], 0) (''name:   '' @ dr_name e @ ''\<newline>class:  '' @ dr_cls e @ ''\<newline>status: '' @
           (if dev_online E (dr_name e) then ''online'' else ''offline'') @ ''\<newline>driver: '' @ dr_driver e @ ''\<newline>''))"

section \<open>Generated files\<close>

record gen_file =
  gf_buf :: "string option"
  gf_size :: nat

text \<open>\<^verbatim>\<open>Gen_file\<close> (8192 bytes) and \<^verbatim>\<open>Dev_file\<close> (1024 bytes); \<open>ok\<close>: \<^verbatim>\<open>malloc\<close> succeeds.\<close>

definition snapshot :: "nat \<Rightarrow> bool \<Rightarrow> string \<times> nat \<Rightarrow> gen_file" where
  "snapshot BUFSZ ok bw =
     (if ok then \<lparr>gf_buf = Some (fst bw), gf_size = (if BUFSZ \<le> snd bw then BUFSZ - 1 else snd bw)\<rparr>
      else \<lparr>gf_buf = None, gf_size = 0\<rparr>)"

definition Gen_file :: "bool \<Rightarrow> gen_fn \<Rightarrow> proc_env \<Rightarrow> gen_file" where
  "Gen_file ok g E = snapshot 8192 ok (g E 8192)"

definition Dev_file :: "bool \<Rightarrow> nat \<Rightarrow> proc_env \<Rightarrow> gen_file" where
  "Dev_file ok idx E = snapshot 1024 ok (gen_device idx E 1024)"

fun gen_preadv_loop :: "string \<Rightarrow> nat \<Rightarrow> nat list \<Rightarrow> int \<Rightarrow> string outcome" where
  "gen_preadv_loop b sz [] off = Ret []"
| "gen_preadv_loop b sz (n # ns) off =
     (let o32 = unat (word_of_int off :: size_t)
      in if off < 0 \<or> sz \<le> o32 then Ret []
         else let todo = min n (sz - o32)
              in if todo = 0 then Ret []
                 else obind (mem_get b o32 todo) (\<lambda>r.
                   obind (gen_preadv_loop b sz ns (off + int todo)) (\<lambda>rs. Ret (r @ rs))))"

definition gen_preadv :: "gen_file \<Rightarrow> nat list \<Rightarrow> int \<Rightarrow> errno + string outcome" where
  "gen_preadv f iov off = (case gf_buf f of None \<Rightarrow> Inl EIO | Some b \<Rightarrow> Inr (gen_preadv_loop b (gf_size f) iov off))"

definition gen_pwritev :: "gen_file \<Rightarrow> string list \<Rightarrow> int \<Rightarrow> int" where
  "gen_pwritev f iov off = err EROFS"

text \<open>\<^verbatim>\<open>S_IFREG | 0444\<close> is 33060.\<close>

definition gen_fstat :: "gen_file \<Rightarrow> stat_buf" where
  "gen_fstat f = stat_zero\<lparr>st_mode := 33060, st_size := int (gf_size f), st_blksize := 4096\<rparr>"

section \<open>Directories\<close>

record gen_dir =
  gd_nodes :: "(string \<times> gen_fn) list"
  gd_subdir :: "(string \<times> bool) option"
  gd_pos :: nat

datatype proc_file = PDir | PDevices | PFile gen_file

text \<open>Which allocations succeed: the file object and its buffer.\<close>

record proc_alloc =
  pa_obj :: bool
  pa_buf :: bool

definition skip_slashes :: "string \<Rightarrow> string" where
  "skip_slashes path = dropWhile (\<lambda>c. c = CHR ''/'') path"

text \<open>\<^verbatim>\<open>flags & (O_WRONLY | O_RDWR)\<close> and \<^verbatim>\<open>mode & W_OK\<close>.\<close>

definition wants_write :: "u32 \<Rightarrow> bool" where
  "wants_write flags \<longleftrightarrow> flags AND 3 \<noteq> 0"

definition W_OK :: u32 where "W_OK = 2"

definition devices_get_entry :: "proc_env \<Rightarrow> proc_alloc \<Rightarrow> u32 \<Rightarrow> string \<Rightarrow> errno + proc_file" where
  "devices_get_entry E A flags path =
     (let p = skip_slashes path
      in if p = [] then Inr PDevices
         else if CHR ''/'' \<in> set p then Inl ENOENT
         else case find_idx (\<lambda>r. dr_name r = p) g_device_table of
                None \<Rightarrow> Inl ENOENT
              | Some i \<Rightarrow> if wants_write flags then Inl EACCES
                          else if pa_obj A then Inr (PFile (Dev_file (pa_buf A) i E)) else Inl ENOMEM)"

definition flat_get_entry :: "proc_env \<Rightarrow> proc_alloc \<Rightarrow> u32 \<Rightarrow> string \<Rightarrow> gen_dir \<Rightarrow> errno + proc_file" where
  "flat_get_entry E A flags p d =
     (if CHR ''/'' \<in> set p then Inl ENOENT
      else case find_idx (\<lambda>nd. fst nd = p) (gd_nodes d) of
             None \<Rightarrow> Inl ENOENT
           | Some i \<Rightarrow> if wants_write flags then Inl EACCES
                       else if pa_obj A then Inr (PFile (Gen_file (pa_buf A) (snd (gd_nodes d ! i)) E)) else Inl ENOMEM)"

definition proc_get_entry :: "proc_env \<Rightarrow> proc_alloc \<Rightarrow> u32 \<Rightarrow> string \<Rightarrow> gen_dir \<Rightarrow> errno + proc_file" where
  "proc_get_entry E A flags path d =
     (let p = skip_slashes path
      in if p = [] then Inr PDir
         else case gd_subdir d of
                Some (sn, valid) \<Rightarrow>
                  let sl = length sn; tl = drop sl p
                  in if take sl p = sn \<and> (tl = [] \<or> hd tl = CHR ''/'')
                     then if \<not> valid then Inl ENOENT
                          else let rest = skip_slashes tl
                               in if rest = [] then (if wants_write flags then Inl EACCES else Inr PDevices)
                                  else devices_get_entry E A flags rest
                     else flat_get_entry E A flags p d
              | None \<Rightarrow> flat_get_entry E A flags p d)"

definition proc_faccessat :: "u32 \<Rightarrow> string \<Rightarrow> gen_dir \<Rightarrow> int" where
  "proc_faccessat mode path d =
     (let p = skip_slashes path
      in if p = [] then 0
         else if mode AND W_OK \<noteq> 0 then err EACCES
         else if (case gd_subdir d of Some (sn, _) \<Rightarrow> p = sn | None \<Rightarrow> False) then 0
         else if find_idx (\<lambda>nd. fst nd = p) (gd_nodes d) \<noteq> None then 0
         else err ENOENT)"

definition devices_faccessat :: "u32 \<Rightarrow> string \<Rightarrow> int" where
  "devices_faccessat mode path =
     (let p = skip_slashes path
      in if p = [] then 0
         else if mode AND W_OK \<noteq> 0 then err EACCES
         else if find_idx (\<lambda>r. dr_name r = p) g_device_table \<noteq> None then 0
         else err ENOENT)"

definition proc_dir_fstat :: stat_buf where
  "proc_dir_fstat = stat_zero\<lparr>st_mode := 16749, st_nlink := 2, st_blksize := 4096\<rparr>"

fun gen_fill :: "(string \<times> dtype) list \<Rightarrow> nat \<Rightarrow> dirent list" where
  "gen_fill [] sz = []"
| "gen_fill (e # es) sz =
     (let nl = min (length (fst e) + 1) 256; rl = reclen_of nl
      in if rl > sz then []
         else \<lparr>de_ino = 1, de_off = 0, de_reclen = rl, de_type = snd e, de_name = take (nl - 1) (fst e)\<rparr>
              # gen_fill es (sz - rl))"

definition gd_entries :: "gen_dir \<Rightarrow> (string \<times> dtype) list" where
  "gd_entries d =
     map (\<lambda>nd. (fst nd, DT_REG)) (gd_nodes d) @ (case gd_subdir d of None \<Rightarrow> [] | Some (sn, _) \<Rightarrow> [(sn, DT_DIR)])"

definition proc_getdents :: "nat \<Rightarrow> gen_dir \<Rightarrow> gen_dir \<times> dirent list" where
  "proc_getdents sz d =
     (let out = gen_fill (drop (gd_pos d) (gd_entries d)) sz
      in (d\<lparr>gd_pos := (if out = [] then 0 else gd_pos d + length out)\<rparr>, out))"

text \<open>The directory \<^verbatim>\<open>/sys/devices\<close> is its cursor.\<close>

definition devices_getdents :: "nat \<Rightarrow> nat \<Rightarrow> nat \<times> dirent list" where
  "devices_getdents sz pos =
     (let out = gen_fill (drop pos (map (\<lambda>r. (dr_name r, DT_REG)) g_device_table)) sz
      in (if out = [] then 0 else pos + length out, out))"

section \<open>What is mounted\<close>

definition proc_nodes :: "(string \<times> gen_fn) list" where
  "proc_nodes = [(''uptime'', gen_uptime), (''meminfo'', gen_meminfo), (''version'', gen_version),
     (''cpuinfo'', gen_cpuinfo), (''tasks'', gen_tasks)]"

definition svc_nodes :: "(string \<times> gen_fn) list" where
  "svc_nodes = [(''authd'', gen_svc_authd), (''spawnd'', gen_svc_spawnd), (''syslogd'', gen_svc_syslogd)]"

definition sys_nodes :: "(string \<times> gen_fn) list" where
  "sys_nodes = [(''cpu_online'', gen_cpu_online), (''version'', gen_version)]"

text \<open>\<open>dev_ok\<close>: the object of \<^verbatim>\<open>/sys/devices\<close> could be allocated.\<close>

definition procfs_mounts :: "bool \<Rightarrow> (string \<times> gen_dir) list" where
  "procfs_mounts dev_ok =
     [(''proc'', \<lparr>gd_nodes = proc_nodes, gd_subdir = None, gd_pos = 0\<rparr>),
      (''sys'', \<lparr>gd_nodes = sys_nodes, gd_subdir = Some (''devices'', dev_ok), gd_pos = 0\<rparr>),
      (''svc'', \<lparr>gd_nodes = svc_nodes, gd_subdir = None, gd_pos = 0\<rparr>)]"

section \<open>Buffers and texts\<close>

text \<open>The buffer holds what fits of the text, the count is the length of the whole text.\<close>

definition tracks :: "nat \<Rightarrow> string \<times> nat \<Rightarrow> string \<Rightarrow> bool" where
  "tracks n bw t \<longleftrightarrow> fst bw = take (n - 1) t \<and> snd bw = length t"

lemma tracks_emit: "tracks n bw t \<Longrightarrow> snd bw < n \<Longrightarrow> tracks n (emit n bw u) (t @ u)"
  by (auto simp: tracks_def emit_def snprintf_buf_def)

lemma tracks_start: "tracks n ([], 0) []"
  by (simp add: tracks_def)

lemma tracks_emit1: "0 < n \<Longrightarrow> tracks n (emit n ([], 0) u) u"
  using tracks_emit[OF tracks_start, of n u] by simp

lemma tracks_cpuinfo: "\<exists>u. tracks n bw u \<Longrightarrow> \<exists>u. tracks n (cpuinfo_loop ncpu n i bw) u"
proof (induction ncpu n i bw rule: cpuinfo_loop.induct)
  case (1 ncpu n i bw)
  then show ?case by (subst cpuinfo_loop.simps) (auto intro: tracks_emit)
qed

lemma tracks_tasks: "\<exists>u. tracks n bw u \<Longrightarrow> \<exists>u. tracks n (tasks_loop ts n i bw) u"
proof (induction ts n i bw rule: tasks_loop.induct)
  case (1 ts n i bw)
  show ?case
  proof (cases "i < 32 \<and> snd bw < n")
    case True
    let ?bw = "case ts (of_nat i) of Inl _ \<Rightarrow> bw | Inr r \<Rightarrow> emit n bw (task_line r)"
    have "\<exists>u. tracks n ?bw u" using 1(2) True by (cases "ts (of_nat i)") (auto intro: tracks_emit)
    from 1(1)[OF True this] True show ?thesis by (subst tasks_loop.simps) simp
  next
    case False
    with 1(2) show ?thesis by (subst tasks_loop.simps) auto
  qed
qed

text \<open>Every generator of the mounted tables and of the device files writes a text this way.\<close>

definition gen_ok :: "gen_fn \<Rightarrow> bool" where
  "gen_ok g \<longleftrightarrow> (\<forall>E n. 0 < n \<longrightarrow> (\<exists>t. tracks n (g E n) t))"

lemma gen_okI: "(\<And>E n. 0 < n \<Longrightarrow> \<exists>t. tracks n (g E n) t) \<Longrightarrow> gen_ok g"
  by (simp add: gen_ok_def)

lemma gen_ok_nodes: "g \<in> snd ` set (proc_nodes @ sys_nodes @ svc_nodes) \<Longrightarrow> gen_ok g"
proof -
  have e: "\<exists>t. tracks n (emit n ([], 0) u) t" if "0 < n" for n u using tracks_emit1[OF that] by blast
  have "gen_ok gen_uptime" by (rule gen_okI) (auto simp: gen_uptime_def Let_def intro: e split: prod.split)
  moreover have "gen_ok gen_meminfo" by (rule gen_okI) (auto simp: gen_meminfo_def Let_def intro: e split: prod.split)
  moreover have "gen_ok gen_version" by (rule gen_okI) (auto simp: gen_version_def intro: e)
  moreover have "gen_ok gen_cpu_online" by (rule gen_okI) (auto simp: gen_cpu_online_def intro: e)
  moreover have "gen_ok gen_cpuinfo"
    by (rule gen_okI) (auto simp: gen_cpuinfo_def intro: tracks_cpuinfo tracks_start)
  moreover have "gen_ok gen_tasks"
    by (rule gen_okI) (auto simp: gen_tasks_def Let_def split: option.split intro: tracks_tasks e)
  moreover have "gen_ok (svc_line a b c)" for a b c by (rule gen_okI) (auto simp: svc_line_def intro: e)
  ultimately show "g \<in> snd ` set (proc_nodes @ sys_nodes @ svc_nodes) \<Longrightarrow> gen_ok g"
    by (auto simp: proc_nodes_def sys_nodes_def svc_nodes_def gen_svc_authd_def gen_svc_spawnd_def gen_svc_syslogd_def)
qed

lemma gen_ok_device: "gen_ok (gen_device idx)"
  by (rule gen_okI) (use tracks_emit1 in \<open>auto simp: gen_device_def Let_def\<close>)

text \<open>The text a snapshot shows.\<close>

definition file_text :: "gen_file \<Rightarrow> string" where
  "file_text f = (case gf_buf f of None \<Rightarrow> [] | Some b \<Rightarrow> take (gf_size f) b)"

definition file_ok :: "gen_file \<Rightarrow> bool" where
  "file_ok f \<longleftrightarrow> (case gf_buf f of None \<Rightarrow> gf_size f = 0 | Some b \<Rightarrow> gf_size f = length b \<and> length b < 2 ^ 31)"

lemma snapshot_ok:
  assumes "tracks n bw t" and "0 < n" and "n \<le> 2 ^ 31"
  shows "file_ok (snapshot n ok bw)" "file_text (snapshot n ok bw) = (if ok then take (n - 1) t else [])"
  using assms by (auto simp: snapshot_def file_ok_def file_text_def tracks_def)

lemma gen_preadv_loop_spec:
  assumes "length b < 2 ^ 31"
  shows "0 \<le> off \<Longrightarrow> off < 2 ^ 31 \<Longrightarrow> 0 \<notin> set ns \<Longrightarrow>
    gen_preadv_loop b (length b) ns off = Ret (take (sum_list ns) (drop (nat off) b))"
proof (induction ns arbitrary: off)
  case (Cons n ns)
  have o: "unat (word_of_int off :: size_t) = nat off"
    using Cons.prems(1,2) by (simp add: unsigned_of_int take_bit_int_eq_self)
  show ?case
  proof (cases "length b \<le> nat off")
    case True
    then show ?thesis using Cons.prems by (simp add: o Let_def)
  next
    case False
    define k where "k = min n (length b - nat off)"
    have k: "0 < k" "nat off + k \<le> length b" using False Cons.prems(3) by (auto simp: k_def)
    have "nat off + k < 2 ^ 31" using k(2) assms by linarith
    then have "off + int k < 2 ^ 31" using Cons.prems(1) by (simp; arith)
    from Cons.IH[OF _ this] Cons.prems k
    have ih: "gen_preadv_loop b (length b) ns (off + int k) = Ret (take (sum_list ns) (drop (nat off + k) b))"
      by (simp add: nat_add_distrib)
    have "gen_preadv_loop b (length b) (n # ns) off =
        Ret (take k (drop (nat off) b) @ take (sum_list ns) (drop (nat off + k) b))"
      using False Cons.prems(1) k ih by (simp add: o Let_def k_def[symmetric] mem_get_def)
    also have "take k (drop (nat off) b) @ take (sum_list ns) (drop (nat off + k) b) = take (n + sum_list ns) (drop (nat off) b)"
    proof (cases "n \<le> length b - nat off")
      case True
      then show ?thesis by (simp add: k_def take_add ac_simps)
    next
      case False
      then show ?thesis using k(2) by (simp add: k_def)
    qed
    finally show ?thesis by simp
  qed
qed simp

section \<open>The task listing\<close>

definition stat_text :: "errno + (u64 \<times> u32 \<times> u32) \<Rightarrow> string" where
  "stat_text r = (case r of Inl _ \<Rightarrow> [] | Inr x \<Rightarrow> task_line x)"

lemma length_show_word: "length (show_nat (unat (w :: u32))) \<le> 10" "length (show_nat (unat (v :: u64))) \<le> 20"
proof -
  have "unat w < 10 ^ 10" by (rule order_less_le_trans[OF unsigned_less]) simp
  then show "length (show_nat (unat w)) \<le> 10" by (rule length_show_nat) simp
  have "unat v < 10 ^ 20" by (rule order_less_le_trans[OF unsigned_less]) simp
  then show "length (show_nat (unat v)) \<le> 20" by (rule length_show_nat) simp
qed

lemma length_task_line: "length (task_line r) \<le> 42"
proof -
  obtain c st h where r: "r = (c, st, h)" by (cases r)
  show ?thesis using length_show_word(1)[of h] length_show_word(2)[of c]
    by (auto simp: r task_line_def pad_left_def pad_right_def)
qed

lemma length_stat_texts: "length (concat (map (\<lambda>i. stat_text (ts (of_nat i))) is)) \<le> 42 * length is"
proof (induction "is")
  case (Cons i "is")
  have "length (stat_text (ts (of_nat i))) \<le> 42" using length_task_line by (auto simp: stat_text_def split: sum.split)
  with Cons show ?case by simp
qed simp

lemma tasks_loop_text:
  "slot \<le> 32 \<Longrightarrow> tracks n bw t \<Longrightarrow> length t + 42 * (32 - slot) < n \<Longrightarrow>
     tracks n (tasks_loop ts n slot bw) (t @ concat (map (\<lambda>i. stat_text (ts (of_nat i))) [slot..<32]))"
proof (induction ts n slot bw arbitrary: t rule: tasks_loop.induct)
  case (1 ts n slot bw)
  show ?case
  proof (cases "slot < 32")
    case True
    let ?bw = "case ts (of_nat slot) of Inl _ \<Rightarrow> bw | Inr r \<Rightarrow> emit n bw (task_line r)"
    let ?t = "t @ stat_text (ts (of_nat slot))"
    have w: "snd bw < n" using 1(3,4) by (simp add: tracks_def)
    have t: "tracks n ?bw ?t" using 1(3) w by (cases "ts (of_nat slot)") (auto simp: stat_text_def intro: tracks_emit)
    have l: "length (stat_text (ts (of_nat slot))) \<le> 42"
      using length_task_line by (auto simp: stat_text_def split: sum.split)
    have "length ?t + 42 * (32 - (slot + 1)) < n" using 1(4) True l by simp
    from 1(1)[OF conjI[OF True w] _ t this] True
    have "tracks n (tasks_loop ts n (slot + 1) ?bw) (?t @ concat (map (\<lambda>i. stat_text (ts (of_nat i))) [slot + 1..<32]))"
      by simp
    then show ?thesis using True w by (subst tasks_loop.simps) (simp add: upt_conv_Cons)
  next
    case False
    then show ?thesis using 1(2,3) by (subst tasks_loop.simps) simp
  qed
qed

text \<open>What \<^verbatim>\<open>spawnd\<close> answers for a slot, as text.\<close>

definition child_text :: "(cap option \<Rightarrow> u64 option) \<Rightarrow> child_task \<Rightarrow> string" where
  "child_text cpu t =
     (if ct_state t = RUNNING \<or> ct_state t = EXITED
      then task_line (case cpu (ct_thread t) of None \<Rightarrow> 0 | Some kc \<Rightarrow> kc, if ct_state t = RUNNING then 1 else 2, ct_handle t)
      else [])"

lemma stat_text_slot:
  assumes "i < 32"
  shows "stat_text (op_task_stat cpu (of_nat i) s) = child_text cpu (child_at s i)"
proof -
  have "sint (of_nat i :: u32) = int i" using assms by (simp add: sint_small unsigned_of_nat take_bit_nat_eq_self)
  then show ?thesis using assms
    by (cases "ct_state (child_at s i)") (auto simp: op_task_stat_def tt_at_def TASK_MAX_def stat_text_def child_text_def)
qed

section \<open>Reading the directories\<close>

definition gen_dirent :: "string \<times> dtype \<Rightarrow> dirent" where
  "gen_dirent e = \<lparr>de_ino = 1, de_off = 0, de_reclen = reclen_of (min (length (fst e) + 1) 256), de_type = snd e,
     de_name = clip_name (fst e)\<rparr>"

lemma gen_fill_take: "gen_fill es sz = take (length (gen_fill es sz)) (map gen_dirent es)"
  by (induction es sz rule: gen_fill.induct) (simp_all add: Let_def gen_dirent_def clip_name_def)

lemma gen_fill_nonempty: "es \<noteq> [] \<Longrightarrow> de_reclen (gen_dirent (hd es)) \<le> sz \<Longrightarrow> gen_fill es sz \<noteq> []"
  by (cases es) (simp_all add: Let_def gen_dirent_def)

interpretation procdir: dirent_stream "\<lambda>_. True" "\<lambda>d. map gen_dirent (gd_entries d)" gd_pos proc_getdents de_reclen "{id}"
proof (unfold_locales, goal_cases)
  case (2 s sz s' es)
  then have "es = gen_fill (drop (gd_pos s) (gd_entries s)) sz" by (simp add: proc_getdents_def Let_def)
  then show ?case using gen_fill_take[of "drop (gd_pos s) (gd_entries s)" sz] by (simp add: drop_map)
next
  case (5 s sz s' es)
  then show ?case using gen_fill_nonempty[of "drop (gd_pos s) (gd_entries s)" sz]
    by (auto simp: proc_getdents_def Let_def hd_drop_conv_nth)
qed (auto simp: proc_getdents_def Let_def gd_entries_def)

interpretation devicesdir: dirent_stream "\<lambda>_. True" "\<lambda>_. map gen_dirent (map (\<lambda>r. (dr_name r, DT_REG)) g_device_table)"
    "\<lambda>pos. pos" devices_getdents de_reclen "{id}"
proof (unfold_locales, goal_cases)
  let ?es = "map (\<lambda>r. (dr_name r, DT_REG)) g_device_table"
  {
    case (2 s sz s' es)
    then have "es = gen_fill (drop s ?es) sz" by (simp add: devices_getdents_def Let_def)
    then show ?case using gen_fill_take[of "drop s ?es" sz] by (simp add: drop_map)
  next
    case (5 s sz s' es)
    then show ?case using gen_fill_nonempty[of "drop s ?es" sz]
      by (auto simp: devices_getdents_def Let_def hd_drop_conv_nth)
  }
qed (auto simp: devices_getdents_def Let_def)

section \<open>Properties\<close>

definition mount_at :: "string \<Rightarrow> gen_dir" where
  "mount_at n = the (map_of (procfs_mounts True) n)"


definition demo_env :: proc_env where
  "demo_env = \<lparr>pe_clock = (0, 0), pe_cpus = None, pe_mem = None,
     pe_spawnd = Some (\<lambda>slot. op_task_stat (\<lambda>_. None) slot spawnd_init), pe_dev = None, pe_slot = True, pe_caps = (\<lambda>_. False)\<rparr>"




text \<open>
  The access check of \<^verbatim>\<open>/sys\<close> does not know the files below \<^verbatim>\<open>devices\<close>: it denies that any of
  them exists, although opening the same path succeeds.
\<close>

lemma procfs_access_denies_devices:
  assumes "r \<in> set g_device_table" and "pa_obj A"
  shows "proc_faccessat 0 (''devices/'' @ dr_name r) (mount_at ''sys'') = err ENOENT \<and>
    (\<exists>f. proc_get_entry E A 0 (''devices/'' @ dr_name r) (mount_at ''sys'') = Inr (PFile f))"
proof -
  have n: "dr_name r = ''temp0'' \<or> dr_name r = ''radio0''" using assms(1) by (auto simp: g_device_table_def)
  have m: "mount_at ''sys'' = \<lparr>gd_nodes = sys_nodes, gd_subdir = Some (''devices'', True), gd_pos = 0\<rparr>"
    by (simp add: mount_at_def procfs_mounts_def)
  have a: "proc_faccessat 0 (''devices/'' @ dr_name r) (mount_at ''sys'') = err ENOENT"
    using n unfolding m by (elim disjE) (simp_all add: proc_faccessat_def skip_slashes_def sys_nodes_def)
  have "\<exists>i. devices_get_entry E A 0 (dr_name r) = Inr (PFile (Dev_file (pa_buf A) i E))"
    using n assms(2) by (elim disjE; simp add: devices_get_entry_def skip_slashes_def g_device_table_def wants_write_def; blast)
  moreover have "proc_get_entry E A 0 (''devices/'' @ dr_name r) (mount_at ''sys'') = devices_get_entry E A 0 (dr_name r)"
    using n unfolding m by (elim disjE) (simp_all add: proc_get_entry_def skip_slashes_def Let_def)
  ultimately show ?thesis using a by auto
qed

lemma procfs_access_denies_devices_witness:
  "proc_faccessat 0 ''devices/temp0'' (mount_at ''sys'') = err ENOENT"
  using procfs_access_denies_devices[of "g_device_table ! 0" "\<lparr>pa_obj = True, pa_buf = True\<rparr>" demo_env]
  by (simp add: g_device_table_def)

end
