(* ===== verification/Sha256.thy ===== *)
theory Sha256
  imports Prelude
begin

text \<open>
  The SHA-256 of the TLS library, \<^verbatim>\<open>pkg/mbedtls/lib/contrib/library/sha256.c\<close>, which the
  authentication server uses for its password hashes: the streaming interface (start, update,
  finish) with its 64-byte buffer and its two-word length, and the compression function in both
  variants of the source, the unrolled one whose eight working variables rotate by renaming and
  the small one that moves them. Below, the algorithm of FIPS 180-4 as the specification, and the
  proof that any sequence of updates computes it.
\<close>

section \<open>Context\<close>

record sha256_context =
  sx_total0 :: u32
  sx_total1 :: u32
  sx_state :: "u32 list"
  sx_buffer :: "u8 list"
  sx_is224 :: bool

definition sha256_init :: sha256_context where
  "sha256_init = \<lparr>sx_total0 = 0, sx_total1 = 0, sx_state = replicate 8 0, sx_buffer = replicate 64 0, sx_is224 = False\<rparr>"

definition sha256_starts :: "bool \<Rightarrow> sha256_context \<Rightarrow> sha256_context" where
  "sha256_starts is224 ctx = ctx\<lparr>sx_total0 := 0, sx_total1 := 0,
     sx_state :=
       (if \<not> is224
        then [0x6A09E667, 0xBB67AE85, 0x3C6EF372, 0xA54FF53A, 0x510E527F, 0x9B05688C, 0x1F83D9AB, 0x5BE0CD19]
        else [0xC1059ED8, 0x367CD507, 0x3070DD17, 0xF70E5939, 0xFFC00B31, 0x68581511, 0x64F98FA7, 0xBEFA4FA4]),
     sx_is224 := is224\<rparr>"

section \<open>The compression function\<close>

definition sha_K :: "u32 list" where
  "sha_K =
     [0x428A2F98, 0x71374491, 0xB5C0FBCF, 0xE9B5DBA5, 0x3956C25B, 0x59F111F1, 0x923F82A4, 0xAB1C5ED5,
      0xD807AA98, 0x12835B01, 0x243185BE, 0x550C7DC3, 0x72BE5D74, 0x80DEB1FE, 0x9BDC06A7, 0xC19BF174,
      0xE49B69C1, 0xEFBE4786, 0x0FC19DC6, 0x240CA1CC, 0x2DE92C6F, 0x4A7484AA, 0x5CB0A9DC, 0x76F988DA,
      0x983E5152, 0xA831C66D, 0xB00327C8, 0xBF597FC7, 0xC6E00BF3, 0xD5A79147, 0x06CA6351, 0x14292967,
      0x27B70A85, 0x2E1B2138, 0x4D2C6DFC, 0x53380D13, 0x650A7354, 0x766A0ABB, 0x81C2C92E, 0x92722C85,
      0xA2BFE8A1, 0xA81A664B, 0xC24B8B70, 0xC76C51A3, 0xD192E819, 0xD6990624, 0xF40E3585, 0x106AA070,
      0x19A4C116, 0x1E376C08, 0x2748774C, 0x34B0BCB5, 0x391C0CB3, 0x4ED8AA4A, 0x5B9CCA4F, 0x682E6FF3,
      0x748F82EE, 0x78A5636F, 0x84C87814, 0x8CC70208, 0x90BEFFFA, 0xA4506CEB, 0xBEF9A3F7, 0xC67178F2]"

definition sha_SHR :: "u32 \<Rightarrow> nat \<Rightarrow> u32" where
  "sha_SHR x n = drop_bit n (x AND 0xFFFFFFFF)"

definition sha_ROTR :: "u32 \<Rightarrow> nat \<Rightarrow> u32" where
  "sha_ROTR x n = sha_SHR x n OR push_bit (32 - n) x"

definition sha_S0 :: "u32 \<Rightarrow> u32" where
  "sha_S0 x = sha_ROTR x 7 XOR sha_ROTR x 18 XOR sha_SHR x 3"

definition sha_S1 :: "u32 \<Rightarrow> u32" where
  "sha_S1 x = sha_ROTR x 17 XOR sha_ROTR x 19 XOR sha_SHR x 10"

definition sha_S2 :: "u32 \<Rightarrow> u32" where
  "sha_S2 x = sha_ROTR x 2 XOR sha_ROTR x 13 XOR sha_ROTR x 22"

definition sha_S3 :: "u32 \<Rightarrow> u32" where
  "sha_S3 x = sha_ROTR x 6 XOR sha_ROTR x 11 XOR sha_ROTR x 25"

definition sha_F0 :: "u32 \<Rightarrow> u32 \<Rightarrow> u32 \<Rightarrow> u32" where
  "sha_F0 x y z = (x AND y) OR (z AND (x OR y))"

definition sha_F1 :: "u32 \<Rightarrow> u32 \<Rightarrow> u32 \<Rightarrow> u32" where
  "sha_F1 x y z = z XOR (x AND (y XOR z))"

text \<open>\<^verbatim>\<open>R(t)\<close> assigns \<^verbatim>\<open>W[t]\<close> and yields it; \<open>W\<close> holds the words assigned so far.\<close>

definition sha_R :: "nat \<Rightarrow> u32 list \<Rightarrow> u32 list" where
  "sha_R t W = W @ [sha_S1 (W ! (t - 2)) + W ! (t - 7) + sha_S0 (W ! (t - 15)) + W ! (t - 16)]"

text \<open>\<^verbatim>\<open>P\<close>, its first eight arguments being elements of the array \<^verbatim>\<open>A\<close>.\<close>

definition sha_P :: "nat \<Rightarrow> nat \<Rightarrow> nat \<Rightarrow> nat \<Rightarrow> nat \<Rightarrow> nat \<Rightarrow> nat \<Rightarrow> nat \<Rightarrow> u32 \<Rightarrow> u32 \<Rightarrow> u32 list \<Rightarrow> u32 list" where
  "sha_P a b c d e f g h x k A =
     (let temp1 = A ! h + sha_S3 (A ! e) + sha_F1 (A ! e) (A ! f) (A ! g) + k + x;
          temp2 = sha_S2 (A ! a) + sha_F0 (A ! a) (A ! b) (A ! c);
          A1 = A[d := A ! d + temp1]
      in A1[h := temp1 + temp2])"

definition get_uint32_be :: "u8 list \<Rightarrow> nat \<Rightarrow> u32" where
  "get_uint32_be data off =
     push_bit 24 (ucast (data ! off)) OR push_bit 16 (ucast (data ! (off + 1))) OR
     push_bit 8 (ucast (data ! (off + 2))) OR ucast (data ! (off + 3))"

definition put_uint32_be :: "u32 \<Rightarrow> u8 list" where
  "put_uint32_be n =
     [ucast (drop_bit 24 n AND 0xff), ucast (drop_bit 16 n AND 0xff), ucast (drop_bit 8 n AND 0xff), ucast (n AND 0xff)]"

text \<open>The body of the first loop, eight rounds on words already loaded.\<close>

definition sha_rounds_W :: "nat \<Rightarrow> u32 list \<Rightarrow> u32 list \<Rightarrow> u32 list" where
  "sha_rounds_W i W A =
     (let A = sha_P 0 1 2 3 4 5 6 7 (W ! (i + 0)) (sha_K ! (i + 0)) A;
          A = sha_P 7 0 1 2 3 4 5 6 (W ! (i + 1)) (sha_K ! (i + 1)) A;
          A = sha_P 6 7 0 1 2 3 4 5 (W ! (i + 2)) (sha_K ! (i + 2)) A;
          A = sha_P 5 6 7 0 1 2 3 4 (W ! (i + 3)) (sha_K ! (i + 3)) A;
          A = sha_P 4 5 6 7 0 1 2 3 (W ! (i + 4)) (sha_K ! (i + 4)) A;
          A = sha_P 3 4 5 6 7 0 1 2 (W ! (i + 5)) (sha_K ! (i + 5)) A;
          A = sha_P 2 3 4 5 6 7 0 1 (W ! (i + 6)) (sha_K ! (i + 6)) A
      in sha_P 1 2 3 4 5 6 7 0 (W ! (i + 7)) (sha_K ! (i + 7)) A)"

text \<open>The body of the second loop: each round computes its word first.\<close>

definition sha_PR :: "nat \<Rightarrow> nat \<Rightarrow> nat \<Rightarrow> nat \<Rightarrow> nat \<Rightarrow> nat \<Rightarrow> nat \<Rightarrow> nat \<Rightarrow> nat \<Rightarrow> u32 list \<times> u32 list \<Rightarrow> u32 list \<times> u32 list" where
  "sha_PR a b c d e f g h t WA =
     (let W = sha_R t (fst WA) in (W, sha_P a b c d e f g h (W ! t) (sha_K ! t) (snd WA)))"

definition sha_rounds_R :: "nat \<Rightarrow> u32 list \<times> u32 list \<Rightarrow> u32 list \<times> u32 list" where
  "sha_rounds_R i WA =
     (let WA = sha_PR 0 1 2 3 4 5 6 7 (i + 0) WA;
          WA = sha_PR 7 0 1 2 3 4 5 6 (i + 1) WA;
          WA = sha_PR 6 7 0 1 2 3 4 5 (i + 2) WA;
          WA = sha_PR 5 6 7 0 1 2 3 4 (i + 3) WA;
          WA = sha_PR 4 5 6 7 0 1 2 3 (i + 4) WA;
          WA = sha_PR 3 4 5 6 7 0 1 2 (i + 5) WA;
          WA = sha_PR 2 3 4 5 6 7 0 1 (i + 6) WA
      in sha_PR 1 2 3 4 5 6 7 0 (i + 7) WA)"

definition load_words :: "u8 list \<Rightarrow> u32 list" where
  "load_words data = map (\<lambda>i. get_uint32_be data (4 * i)) [0..<16]"

definition sha_block :: "u32 list \<Rightarrow> u8 list \<Rightarrow> u32 list" where
  "sha_block st data =
     (let W = load_words data;
          A = foldl (\<lambda>A i. sha_rounds_W i W A) st [0, 8];
          (W, A) = foldl (\<lambda>WA i. sha_rounds_R i WA) (W, A) [16, 24, 32, 40, 48, 56]
      in map2 (+) st A)"

text \<open>The variant for small code, compiled with \<^verbatim>\<open>MBEDTLS_SHA256_SMALLER\<close>.\<close>

definition sha_small_step :: "u8 list \<Rightarrow> nat \<Rightarrow> u32 list \<times> u32 list \<Rightarrow> u32 list \<times> u32 list" where
  "sha_small_step data i WA =
     (let W = (if i < 16 then fst WA @ [get_uint32_be data (4 * i)] else sha_R i (fst WA));
          A = sha_P 0 1 2 3 4 5 6 7 (W ! i) (sha_K ! i) (snd WA);
          temp1 = A ! 7;
          A = A[7 := A ! 6]; A = A[6 := A ! 5]; A = A[5 := A ! 4]; A = A[4 := A ! 3];
          A = A[3 := A ! 2]; A = A[2 := A ! 1]; A = A[1 := A ! 0]
      in (W, A[0 := temp1]))"

definition sha_block_small :: "u32 list \<Rightarrow> u8 list \<Rightarrow> u32 list" where
  "sha_block_small st data = map2 (+) st (snd (foldl (\<lambda>WA i. sha_small_step data i WA) ([], st) [0..<64]))"

definition sha256_process :: "u8 list \<Rightarrow> sha256_context \<Rightarrow> sha256_context" where
  "sha256_process data ctx = ctx\<lparr>sx_state := sha_block (sx_state ctx) data\<rparr>"

section \<open>Streaming\<close>

definition buf_put :: "'a list \<Rightarrow> nat \<Rightarrow> 'a list \<Rightarrow> 'a list" where
  "buf_put b off bs = take off b @ bs @ drop (off + length bs) b"

text \<open>\<^verbatim>\<open>while (ilen >= 64)\<close>: whole blocks straight from the input; the rest of the input is returned.\<close>

function sha_blocks_loop :: "u8 list \<Rightarrow> sha256_context \<Rightarrow> u8 list \<times> sha256_context" where
  "sha_blocks_loop input ctx =
     (if 64 \<le> length input then sha_blocks_loop (drop 64 input) (sha256_process (take 64 input) ctx) else (input, ctx))"
  by pat_completeness auto
termination by (relation "measure (\<lambda>(input, ctx). length input)") auto

declare sha_blocks_loop.simps [simp del]

definition sha256_update :: "u8 list \<Rightarrow> sha256_context \<Rightarrow> sha256_context" where
  "sha256_update input ctx =
     (if input = [] then ctx
      else let ilen = of_nat (length input) :: u32;
               left = unat (sx_total0 ctx AND 0x3F);
               fill = 64 - left;
               ctx = ctx\<lparr>sx_total0 := (sx_total0 ctx + ilen) AND 0xFFFFFFFF\<rparr>;
               ctx = (if sx_total0 ctx < ilen then ctx\<lparr>sx_total1 := sx_total1 ctx + 1\<rparr> else ctx);
               (input, left, ctx) =
                 (if left \<noteq> 0 \<and> fill \<le> length input
                  then let ctx = ctx\<lparr>sx_buffer := buf_put (sx_buffer ctx) left (take fill input)\<rparr>
                       in (drop fill input, 0, sha256_process (sx_buffer ctx) ctx)
                  else (input, left, ctx));
               (input, ctx) = sha_blocks_loop input ctx
           in if input \<noteq> [] then ctx\<lparr>sx_buffer := buf_put (sx_buffer ctx) left input\<rparr> else ctx)"

definition sha256_finish :: "sha256_context \<Rightarrow> sha256_context \<times> u8 list" where
  "sha256_finish ctx =
     (let used = unat (sx_total0 ctx AND 0x3F);
          ctx = ctx\<lparr>sx_buffer := (sx_buffer ctx)[used := 0x80]\<rparr>;
          used = used + 1;
          ctx =
            (if used \<le> 56 then ctx\<lparr>sx_buffer := buf_put (sx_buffer ctx) used (replicate (56 - used) 0)\<rparr>
             else let ctx = ctx\<lparr>sx_buffer := buf_put (sx_buffer ctx) used (replicate (64 - used) 0)\<rparr>;
                      ctx = sha256_process (sx_buffer ctx) ctx
                  in ctx\<lparr>sx_buffer := buf_put (sx_buffer ctx) 0 (replicate 56 0)\<rparr>);
          high = drop_bit 29 (sx_total0 ctx) OR push_bit 3 (sx_total1 ctx);
          low = push_bit 3 (sx_total0 ctx);
          ctx = ctx\<lparr>sx_buffer := buf_put (buf_put (sx_buffer ctx) 56 (put_uint32_be high)) 60 (put_uint32_be low)\<rparr>;
          ctx = sha256_process (sx_buffer ctx) ctx
      in (ctx, concat (map put_uint32_be (take (if sx_is224 ctx then 7 else 8) (sx_state ctx)))))"

text \<open>The whole input at once.\<close>

definition sha256_ret :: "u8 list \<Rightarrow> bool \<Rightarrow> u8 list" where
  "sha256_ret input is224 = snd (sha256_finish (sha256_update input (sha256_starts is224 sha256_init)))"

section \<open>The standard\<close>

text \<open>FIPS 180-4: functions, message schedule, compression, padding.\<close>

definition fips_Ch :: "u32 \<Rightarrow> u32 \<Rightarrow> u32 \<Rightarrow> u32" where
  "fips_Ch x y z = (x AND y) XOR (NOT x AND z)"

definition fips_Maj :: "u32 \<Rightarrow> u32 \<Rightarrow> u32 \<Rightarrow> u32" where
  "fips_Maj x y z = (x AND y) XOR (x AND z) XOR (y AND z)"

definition fips_Sigma0 :: "u32 \<Rightarrow> u32" where
  "fips_Sigma0 x = word_rotr 2 x XOR word_rotr 13 x XOR word_rotr 22 x"

definition fips_Sigma1 :: "u32 \<Rightarrow> u32" where
  "fips_Sigma1 x = word_rotr 6 x XOR word_rotr 11 x XOR word_rotr 25 x"

definition fips_sigma0 :: "u32 \<Rightarrow> u32" where
  "fips_sigma0 x = word_rotr 7 x XOR word_rotr 18 x XOR drop_bit 3 x"

definition fips_sigma1 :: "u32 \<Rightarrow> u32" where
  "fips_sigma1 x = word_rotr 17 x XOR word_rotr 19 x XOR drop_bit 10 x"

fun fips_W :: "u32 list \<Rightarrow> nat \<Rightarrow> u32" where
  "fips_W M t =
     (if t < 16 then M ! t
      else fips_sigma1 (fips_W M (t - 2)) + fips_W M (t - 7) + fips_sigma0 (fips_W M (t - 15)) + fips_W M (t - 16))"

declare fips_W.simps [simp del]

fun fips_round :: "u32 list \<Rightarrow> u32 \<Rightarrow> u32 \<Rightarrow> u32 list" where
  "fips_round [a, b, c, d, e, f, g, h] w k =
     (let T1 = h + fips_Sigma1 e + fips_Ch e f g + k + w; T2 = fips_Sigma0 a + fips_Maj a b c
      in [T1 + T2, a, b, c, d + T1, e, f, g])"
| "fips_round s w k = s"

definition fips_rounds :: "(nat \<Rightarrow> u32) \<Rightarrow> u32 list \<Rightarrow> nat list \<Rightarrow> u32 list" where
  "fips_rounds W s ts = foldl (\<lambda>s t. fips_round s (W t) (sha_K ! t)) s ts"

definition fips_block :: "u32 list \<Rightarrow> u8 list \<Rightarrow> u32 list" where
  "fips_block st data = map2 (+) st (fips_rounds (fips_W (load_words data)) st [0..<64])"

function fips_blocks :: "u32 list \<Rightarrow> u8 list \<Rightarrow> u32 list" where
  "fips_blocks st msg = (if 64 \<le> length msg then fips_blocks (fips_block st (take 64 msg)) (drop 64 msg) else st)"
  by pat_completeness auto
termination by (relation "measure (\<lambda>(st, msg). length msg)") auto

declare fips_blocks.simps [simp del]

definition be_bytes :: "nat \<Rightarrow> nat \<Rightarrow> u8 list" where
  "be_bytes k n = map (\<lambda>i. of_nat (n div 256 ^ i)) (rev [0..<k])"

definition fips_pad :: "u8 list \<Rightarrow> u8 list" where
  "fips_pad msg = msg @ [0x80] @ replicate ((119 - length msg mod 64) mod 64) 0 @ be_bytes 8 (8 * length msg)"

definition fips_init :: "bool \<Rightarrow> u32 list" where
  "fips_init is224 =
     (if is224
      then [0xC1059ED8, 0x367CD507, 0x3070DD17, 0xF70E5939, 0xFFC00B31, 0x68581511, 0x64F98FA7, 0xBEFA4FA4]
      else [0x6A09E667, 0xBB67AE85, 0x3C6EF372, 0xA54FF53A, 0x510E527F, 0x9B05688C, 0x1F83D9AB, 0x5BE0CD19])"

definition fips_sha2 :: "bool \<Rightarrow> u8 list \<Rightarrow> u8 list" where
  "fips_sha2 is224 msg =
     concat (map (\<lambda>w. be_bytes 4 (unat w)) (take (if is224 then 7 else 8) (fips_blocks (fips_init is224) (fips_pad msg))))"

abbreviation fips_sha256 :: "u8 list \<Rightarrow> u8 list" where
  "fips_sha256 \<equiv> fips_sha2 False"

section \<open>The compression function is the standard's\<close>

lemma sha_SHR_drop_bit: "sha_SHR x n = drop_bit n x"
proof -
  have "(0xFFFFFFFF :: u32) = - 1" by simp
  then show ?thesis unfolding sha_SHR_def by (simp only: and.right_neutral)
qed

lemma sha_ROTR_rotr: "0 < n \<Longrightarrow> n < 32 \<Longrightarrow> sha_ROTR x n = word_rotr n x"
proof (rule bit_word_eqI)
  fix i
  assume n: "0 < n" "n < 32" and i: "i < LENGTH(32)"
  show "bit (sha_ROTR x n) i = bit (word_rotr n x) i"
  proof (cases "i + n < 32")
    case True
    then show ?thesis using n i by (auto simp: sha_ROTR_def sha_SHR_drop_bit bit_simps add.commute)
  next
    case False
    then have "(i + n) mod 32 = i + n - 32" using n i by (simp add: mod_if)
    then show ?thesis using n i False bit_imp_le_length[of x "i + n"]
      by (auto simp: sha_ROTR_def sha_SHR_drop_bit bit_simps add.commute)
  qed
qed

lemma sha_functions:
  "sha_S0 = fips_sigma0" "sha_S1 = fips_sigma1" "sha_S2 = fips_Sigma0" "sha_S3 = fips_Sigma1"
  "sha_F0 = fips_Maj" "sha_F1 = fips_Ch"
proof -
  show "sha_S0 = fips_sigma0" "sha_S1 = fips_sigma1" "sha_S2 = fips_Sigma0" "sha_S3 = fips_Sigma1"
    by (simp_all add: fun_eq_iff sha_S0_def sha_S1_def sha_S2_def sha_S3_def fips_sigma0_def fips_sigma1_def
        fips_Sigma0_def fips_Sigma1_def sha_ROTR_rotr sha_SHR_drop_bit)
  show "sha_F0 = fips_Maj" "sha_F1 = fips_Ch"
    by (intro ext bit_word_eqI; auto simp: sha_F0_def sha_F1_def fips_Maj_def fips_Ch_def bit_simps)+
qed

lemma length_8:
  assumes "length s = 8"
  obtains a b c d e f g h where "s = [a, b, c, d, e, f, g, h]"
  using assms by (auto simp: length_Suc_conv numeral_eq_Suc)

lemma length_fips_round [simp]: "length (fips_round s w k) = length s"
  by (induction s w k rule: fips_round.induct) (simp_all add: Let_def)

lemma length_fips_rounds [simp]: "length (fips_rounds W s ts) = length s"
proof (induction ts arbitrary: s)
  case (Cons t ts)
  from Cons[of "fips_round s (W t) (sha_K ! t)"] show ?case by (simp add: fips_rounds_def)
qed (simp add: fips_rounds_def)

text \<open>
  The unrolled rounds do not move the working variables: after \<open>j\<close> rounds the array is the state
  rotated by \<open>j\<close>, and the next round names its elements accordingly.
\<close>

lemmas P_eval = sha_P_def sha_functions fips_round.simps Let_def rotate_drop_take

lemma sha_P_rounds:
  assumes "length s = 8"
  shows "sha_P 0 1 2 3 4 5 6 7 x k s = rotate 1 (fips_round s x k)"
    and "sha_P 7 0 1 2 3 4 5 6 x k (rotate 1 s) = rotate 2 (fips_round s x k)"
    and "sha_P 6 7 0 1 2 3 4 5 x k (rotate 2 s) = rotate 3 (fips_round s x k)"
    and "sha_P 5 6 7 0 1 2 3 4 x k (rotate 3 s) = rotate 4 (fips_round s x k)"
    and "sha_P 4 5 6 7 0 1 2 3 x k (rotate 4 s) = rotate 5 (fips_round s x k)"
    and "sha_P 3 4 5 6 7 0 1 2 x k (rotate 5 s) = rotate 6 (fips_round s x k)"
    and "sha_P 2 3 4 5 6 7 0 1 x k (rotate 6 s) = rotate 7 (fips_round s x k)"
    and "sha_P 1 2 3 4 5 6 7 0 x k (rotate 7 s) = fips_round s x k"
proof -
  obtain a b c d e f g h where s: "s = [a, b, c, d, e, f, g, h]" by (rule length_8[OF assms])
  show "sha_P 0 1 2 3 4 5 6 7 x k s = rotate 1 (fips_round s x k)" unfolding s by (simp add: P_eval)
  show "sha_P 7 0 1 2 3 4 5 6 x k (rotate 1 s) = rotate 2 (fips_round s x k)" unfolding s by (simp add: P_eval)
  show "sha_P 6 7 0 1 2 3 4 5 x k (rotate 2 s) = rotate 3 (fips_round s x k)" unfolding s by (simp add: P_eval)
  show "sha_P 5 6 7 0 1 2 3 4 x k (rotate 3 s) = rotate 4 (fips_round s x k)" unfolding s by (simp add: P_eval)
  show "sha_P 4 5 6 7 0 1 2 3 x k (rotate 4 s) = rotate 5 (fips_round s x k)" unfolding s by (simp add: P_eval)
  show "sha_P 3 4 5 6 7 0 1 2 x k (rotate 5 s) = rotate 6 (fips_round s x k)" unfolding s by (simp add: P_eval)
  show "sha_P 2 3 4 5 6 7 0 1 x k (rotate 6 s) = rotate 7 (fips_round s x k)" unfolding s by (simp add: P_eval)
  show "sha_P 1 2 3 4 5 6 7 0 x k (rotate 7 s) = fips_round s x k" unfolding s by (simp add: P_eval)
qed

lemma upt_8: "[i..<i + 8] = [i, i + 1, i + 2, i + 3, i + 4, i + 5, i + 6, i + (7 :: nat)]"
proof -
  have e: "[i..<i + 8] = map (\<lambda>j. j + i) [0..<8]" by (simp only: map_add_upt add.commute)
  have z: "[0..<8 :: nat] = [0, 1, 2, 3, 4, 5, 6, 7]" by (simp add: upt_rec)
  show ?thesis unfolding e z by simp
qed

lemma sha_P_eight:
  "length s = 8 \<Longrightarrow>
     sha_P 1 2 3 4 5 6 7 0 x7 k7 (sha_P 2 3 4 5 6 7 0 1 x6 k6 (sha_P 3 4 5 6 7 0 1 2 x5 k5 (sha_P 4 5 6 7 0 1 2 3 x4 k4
       (sha_P 5 6 7 0 1 2 3 4 x3 k3 (sha_P 6 7 0 1 2 3 4 5 x2 k2 (sha_P 7 0 1 2 3 4 5 6 x1 k1 (sha_P 0 1 2 3 4 5 6 7 x0 k0 s))))))) =
     fips_round (fips_round (fips_round (fips_round (fips_round (fips_round (fips_round (fips_round s x0 k0) x1 k1) x2 k2)
       x3 k3) x4 k4) x5 k5) x6 k6) x7 k7"
  by (simp only: sha_P_rounds length_fips_round)

lemma sha_rounds_W_fips: "length s = 8 \<Longrightarrow> sha_rounds_W i W s = fips_rounds ((!) W) s [i..<i + 8]"
  unfolding sha_rounds_W_def Let_def by (simp only: sha_P_eight upt_8 fips_rounds_def foldl_Cons foldl_Nil add_0_right)

definition sched_ok :: "u32 list \<Rightarrow> u32 list \<Rightarrow> nat \<Rightarrow> bool" where
  "sched_ok M W t \<longleftrightarrow> length W = t \<and> (\<forall>u < t. W ! u = fips_W M u)"

lemma sched_R:
  assumes "16 \<le> t" and "sched_ok M W t"
  shows "sched_ok M (sha_R t W) (Suc t)" "sha_R t W ! t = fips_W M t"
proof -
  have W: "length W = t" "\<And>u. u < t \<Longrightarrow> W ! u = fips_W M u" using assms(2) by (auto simp: sched_ok_def)
  show e: "sha_R t W ! t = fips_W M t"
    using assms(1) W by (subst fips_W.simps) (simp add: sha_R_def nth_append sha_functions)
  show "sched_ok M (sha_R t W) (Suc t)"
    unfolding sched_ok_def
  proof (intro conjI allI impI)
    show "length (sha_R t W) = Suc t" by (simp add: sha_R_def W(1))
    fix u assume "u < Suc t"
    then show "sha_R t W ! u = fips_W M u" using e W by (cases "u = t") (simp_all add: sha_R_def nth_append)
  qed
qed

lemma sha_PR_sched:
  assumes "16 \<le> t" and "sched_ok M W t"
  shows "sha_PR a b c d e f g h t (W, A) = (sha_R t W, sha_P a b c d e f g h (fips_W M t) (sha_K ! t) A)"
  using sched_R[OF assms] by (simp add: sha_PR_def Let_def)

lemma sha_rounds_R_fips:
  assumes "length s = 8" and i: "16 \<le> i" and w: "sched_ok M W i"
  shows "\<exists>W'. sched_ok M W' (i + 8) \<and> sha_rounds_R i (W, s) = (W', fips_rounds (fips_W M) s [i..<i + 8])"
proof -
  define W1 where "W1 = sha_R i W"
  define W2 where "W2 = sha_R (i + 1) W1"
  define W3 where "W3 = sha_R (i + 2) W2"
  define W4 where "W4 = sha_R (i + 3) W3"
  define W5 where "W5 = sha_R (i + 4) W4"
  define W6 where "W6 = sha_R (i + 5) W5"
  define W7 where "W7 = sha_R (i + 6) W6"
  define W8 where "W8 = sha_R (i + 7) W7"
  have k: "16 \<le> i + j" for j using i by simp
  have o1: "sched_ok M W1 (i + 1)" using sched_R(1)[OF i w] by (simp add: W1_def)
  have o2: "sched_ok M W2 (i + 2)" using sched_R(1)[OF k o1] by (simp add: W2_def)
  have o3: "sched_ok M W3 (i + 3)" using sched_R(1)[OF k o2] by (simp add: W3_def eval_nat_numeral)
  have o4: "sched_ok M W4 (i + 4)" using sched_R(1)[OF k o3] by (simp add: W4_def eval_nat_numeral)
  have o5: "sched_ok M W5 (i + 5)" using sched_R(1)[OF k o4] by (simp add: W5_def eval_nat_numeral)
  have o6: "sched_ok M W6 (i + 6)" using sched_R(1)[OF k o5] by (simp add: W6_def eval_nat_numeral)
  have o7: "sched_ok M W7 (i + 7)" using sched_R(1)[OF k o6] by (simp add: W7_def eval_nat_numeral)
  have o8: "sched_ok M W8 (i + 8)" using sched_R(1)[OF k o7] by (simp add: W8_def eval_nat_numeral)
  have "sha_rounds_R i (W, s) = (W8, fips_rounds (fips_W M) s [i..<i + 8])"
    unfolding sha_rounds_R_def Let_def add_0_right
      sha_PR_sched[OF i w, folded W1_def] sha_PR_sched[OF k o1, folded W2_def] sha_PR_sched[OF k o2, folded W3_def]
      sha_PR_sched[OF k o3, folded W4_def] sha_PR_sched[OF k o4, folded W5_def] sha_PR_sched[OF k o5, folded W6_def]
      sha_PR_sched[OF k o6, folded W7_def] sha_PR_sched[OF k o7, folded W8_def]
    by (simp only: sha_P_eight[OF assms(1)] upt_8 fips_rounds_def foldl_Cons foldl_Nil)
  with o8 show ?thesis by blast
qed

lemma fips_rounds_append: "fips_rounds W (fips_rounds W s xs) ys = fips_rounds W s (xs @ ys)"
  by (simp add: fips_rounds_def)

lemma fips_rounds_cong: "(\<And>t. t \<in> set ts \<Longrightarrow> W t = V t) \<Longrightarrow> fips_rounds W s ts = fips_rounds V s ts"
  unfolding fips_rounds_def by (rule foldl_cong) simp_all

lemma upt_append: "i \<le> j \<Longrightarrow> j \<le> k \<Longrightarrow> [i..<j] @ [j..<k] = [i..<k]"
  using upt_add_eq_append[of i j "k - j"] by simp

lemma fips_rounds_Suc: "fips_rounds W s [0..<Suc n] = fips_round (fips_rounds W s [0..<n]) (W n) (sha_K ! n)"
  by (simp add: fips_rounds_def)

lemma sched_load: "sched_ok (load_words data) (load_words data) 16"
  by (simp add: sched_ok_def fips_W.simps) (simp add: load_words_def)

lemma sha_rounds_W_load:
  assumes "length s = 8" and "i + 8 \<le> 16"
  shows "sha_rounds_W i (load_words data) s = fips_rounds (fips_W (load_words data)) s [i..<i + 8]"
  unfolding sha_rounds_W_fips[OF assms(1)]
  by (rule fips_rounds_cong) (use assms(2) sched_load[of data] in \<open>auto simp: sched_ok_def\<close>)

lemma sha_R_loop:
  assumes "length s = 8" and "16 \<le> i" and "sched_ok M W i"
  shows "\<exists>W'. foldl (\<lambda>WA i. sha_rounds_R i WA) (W, s) (map (\<lambda>j. i + 8 * j) [0..<n]) = (W', fips_rounds (fips_W M) s [i..<i + 8 * n]) \<and>
    sched_ok M W' (i + 8 * n)"
proof (induction n)
  case 0
  then show ?case using assms by (auto simp: fips_rounds_def)
next
  case (Suc n)
  then obtain W1 where W1: "foldl (\<lambda>WA i. sha_rounds_R i WA) (W, s) (map (\<lambda>j. i + 8 * j) [0..<n]) =
      (W1, fips_rounds (fips_W M) s [i..<i + 8 * n])" "sched_ok M W1 (i + 8 * n)" by blast
  let ?s = "fips_rounds (fips_W M) s [i..<i + 8 * n]"
  obtain W2 where W2: "sched_ok M W2 (i + 8 * n + 8)"
      "sha_rounds_R (i + 8 * n) (W1, ?s) = (W2, fips_rounds (fips_W M) ?s [i + 8 * n..<i + 8 * n + 8])"
    using sha_rounds_R_fips[of ?s "i + 8 * n" M W1] W1(2) assms(1,2) by auto
  have "[i..<i + 8 * n] @ [i + 8 * n..<i + 8 * n + 8] = [i..<i + 8 * Suc n]"
    using upt_add_eq_append[of i "i + 8 * n" 8] by (simp add: ac_simps)
  then show ?case using W1(1) W2 by (auto simp: fips_rounds_append ac_simps)
qed

lemma sha_block_fips:
  assumes "length st = 8"
  shows "sha_block st data = fips_block st data"
proof -
  let ?M = "load_words data"
  define A where "A = fips_rounds (fips_W ?M) st [0..<16]"
  have l: "length (fips_rounds (fips_W ?M) st [0..<8]) = 8" using assms by simp
  have "foldl (\<lambda>A i. sha_rounds_W i ?M A) st [0, 8] = fips_rounds (fips_W ?M) (fips_rounds (fips_W ?M) st [0..<8]) [8..<16]"
    using sha_rounds_W_load[OF assms, of 0 data] sha_rounds_W_load[OF l, of 8 data] by simp
  also have "\<dots> = A" unfolding fips_rounds_append A_def by (subst upt_append) simp_all
  finally have a: "foldl (\<lambda>A i. sha_rounds_W i ?M A) st [0, 8] = A" .
  have lA: "length A = 8" using assms by (simp add: A_def)
  have js: "map (\<lambda>j. 16 + 8 * j) [0..<6] = [16, 24, 32, 40, 48, 56 :: nat]" by (simp add: upt_rec)
  obtain W' where W': "foldl (\<lambda>WA i. sha_rounds_R i WA) (?M, A) [16, 24, 32, 40, 48, 56] =
      (W', fips_rounds (fips_W ?M) A [16..<64])"
    using sha_R_loop[OF lA _ sched_load[of data], where n = 6] unfolding js by auto
  have "fips_rounds (fips_W ?M) A [16..<64] = fips_rounds (fips_W ?M) st [0..<64]"
    unfolding A_def fips_rounds_append by (subst upt_append) simp_all
  then show ?thesis unfolding sha_block_def Let_def a W' by (simp add: fips_block_def)
qed

text \<open>The small variant moves the variables instead.\<close>

lemma sha_small_step_fips:
  assumes "length s = 8" and w: "sched_ok (load_words data) W t" and "t < 64"
  shows "\<exists>W'. sha_small_step data t (W, s) = (W', fips_round s (fips_W (load_words data) t) (sha_K ! t)) \<and>
    sched_ok (load_words data) W' (Suc t)"
proof -
  let ?M = "load_words data"
  define W' where "W' = (if t < 16 then W @ [get_uint32_be data (4 * t)] else sha_R t W)"
  have l: "length W = t" using w by (simp add: sched_ok_def)
  have n: "?M ! t = get_uint32_be data (4 * t)" if "t < 16" using that by (simp add: load_words_def)
  have o: "sched_ok ?M W' (Suc t) \<and> W' ! t = fips_W ?M t"
  proof (cases "t < 16")
    case True
    then have "fips_W ?M t = get_uint32_be data (4 * t)" by (subst fips_W.simps) (simp add: n)
    then show ?thesis using True w l by (auto simp: W'_def sched_ok_def nth_append less_Suc_eq)
  next
    case False
    then show ?thesis using sched_R[OF _ w] by (simp add: W'_def)
  qed
  obtain a b c d e f g h where s: "s = [a, b, c, d, e, f, g, h]" by (rule length_8[OF assms(1)])
  have "sha_small_step data t (W, s) = (W', fips_round s (fips_W ?M t) (sha_K ! t))"
    unfolding sha_small_step_def Let_def fst_conv snd_conv W'_def[symmetric] conjunct2[OF o] s
    by (simp add: P_eval)
  with o show ?thesis by blast
qed

lemma sha_block_small_fips:
  assumes "length st = 8"
  shows "sha_block_small st data = fips_block st data"
proof -
  let ?M = "load_words data"
  have "n \<le> 64 \<Longrightarrow> \<exists>W'. foldl (\<lambda>WA i. sha_small_step data i WA) ([], st) [0..<n] = (W', fips_rounds (fips_W ?M) st [0..<n]) \<and>
      sched_ok ?M W' n" for n
  proof (induction n)
    case 0
    then show ?case by (simp add: fips_rounds_def sched_ok_def)
  next
    case (Suc n)
    then obtain W1 where W1: "foldl (\<lambda>WA i. sha_small_step data i WA) ([], st) [0..<n] = (W1, fips_rounds (fips_W ?M) st [0..<n])"
        "sched_ok ?M W1 n" by auto
    let ?s = "fips_rounds (fips_W ?M) st [0..<n]"
    have "length ?s = 8" using assms by simp
    from sha_small_step_fips[OF this W1(2)] Suc.prems
    obtain W2 where W2: "sha_small_step data n (W1, ?s) = (W2, fips_round ?s (fips_W ?M n) (sha_K ! n))" "sched_ok ?M W2 (Suc n)"
      by auto
    have "foldl (\<lambda>WA i. sha_small_step data i WA) ([], st) [0..<Suc n] = (W2, fips_rounds (fips_W ?M) st [0..<Suc n])"
      using W1(1) W2(1) by (simp add: fips_rounds_Suc del: upt_Suc) simp
    with W2(2) show ?case by blast
  qed
  from this[of 64] show ?thesis by (auto simp: sha_block_small_def fips_block_def)
qed

section \<open>Streaming\<close>

lemma length_sha_block [simp]: "length st = 8 \<Longrightarrow> length (sha_block st data) = 8"
  by (simp add: sha_block_fips fips_block_def)

lemma length_fips_block [simp]: "length st = 8 \<Longrightarrow> length (fips_block st data) = 8"
  by (simp add: fips_block_def)

lemma length_fips_blocks [simp]: "length st = 8 \<Longrightarrow> length (fips_blocks st msg) = 8"
proof (induction st msg rule: fips_blocks.induct)
  case (1 st msg)
  then show ?case by (subst fips_blocks.simps) simp
qed

lemma fips_blocks_short: "length msg < 64 \<Longrightarrow> fips_blocks st msg = st"
  by (subst fips_blocks.simps) simp

lemma fips_blocks_append:
  "64 dvd length a \<Longrightarrow> fips_blocks st (a @ b) = fips_blocks (fips_blocks st a) b"
proof (induction st a rule: fips_blocks.induct)
  case (1 st a)
  show ?case
  proof (cases "64 \<le> length a")
    case True
    then have d: "64 dvd length (drop 64 a)" using 1(2) by (simp add: dvd_diff_nat)
    have "fips_blocks st (a @ b) = fips_blocks (fips_block st (take 64 a)) (drop 64 a @ b)"
      using True by (subst fips_blocks.simps) simp
    also have "\<dots> = fips_blocks (fips_blocks (fips_block st (take 64 a)) (drop 64 a)) b" by (rule 1(1)[OF True d])
    also have "fips_blocks (fips_block st (take 64 a)) (drop 64 a) = fips_blocks st a"
      using True by (subst (2) fips_blocks.simps) simp
    finally show ?thesis .
  next
    case False
    then have "length a = 0" using 1(2) by (meson dvd_imp_le gr0I not_less)
    then show ?thesis by (simp add: fips_blocks_short)
  qed
qed

lemma fips_blocks_block: "length blk = 64 \<Longrightarrow> fips_blocks st (blk @ msg) = fips_blocks (fips_block st blk) msg"
  by (subst fips_blocks.simps) simp

lemma fips_blocks_one: "length blk = 64 \<Longrightarrow> fips_blocks st blk = fips_block st blk"
  using fips_blocks_block[of blk st "[]"] by (simp add: fips_blocks_short)

definition full :: "u8 list \<Rightarrow> u8 list" where
  "full m = take (64 * (length m div 64)) m"

definition tail :: "u8 list \<Rightarrow> u8 list" where
  "tail m = drop (64 * (length m div 64)) m"

lemma full_tail: "full m @ tail m = m" "length (full m) = 64 * (length m div 64)" "length (tail m) = length m mod 64"
  by (simp_all add: full_def tail_def minus_mult_div_eq_mod)

lemma fips_blocks_full: "fips_blocks st m = fips_blocks st (full m)"
proof -
  have "fips_blocks st (full m @ tail m) = fips_blocks (fips_blocks st (full m)) (tail m)"
    by (rule fips_blocks_append) (simp add: full_tail(2))
  also have "\<dots> = fips_blocks st (full m)" by (rule fips_blocks_short) (simp add: full_tail(3))
  finally show ?thesis by (simp add: full_tail(1))
qed

text \<open>The context holds the message so far: its whole blocks hashed, the rest in the buffer.\<close>

definition absorbed :: "u32 list \<Rightarrow> sha256_context \<Rightarrow> u8 list \<Rightarrow> bool" where
  "absorbed st ctx m \<longleftrightarrow>
     length (sx_buffer ctx) = 64 \<and> sx_state ctx = fips_blocks st m \<and> take (length m mod 64) (sx_buffer ctx) = tail m \<and>
     length m = unat (sx_total0 ctx) + 2 ^ 32 * unat (sx_total1 ctx)"

lemma sha_blocks_loop_spec:
  assumes "length (sx_state ctx) = 8"
  shows "sha_blocks_loop input ctx = (tail input, ctx\<lparr>sx_state := fips_blocks (sx_state ctx) input\<rparr>)"
  using assms
proof (induction input ctx rule: sha_blocks_loop.induct)
  case (1 input ctx)
  show ?case
  proof (cases "64 \<le> length input")
    case True
    let ?c = "sha256_process (take 64 input) ctx"
    have st: "sx_state ?c = fips_block (sx_state ctx) (take 64 input)"
      using 1(2) by (simp add: sha256_process_def sha_block_fips)
    then have "length (sx_state ?c) = 8" using 1(2) by simp
    note ih = 1(1)[OF True this]
    have "tail (drop 64 input) = tail input"
      using True by (simp add: tail_def le_div_geq[of 64 "length input"] add.commute)
    moreover have "fips_blocks (sx_state ctx) input = fips_blocks (sx_state ?c) (drop 64 input)"
      using True st by (subst fips_blocks.simps) simp
    ultimately show ?thesis using ih True by (subst sha_blocks_loop.simps) (simp add: sha256_process_def)
  next
    case False
    then show ?thesis by (subst sha_blocks_loop.simps) (simp add: tail_def fips_blocks_short)
  qed
qed

definition held :: "u32 list \<Rightarrow> sha256_context \<Rightarrow> u8 list \<Rightarrow> bool" where
  "held st ctx m \<longleftrightarrow>
     length (sx_buffer ctx) = 64 \<and> sx_state ctx = fips_blocks st m \<and> take (length m mod 64) (sx_buffer ctx) = tail m"

lemma tail_append: "64 dvd length a \<Longrightarrow> tail (a @ b) = tail b"
  by (auto simp: tail_def elim!: dvdE)

lemma length_buf_put: "off + length bs \<le> length b \<Longrightarrow> length (buf_put b off bs) = length b"
  by (simp add: buf_put_def)

text \<open>The last step of an update: what is left of the input goes into the buffer.\<close>

definition sha_absorb :: "u8 list \<Rightarrow> nat \<Rightarrow> sha256_context \<Rightarrow> sha256_context" where
  "sha_absorb input left ctx =
     (let (input, ctx) = sha_blocks_loop input ctx
      in if input \<noteq> [] then ctx\<lparr>sx_buffer := buf_put (sx_buffer ctx) left input\<rparr> else ctx)"

lemma sha_absorb_aligned:
  assumes st: "length st = 8" and h: "held st ctx m" and d: "64 dvd length m"
  shows "held st (sha_absorb input 0 ctx) (m @ input)"
proof -
  have c: "sx_state ctx = fips_blocks st m" "length (sx_buffer ctx) = 64" using h by (simp_all add: held_def)
  have l: "sha_blocks_loop input ctx = (tail input, ctx\<lparr>sx_state := fips_blocks (sx_state ctx) input\<rparr>)"
    by (rule sha_blocks_loop_spec) (simp add: c st)
  have t: "tail (m @ input) = tail input" by (rule tail_append[OF d])
  have f: "fips_blocks st (m @ input) = fips_blocks (sx_state ctx) input" unfolding c by (rule fips_blocks_append[OF d])
  have n: "length (m @ input) mod 64 = length (tail input)" using full_tail(3)[of "m @ input"] t by simp
  have k: "length (tail input) < 64" by (simp add: full_tail(3))
  show ?thesis
    using k c(2) unfolding held_def sha_absorb_def l Let_def f n t by (simp add: buf_put_def)
qed

lemma sha_absorb_short:
  assumes h: "held st ctx m" and "length st = 8" and s: "length m mod 64 + length input < 64"
  shows "held st (sha_absorb input (length m mod 64) ctx) (m @ input)"
proof -
  have c: "sx_state ctx = fips_blocks st m" "length (sx_buffer ctx) = 64" "take (length m mod 64) (sx_buffer ctx) = tail m"
    using h by (simp_all add: held_def)
  have l: "sha_blocks_loop input ctx = (input, ctx)" using s by (subst sha_blocks_loop.simps) simp
  have d: "(length m + length input) div 64 = length m div 64" "(length m + length input) mod 64 = length m mod 64 + length input"
    using s by (simp_all add: div_add1_eq[of "length m"] mod_add_eq[symmetric, of "length m"])
  have "full (m @ input) = full m" "tail (m @ input) = tail m @ input" using d by (simp_all add: full_def tail_def)
  then have f: "fips_blocks st (m @ input) = fips_blocks st m" "tail (m @ input) = tail m @ input"
    using fips_blocks_full[of st "m @ input"] fips_blocks_full[of st m] by simp_all
  show ?thesis
    using c s unfolding held_def sha_absorb_def l Let_def f by (auto simp: d buf_put_def full_tail(3))
qed

lemma sha_fill_buffer:
  assumes st: "length st = 8" and h: "held st ctx m" and f: "fill = 64 - length m mod 64" "fill \<le> length input"
    and b: "b = buf_put (sx_buffer ctx) (length m mod 64) (take fill input)"
  shows "held st (sha256_process b (ctx\<lparr>sx_buffer := b\<rparr>)) (m @ take fill input)" "64 dvd length (m @ take fill input)"
proof -
  have c: "sx_state ctx = fips_blocks st m" "length (sx_buffer ctx) = 64" "take (length m mod 64) (sx_buffer ctx) = tail m"
    using h by (simp_all add: held_def)
  have bm: "b = tail m @ take fill input" using c f by (simp add: b buf_put_def)
  have lb: "length b = 64" using f by (simp add: bm full_tail(3))
  have e: "m @ take fill input = full m @ b" using full_tail(1)[of m] by (simp add: bm)
  show d: "64 dvd length (m @ take fill input)" unfolding e by (simp add: lb full_tail(2))
  have "fips_blocks st (m @ take fill input) = fips_blocks (fips_blocks st (full m)) b"
    unfolding e by (rule fips_blocks_append) (simp add: full_tail(2))
  also have "\<dots> = sha_block (sx_state ctx) b"
    using c(1) st by (simp add: fips_blocks_one[OF lb] fips_blocks_full[of st m, symmetric] sha_block_fips)
  finally show "held st (sha256_process b (ctx\<lparr>sx_buffer := b\<rparr>)) (m @ take fill input)"
    using d lb by (simp add: held_def sha256_process_def tail_def dvd_eq_mod_eq_0)
qed

lemma unat_low6: "unat (w AND 0x3F :: u32) = unat w mod 64"
proof -
  have "w AND 0x3F = take_bit 6 w" by (simp add: take_bit_eq_mask mask_eq_exp_minus_1)
  then have "unat (w AND 0x3F) = take_bit 6 (unat w)" by (simp only: unsigned_take_bit_eq)
  then show ?thesis by (simp add: take_bit_eq_mod)
qed

lemma and_all_ones: "(w :: u32) AND 0xFFFFFFFF = w"
proof -
  have "(0xFFFFFFFF :: u32) = - 1" by simp
  then show ?thesis by (simp only: and.right_neutral)
qed

text \<open>The two-word length counts the bytes, with the carry.\<close>

lemma total_add:
  fixes t0 t1 :: u32
  assumes "n < 2 ^ 32" and "L = unat t0 + 2 ^ 32 * unat t1" and "L + n < 2 ^ 64"
  shows "L + n = unat (t0 + of_nat n) + 2 ^ 32 * unat (if t0 + of_nat n < of_nat n then t1 + 1 else t1)"
proof -
  have n: "unat (of_nat n :: u32) = n" using assms(1) by (simp add: unsigned_of_nat take_bit_nat_eq_self)
  have s: "unat (t0 + of_nat n) = (unat t0 + n) mod 2 ^ 32" by (simp add: unat_word_ariths n)
  have b: "unat t0 < 2 ^ 32" by (rule order_less_le_trans[OF unsigned_less]) simp
  show ?thesis
  proof (cases "unat t0 + n < 2 ^ 32")
    case True
    then have "unat (t0 + of_nat n) = unat t0 + n" by (simp add: s)
    then show ?thesis using assms(2) by (simp add: word_less_nat_alt n)
  next
    case False
    then have m: "(unat t0 + n) mod 2 ^ 32 = unat t0 + n - 2 ^ 32" using b assms(1) by (simp add: mod_if)
    have "t0 + of_nat n < of_nat n" using m b assms(1) False by (simp add: word_less_nat_alt n s)
    moreover have "unat (t1 + 1) = unat t1 + 1"
    proof -
      have "unat t1 + 1 < 2 ^ 32" using assms(2,3) False by simp
      then show ?thesis by (simp add: unat_word_ariths)
    qed
    ultimately show ?thesis using assms(2) m False by (simp add: s)
  qed
qed

lemma sha_absorb_totals [simp]:
  "sx_total0 (sha_absorb input left ctx) = sx_total0 ctx" "sx_total1 (sha_absorb input left ctx) = sx_total1 ctx"
  "sx_is224 (sha_absorb input left ctx) = sx_is224 ctx"
proof -
  have "sx_total0 (snd (sha_blocks_loop input ctx)) = sx_total0 ctx \<and> sx_total1 (snd (sha_blocks_loop input ctx)) = sx_total1 ctx \<and>
      sx_is224 (snd (sha_blocks_loop input ctx)) = sx_is224 ctx"
  proof (induction input ctx rule: sha_blocks_loop.induct)
    case (1 input ctx)
    then show ?case by (subst (1 2 3) sha_blocks_loop.simps) (simp add: sha256_process_def)
  qed
  then show "sx_total0 (sha_absorb input left ctx) = sx_total0 ctx" "sx_total1 (sha_absorb input left ctx) = sx_total1 ctx"
    "sx_is224 (sha_absorb input left ctx) = sx_is224 ctx"
    by (auto simp: sha_absorb_def Let_def split: prod.split)
qed

lemma sha256_update_eq:
  "input \<noteq> [] \<Longrightarrow> sha256_update input ctx =
     (let ilen = of_nat (length input); left = unat (sx_total0 ctx) mod 64; fill = 64 - left;
          t0 = sx_total0 ctx + ilen;
          ctx1 = ctx\<lparr>sx_total0 := t0, sx_total1 := (if t0 < ilen then sx_total1 ctx + 1 else sx_total1 ctx)\<rparr>
      in if left \<noteq> 0 \<and> fill \<le> length input
         then let b = buf_put (sx_buffer ctx) left (take fill input)
              in sha_absorb (drop fill input) 0 (sha256_process b (ctx1\<lparr>sx_buffer := b\<rparr>))
         else sha_absorb input left ctx1)"
proof -
  assume i: "input \<noteq> []"
  obtain l where l: "l = unat (sx_total0 ctx) mod 64" by blast
  have e: "unat (sx_total0 ctx AND 0x3F) = l" by (simp add: unat_low6 l)
  show ?thesis unfolding sha256_update_def e l[symmetric]
    using i by (auto simp: and_all_ones sha_absorb_def Let_def)
qed

lemma held_totals: "held st (ctx\<lparr>sx_total0 := a, sx_total1 := b\<rparr>) m = held st ctx m"
  by (simp add: held_def)

lemma update_absorbed:
  assumes st: "length st = 8" and a: "absorbed st ctx m" and n: "length input < 2 ^ 32" "length m + length input < 2 ^ 64"
  shows "absorbed st (sha256_update input ctx) (m @ input) \<and> sx_is224 (sha256_update input ctx) = sx_is224 ctx"
proof (cases "input = []")
  case True
  then show ?thesis using a by (simp add: sha256_update_def)
next
  case False
  have h: "held st ctx m" and L: "length m = unat (sx_total0 ctx) + 2 ^ 32 * unat (sx_total1 ctx)"
    using a unfolding absorbed_def held_def by blast+
  define left where "left = unat (sx_total0 ctx) mod 64"
  have "(2 :: nat) ^ 32 * unat (sx_total1 ctx) = 64 * (2 ^ 26 * unat (sx_total1 ctx))" by simp
  then have l: "left = length m mod 64" unfolding L left_def by (simp only: mod_mult_self2)
  define t0 where "t0 = sx_total0 ctx + of_nat (length input)"
  define t1 where "t1 = (if t0 < of_nat (length input) then sx_total1 ctx + 1 else sx_total1 ctx)"
  define c1 where "c1 = ctx\<lparr>sx_total0 := t0, sx_total1 := t1\<rparr>"
  have T: "length (m @ input) = unat t0 + 2 ^ 32 * unat t1"
    using total_add[OF n(1) L n(2)] by (simp add: t0_def t1_def)
  have h1: "held st c1 m" using h by (simp add: c1_def held_totals)
  define fill where "fill = 64 - left"
  define b where "b = buf_put (sx_buffer c1) left (take fill input)"
  note u = sha256_update_eq[OF False, of ctx, unfolded Let_def, folded left_def, folded t0_def, folded t1_def, folded c1_def fill_def]
  show ?thesis
  proof (cases "left \<noteq> 0 \<and> fill \<le> length input")
    case True
    define c2 where "c2 = sha256_process b (c1\<lparr>sx_buffer := b\<rparr>)"
    note f = sha_fill_buffer[OF st h1 fill_def[unfolded l] conjunct2[OF True] b_def[unfolded l], folded c2_def]
    have "sha256_update input ctx = sha_absorb (drop fill input) 0 c2"
      using u True by (simp add: b_def c2_def c1_def)
    moreover have "held st (sha_absorb (drop fill input) 0 c2) ((m @ take fill input) @ drop fill input)"
      by (rule sha_absorb_aligned[OF st f])
    moreover have "sx_total0 c2 = t0" "sx_total1 c2 = t1" "sx_is224 c2 = sx_is224 ctx"
      by (simp_all add: c2_def c1_def sha256_process_def)
    ultimately show ?thesis using T by (simp add: absorbed_def held_def)
  next
    case F: False
    have "held st (sha_absorb input left c1) (m @ input)"
    proof (cases "left = 0")
      case True
      then have "64 dvd length m" using l by (simp add: dvd_eq_mod_eq_0)
      from sha_absorb_aligned[OF st h1 this] True show ?thesis by simp
    next
      case False
      then show ?thesis using F sha_absorb_short[OF h1 st] by (simp add: l fill_def)
    qed
    moreover have "sha256_update input ctx = sha_absorb input left c1" using u F by auto
    moreover have "sx_total0 c1 = t0" "sx_total1 c1 = t1" "sx_is224 c1 = sx_is224 ctx" by (simp_all add: c1_def)
    ultimately show ?thesis using T by (simp add: absorbed_def held_def)
  qed
qed

text \<open>The bytes of numbers.\<close>

lemma unat_drop_div: "unat (drop_bit n w) = unat (w :: u32) div 2 ^ n"
  unfolding unat_drop_bit_eq by (rule drop_bit_eq_div)

lemma byte_of_word: "(ucast (drop_bit n w AND 0xff) :: u8) = of_nat (unat (w :: u32) div 2 ^ n)"
proof -
  have "of_nat (unat w div 2 ^ n) = (of_nat (unat (drop_bit n w)) :: u8)"
    by (simp only: unat_drop_div)
  also have "\<dots> = ucast (drop_bit n w)" by (rule bit_word_eqI) (simp add: bit_simps)
  also have "\<dots> = ucast (drop_bit n w AND 0xff)"
  proof (rule bit_word_eqI)
    fix i assume "i < LENGTH(8)"
    then have "bit (0xff :: u32) i" using bit_mask_iff[of 8 i, where 'a = u32] by (simp add: mask_eq_exp_minus_1)
    then show "bit (ucast (drop_bit n w) :: u8) i = bit (ucast (drop_bit n w AND 0xff) :: u8) i"
      by (simp add: bit_unsigned_iff bit_and_iff)
  qed
  finally show ?thesis by simp
qed

lemma put_uint32_be_bytes: "put_uint32_be w = be_bytes 4 (unat w)"
  using byte_of_word[of 24 w] byte_of_word[of 16 w] byte_of_word[of 8 w] byte_of_word[of 0 w]
  by (simp add: put_uint32_be_def be_bytes_def upt_rec)

lemma of_nat_mod_byte: "(of_nat (n mod 2 ^ 32 div 256 ^ i) :: u8) = of_nat (n div 256 ^ i)" if "i < 4" for n i
proof -
  have "bit (n mod 2 ^ 32 div 256 ^ i) j = bit (n div 256 ^ i) j" if "j < 8" for j
  proof -
    have p: "(256 :: nat) ^ i = 2 ^ (8 * i)" by (simp add: power_mult)
    have "n mod 2 ^ 32 div 256 ^ i = drop_bit (8 * i) (take_bit 32 n)" "n div 256 ^ i = drop_bit (8 * i) n"
      by (simp_all add: drop_bit_eq_div take_bit_eq_mod p)
    then show ?thesis using that \<open>i < 4\<close> by (simp add: bit_simps)
  qed
  then show ?thesis by (intro bit_word_eqI) (simp add: bit_simps)
qed

lemma be_bytes_8: "be_bytes 8 n = be_bytes 4 (n div 2 ^ 32) @ be_bytes 4 (n mod 2 ^ 32)"
proof -
  have "be_bytes 4 (n mod 2 ^ 32) = be_bytes 4 n"
    unfolding be_bytes_def by (intro map_cong refl of_nat_mod_byte) auto
  then show ?thesis by (simp add: be_bytes_def upt_rec div_mult2_eq[symmetric])
qed

text \<open>The bit length in two words.\<close>

lemma bit_length:
  fixes t0 t1 :: u32
  assumes "L = unat t0 + 2 ^ 32 * unat t1" and "L < 2 ^ 61"
  shows "unat (drop_bit 29 t0 OR push_bit 3 t1) = 8 * L div 2 ^ 32" and "unat (push_bit 3 t0) = 8 * L mod 2 ^ 32"
proof -
  have t: "unat t1 < 2 ^ 29" using assms by simp
  have "bit (drop_bit 29 t0) n \<Longrightarrow> \<not> bit (push_bit 3 t1) n" for n
    using bit_imp_le_length[of t0 "29 + n"] by (auto simp: bit_simps)
  then have o: "drop_bit 29 t0 OR push_bit 3 t1 = drop_bit 29 t0 + push_bit 3 t1"
    by (intro disjunctive_add[symmetric]) blast
  have d: "unat (drop_bit 29 t0) = unat t0 div 2 ^ 29" by (rule unat_drop_div)
  have p: "unat (push_bit 3 t1) = 8 * unat t1" using t by (simp add: push_bit_eq_mult unat_word_ariths)
  have "unat t0 < 2 ^ 32" by (rule order_less_le_trans[OF unsigned_less]) simp
  then have "unat t0 div 2 ^ 29 + 8 * unat t1 < 2 ^ 32" using t by simp
  then have "unat (drop_bit 29 t0 OR push_bit 3 t1) = unat t0 div 2 ^ 29 + 8 * unat t1"
    unfolding o by (simp add: unat_word_ariths d p)
  also have "\<dots> = (unat t0 + 2 ^ 29 * (8 * unat t1)) div 2 ^ 29" by (subst div_mult_self2) simp_all
  also have "unat t0 + 2 ^ 29 * (8 * unat t1) = L" using assms(1) by simp
  also have "L div 2 ^ 29 = (8 * L) div (8 * 2 ^ 29)" by (rule div_mult_mult1[symmetric]) simp
  also have "(8 :: nat) * 2 ^ 29 = 2 ^ 32" by simp
  finally show "unat (drop_bit 29 t0 OR push_bit 3 t1) = 8 * L div 2 ^ 32" .
  have "unat (push_bit 3 t0) = (8 * unat t0) mod 2 ^ 32" by (simp add: push_bit_eq_mult unat_word_ariths mult.commute)
  also have "\<dots> = (8 * unat t0 + 2 ^ 32 * (8 * unat t1)) mod 2 ^ 32" by (simp only: mod_mult_self2)
  also have "8 * unat t0 + 2 ^ 32 * (8 * unat t1) = 8 * L" using assms(1) by simp
  finally show "unat (push_bit 3 t0) = 8 * L mod 2 ^ 32" .
qed

lemma length_be_bytes [simp]: "length (be_bytes k n) = k"
  by (simp add: be_bytes_def)

text \<open>The last block or blocks.\<close>

lemma finish_pads:
  assumes st: "length st = 8" and a: "absorbed st ctx m" and L: "length m < 2 ^ 61"
  shows "sx_state (fst (sha256_finish ctx)) = fips_blocks st (fips_pad m)"
proof -
  define u where "u = length m mod 64"
  have c: "length (sx_buffer ctx) = 64" "sx_state ctx = fips_blocks st m" "take u (sx_buffer ctx) = tail m"
      "length m = unat (sx_total0 ctx) + 2 ^ 32 * unat (sx_total1 ctx)"
    using a unfolding absorbed_def u_def by blast+
  have "(2 :: nat) ^ 32 * unat (sx_total1 ctx) = 64 * (2 ^ 26 * unat (sx_total1 ctx))" by simp
  then have u: "unat (sx_total0 ctx AND 0x3F) = u" unfolding unat_low6 u_def c(4) by (simp only: mod_mult_self2)
  have u64: "u < 64" by (simp add: u_def)
  let ?len = "be_bytes 8 (8 * length m)"
  have len: "put_uint32_be (drop_bit 29 (sx_total0 ctx) OR push_bit 3 (sx_total1 ctx)) @ put_uint32_be (push_bit 3 (sx_total0 ctx)) = ?len"
    unfolding put_uint32_be_bytes bit_length[OF c(4) L] be_bytes_8 ..
  define b1 where "b1 = tail m @ [0x80] @ drop (u + 1) (sx_buffer ctx)"
  have b1: "(sx_buffer ctx)[u := 0x80] = b1"
    using u64 c(1,3) by (simp add: b1_def upd_conv_take_nth_drop)
  have lt: "length (tail m) = u" by (simp add: full_tail(3) u_def)
  have put: "buf_put (buf_put (x @ y) 56 h) 60 l = x @ h @ l" if "length x = 56" "length y = 8" "length h = 4" "length l = 4" for x y h l :: "u8 list"
    using that by (simp add: buf_put_def)
  have ph: "length (put_uint32_be w) = 4" for w by (simp add: put_uint32_be_def)
  have pad: "fips_pad m = full m @ (tail m @ [0x80] @ replicate ((119 - u) mod 64) 0 @ ?len)"
    using full_tail(1)[of m] by (simp add: fips_pad_def u_def)
  have blocks: "fips_blocks st (full m @ x) = fips_blocks (sx_state ctx) x" for x
    unfolding c(2) fips_blocks_full[of st m] by (rule fips_blocks_append) (simp add: full_tail(2))
  show ?thesis
  proof (cases "u + 1 \<le> 56")
    case True
    let ?x = "tail m @ [0x80] @ replicate (55 - u) 0"
    define blk where "blk = ?x @ ?len"
    have "buf_put b1 (u + 1) (replicate (56 - (u + 1)) 0) = ?x @ drop 56 (sx_buffer ctx)"
      using True lt by (simp add: b1_def buf_put_def drop_Cons')
    then have s: "sx_state (fst (sha256_finish ctx)) = sha_block (sx_state ctx) blk"
      using True u b1 put[of ?x "drop 56 (sx_buffer ctx)"] lt c(1) len
      by (simp add: sha256_finish_def Let_def sha256_process_def ph blk_def)
    have "119 - u = 64 + (55 - u)" using True by simp
    then have "(119 - u) mod 64 = (55 - u) mod 64" by (simp only: mod_add_self1)
    then have "(119 - u) mod 64 = 55 - u" by simp
    then have "fips_pad m = full m @ blk" by (simp add: pad blk_def)
    moreover have "length blk = 64" using True lt by (simp add: blk_def)
    ultimately show ?thesis using s st c(2) by (simp add: blocks fips_blocks_one sha_block_fips)
  next
    case False
    define blk where "blk = tail m @ [0x80] @ replicate (63 - u) (0 :: u8)"
    define blk2 where "blk2 = replicate 56 0 @ ?len"
    have e: "buf_put b1 (u + 1) (replicate (64 - (u + 1)) 0) = blk"
      using u64 lt c(1) by (simp add: b1_def buf_put_def blk_def)
    have l: "length blk = 64" using u64 lt by (simp add: blk_def)
    have "buf_put blk 0 (replicate 56 0) = replicate 56 0 @ drop 56 blk" by (simp add: buf_put_def)
    then have s: "sx_state (fst (sha256_finish ctx)) = sha_block (sha_block (sx_state ctx) blk) blk2"
      using False u b1 e put[of "replicate 56 0" "drop 56 blk"] l len
      by (simp add: sha256_finish_def Let_def sha256_process_def ph blk2_def)
    have "(119 - u) mod 64 = (63 - u) + 56" using False u64 by simp
    then have "replicate ((119 - u) mod 64) (0 :: u8) = replicate (63 - u) 0 @ replicate 56 0" by (simp only: replicate_add)
    then have "fips_pad m = full m @ blk @ blk2" unfolding pad blk_def blk2_def by (simp only: append_assoc)
    moreover have "length blk2 = 64" by (simp add: blk2_def)
    ultimately show ?thesis using s l st c(2) by (simp add: blocks fips_blocks_block fips_blocks_one sha_block_fips)
  qed
qed

lemma finish_output:
  assumes "length st = 8" and "absorbed st ctx m" and "length m < 2 ^ 61"
  shows "snd (sha256_finish ctx) =
    concat (map (\<lambda>w. be_bytes 4 (unat w)) (take (if sx_is224 ctx then 7 else 8) (fips_blocks st (fips_pad m))))"
proof -
  have "snd (sha256_finish ctx) = concat (map put_uint32_be (take (if sx_is224 ctx then 7 else 8) (sx_state (fst (sha256_finish ctx)))))"
    by (simp add: sha256_finish_def Let_def sha256_process_def)
  moreover have "put_uint32_be = (\<lambda>w. be_bytes 4 (unat w))" by (rule ext) (rule put_uint32_be_bytes)
  ultimately show ?thesis unfolding finish_pads[OF assms] by (simp only:)
qed

section \<open>Properties\<close>

definition feed :: "u8 list list \<Rightarrow> sha256_context \<Rightarrow> sha256_context" where
  "feed chunks ctx = foldl (\<lambda>ctx c. sha256_update c ctx) ctx chunks"

lemma sha256_update_Nil [simp]: "sha256_update [] ctx = ctx"
  by (simp add: sha256_update_def)

lemma feed_absorbed:
  "length st = 8 \<Longrightarrow> absorbed st ctx m \<Longrightarrow> \<forall>c \<in> set chunks. length c < 2 ^ 32 \<Longrightarrow> length m + length (concat chunks) < 2 ^ 64 \<Longrightarrow>
     absorbed st (feed chunks ctx) (m @ concat chunks) \<and> sx_is224 (feed chunks ctx) = sx_is224 ctx"
proof (induction chunks arbitrary: ctx m)
  case (Cons c chunks)
  have u: "absorbed st (sha256_update c ctx) (m @ c) \<and> sx_is224 (sha256_update c ctx) = sx_is224 ctx"
    by (rule update_absorbed[OF Cons.prems(1,2)]) (use Cons.prems(3,4) in simp_all)
  have "absorbed st (feed chunks (sha256_update c ctx)) ((m @ c) @ concat chunks) \<and>
      sx_is224 (feed chunks (sha256_update c ctx)) = sx_is224 (sha256_update c ctx)"
    by (rule Cons.IH[OF Cons.prems(1) conjunct1[OF u]]) (use Cons.prems(3,4) in simp_all)
  with u show ?case by (simp add: feed_def)
qed (simp add: feed_def)

lemma starts_absorbed: "length (sx_buffer ctx) = 64 \<Longrightarrow> absorbed (fips_init is224) (sha256_starts is224 ctx) []"
  by (simp add: absorbed_def sha256_starts_def fips_init_def fips_blocks_short tail_def)

lemma length_fips_init [simp]: "length (fips_init is224) = 8"
  by (simp add: fips_init_def)

lemma feed_finish:
  assumes "length (sx_buffer ctx) = 64" and "\<forall>c \<in> set chunks. length c < 2 ^ 32" and "length (concat chunks) < 2 ^ 61"
  shows "snd (sha256_finish (feed chunks (sha256_starts is224 ctx))) = fips_sha2 is224 (concat chunks)"
proof -
  have "absorbed (fips_init is224) (feed chunks (sha256_starts is224 ctx)) ([] @ concat chunks) \<and>
      sx_is224 (feed chunks (sha256_starts is224 ctx)) = sx_is224 (sha256_starts is224 ctx)"
    by (rule feed_absorbed[OF length_fips_init starts_absorbed[OF assms(1)] assms(2)]) (use assms(3) in simp)
  then show ?thesis
    using finish_output[OF length_fips_init, of is224 _ "concat chunks"] assms(3)
    by (simp add: fips_sha2_def sha256_starts_def)
qed





end
