(* ===== verification/Authd.thy ===== *)
theory Authd
  imports Sha256
begin

text \<open>
  The authentication server, \<^verbatim>\<open>pkg/authd/server/main.cc\<close>: the shadow file of salted SHA-256
  hashes, its parser with the hex helpers, the constant-time comparison and the one IPC handler.
  The file is its contents, or \<open>None\<close> when it cannot be opened; \<^verbatim>\<open>fgets\<close> cuts it into the lines
  the server sees.
\<close>

section \<open>Hex\<close>

definition ch :: "char \<Rightarrow> nat" where
  "ch c = of_char c"

definition hex_nibble :: "char \<Rightarrow> int" where
  "hex_nibble c =
     (if ch CHR ''0'' \<le> ch c \<and> ch c \<le> ch CHR ''9'' then int (ch c) - int (ch CHR ''0'')
      else if ch CHR ''a'' \<le> ch c \<and> ch c \<le> ch CHR ''f'' then int (ch c) - int (ch CHR ''a'') + 10
      else if ch CHR ''A'' \<le> ch c \<and> ch c \<le> ch CHR ''F'' then int (ch c) - int (ch CHR ''A'') + 10
      else - 1)"

fun hex_decode_loop :: "string \<Rightarrow> u8 list option" where
  "hex_decode_loop (a # b # hex) =
     (let hi = hex_nibble a; lo = hex_nibble b
      in if hi < 0 \<or> lo < 0 then None
         else map_option (\<lambda>out. word_of_int (push_bit 4 hi OR lo) # out) (hex_decode_loop hex))"
| "hex_decode_loop _ = Some []"

definition hex_decode :: "string \<Rightarrow> u8 list option" where
  "hex_decode hex = (if length hex mod 2 \<noteq> 0 then None else hex_decode_loop hex)"

definition hex_digits :: string where
  "hex_digits = ''0123456789abcdef''"

definition hex_encode :: "u8 list \<Rightarrow> string" where
  "hex_encode p = concat (map (\<lambda>b. [hex_digits ! unat (drop_bit 4 b), hex_digits ! unat (b AND 0xf)]) p)"

section \<open>Hashing and comparing\<close>

definition bytes_of :: "string \<Rightarrow> u8 list" where
  "bytes_of s = map of_char s"

definition salted_hash :: "u8 list \<Rightarrow> string \<Rightarrow> string" where
  "salted_hash salt pass =
     (let ctx = sha256_starts False sha256_init;
          ctx = (if salt \<noteq> [] then sha256_update salt ctx else ctx);
          ctx = sha256_update (bytes_of pass) ctx
      in hex_encode (snd (sha256_finish ctx)))"

fun ct_diff :: "string \<Rightarrow> string \<Rightarrow> u8 \<Rightarrow> u8" where
  "ct_diff (a # as) (b # bs) diff = ct_diff as bs (diff OR (of_char a XOR of_char b))"
| "ct_diff _ _ diff = diff"

definition ct_equal :: "string \<Rightarrow> string \<Rightarrow> bool" where
  "ct_equal a b = (if length a \<noteq> length b then False else ct_diff a b 0 = 0)"

section \<open>The credential store\<close>

record Cred =
  cr_user :: string
  cr_salt :: "u8 list"
  cr_hash_hex :: string

definition strip_end :: "string \<Rightarrow> string" where
  "strip_end s = rev (dropWhile (\<lambda>c. c = CHR ''\<newline>'' \<or> c = CHR 0x0D \<or> c = CHR '' '') (rev s))"

definition parse_shadow :: "string \<Rightarrow> Cred option" where
  "parse_shadow line =
     (let s = strip_end line
      in if s = [] \<or> hd s = CHR ''#'' then None
         else case find_idx (\<lambda>c. c = CHR '':'') s of
                None \<Rightarrow> None
              | Some c1 \<Rightarrow>
                  case find_idx (\<lambda>c. c = CHR '':'') (drop (c1 + 1) s) of
                    None \<Rightarrow> None
                  | Some k \<Rightarrow>
                      let c2 = c1 + 1 + k; user = take c1 s; salt_hex = take (c2 - c1 - 1) (drop (c1 + 1) s);
                          hash_hex = drop (c2 + 1) s
                      in if user = [] \<or> hash_hex = [] then None
                         else map_option (\<lambda>salt. \<lparr>cr_user = user, cr_salt = salt, cr_hash_hex = hash_hex\<rparr>) (hex_decode salt_hex))"

definition add_shadow_line :: "string \<Rightarrow> Cred list \<Rightarrow> Cred list \<times> bool" where
  "add_shadow_line line creds =
     (case parse_shadow (cstr line) of None \<Rightarrow> (creds, False) | Some e \<Rightarrow> (creds @ [e], True))"

definition fallback_line :: string where
  "fallback_line = ''root:0123456789abcdef0123456789abcdef:'' @
     ''73c589806fe85d70363a88077d418adad034bd3fad37315681d7f80984710f00''"

definition install_fallback :: "Cred list \<Rightarrow> Cred list" where
  "install_fallback creds = fst (add_shadow_line fallback_line creds)"

text \<open>\<^verbatim>\<open>fgets(line, 256, f)\<close>: up to 255 bytes, up to and including a newline.\<close>

definition fgets_line :: "string \<Rightarrow> string" where
  "fgets_line rest =
     take 255 (case find_idx (\<lambda>c. c = CHR ''\<newline>'') rest of None \<Rightarrow> rest | Some i \<Rightarrow> take (i + 1) rest)"

lemma fgets_line_nonempty: "rest \<noteq> [] \<Longrightarrow> 0 < length (fgets_line rest)"
  by (auto simp: fgets_line_def split: option.splits)

function load_lines :: "string \<Rightarrow> Cred list \<Rightarrow> nat \<Rightarrow> Cred list \<times> nat" where
  "load_lines rest creds n =
     (if rest = [] then (creds, n)
      else let line = fgets_line rest; (creds, added) = add_shadow_line line creds
           in load_lines (drop (length line) rest) creds (if added then n + 1 else n))"
  by pat_completeness auto
termination
  by (relation "measure (\<lambda>(rest, creds, n). length rest)") (auto intro!: diff_less fgets_line_nonempty)

declare load_lines.simps [simp del]

definition load_credentials :: "string option \<Rightarrow> Cred list \<Rightarrow> Cred list" where
  "load_credentials shadow creds =
     (case shadow of
        None \<Rightarrow> install_fallback creds
      | Some content \<Rightarrow>
          let (creds, n) = load_lines content creds 0
          in if n = 0 then install_fallback creds else creds)"

section \<open>The handler\<close>

fun op_authenticate :: "Cred list \<Rightarrow> string \<Rightarrow> string \<Rightarrow> int" where
  "op_authenticate [] user pass = err EPERM"
| "op_authenticate (e # creds) user pass =
     (if cr_user e \<noteq> user then op_authenticate creds user pass
      else let got = salted_hash (cr_salt e) pass
           in if ct_equal got (cr_hash_hex e) then 0 else err EPERM)"

section \<open>The helpers\<close>

lemma of_char_u8_inj: "(of_char a :: u8) = of_char b \<longleftrightarrow> a = b"
proof
  assume "(of_char a :: u8) = of_char b"
  then have "unat (of_nat (of_char a) :: u8) = unat (of_nat (of_char b) :: u8)" by (simp add: of_nat_of_char)
  then have "(of_char a :: nat) mod 256 = of_char b mod 256" unfolding unat_of_nat by simp
  then show "a = b" by simp
qed simp

lemma xor_0_u8: "x XOR y = 0 \<longleftrightarrow> x = (y :: u8)"
  by (auto simp: bit_eq_iff bit_simps)

lemma ct_diff_0: "length a = length b \<Longrightarrow> ct_diff a b d = 0 \<longleftrightarrow> d = 0 \<and> a = b"
proof (induction a b d rule: ct_diff.induct)
  case (1 a as b bs d)
  have "d OR (of_char a XOR of_char b) = 0 \<longleftrightarrow> d = 0 \<and> a = b"
    by (simp add: or_eq_0_iff xor_0_u8 of_char_u8_inj)
  with 1 show ?case by auto
qed auto

lemma ct_equal_iff: "ct_equal a b \<longleftrightarrow> a = b"
  by (auto simp: ct_equal_def ct_diff_0)

text \<open>Sixteen digits: printing and reading a nibble.\<close>

lemma hex_nibble_digit: "n < 16 \<Longrightarrow> hex_nibble (hex_digits ! n) = int n"
proof -
  have "list_all (\<lambda>n. hex_nibble (hex_digits ! n) = int n) [0..<16]" by code_simp
  then show "n < 16 \<Longrightarrow> hex_nibble (hex_digits ! n) = int n" by (simp add: list_all_iff del: upt_Suc)
qed

lemma hex_digit_in: "n < 16 \<Longrightarrow> hex_digits ! n \<in> set hex_digits"
  by (rule nth_mem) (simp add: hex_digits_def)

lemma nibbles: "unat (drop_bit 4 b) < 16" "unat (b AND 0xf) < 16" for b :: u8
proof -
  have "unat (drop_bit 4 b) = unat b div 16" unfolding unat_drop_bit_eq using drop_bit_eq_div[of 4 "unat b"] by simp
  moreover have "unat b < 256" by (rule order_less_le_trans[OF unsigned_less]) simp
  ultimately show "unat (drop_bit 4 b) < 16" by simp
  have "b AND 0xf = take_bit 4 b" by (simp add: take_bit_eq_mask mask_eq_exp_minus_1)
  then have "unat (b AND 0xf) = take_bit 4 (unat b)" by (simp only: unsigned_take_bit_eq)
  then show "unat (b AND 0xf) < 16" by (simp add: take_bit_eq_mod)
qed

lemma byte_from_nibbles: "(word_of_int (push_bit 4 (uint (drop_bit 4 b)) OR uint (b AND 0xf)) :: u8) = b"
proof (rule bit_word_eqI)
  fix i assume i: "i < LENGTH(8)"
  have m: "bit (0xf :: u8) j \<longleftrightarrow> j < 4" "bit (0xf :: int) j \<longleftrightarrow> j < 4" for j
    using bit_mask_iff[of 4 j, where 'a = u8] bit_mask_iff[of 4 j, where 'a = int] by (auto simp: mask_eq_exp_minus_1)
  show "bit (word_of_int (push_bit 4 (uint (drop_bit 4 b)) OR uint (b AND 0xf)) :: u8) i = bit b i"
    using i by (auto simp: bit_simps m)
qed

lemma hex_decode_loop_encode: "hex_decode_loop (hex_encode bs) = Some bs"
proof (induction bs)
  case (Cons b bs)
  then show ?case using nibbles[of b] by (simp add: hex_encode_def hex_nibble_digit byte_from_nibbles)
qed (simp add: hex_encode_def)

lemma length_hex_encode: "length (hex_encode bs) = 2 * length bs"
  by (induction bs) (simp_all add: hex_encode_def)

lemma hex_decode_encode: "hex_decode (hex_encode bs) = Some bs"
  by (simp add: hex_decode_def length_hex_encode hex_decode_loop_encode)

lemma hex_encode_chars: "c \<in> set (hex_encode bs) \<Longrightarrow> c \<in> set hex_digits"
  using hex_digit_in nibbles by (auto simp: hex_encode_def)

lemma salted_hash_fips:
  assumes "length salt < 2 ^ 32" and "length pass < 2 ^ 32"
  shows "salted_hash salt pass = hex_encode (fips_sha256 (salt @ bytes_of pass))"
proof -
  have "salted_hash salt pass = hex_encode (snd (sha256_finish (feed [salt, bytes_of pass] (sha256_starts False sha256_init))))"
    by (simp add: salted_hash_def feed_def Let_def)
  also have "snd (sha256_finish (feed [salt, bytes_of pass] (sha256_starts False sha256_init))) = fips_sha256 (concat [salt, bytes_of pass])"
    by (rule feed_finish) (use assms in \<open>simp_all add: sha256_init_def bytes_of_def\<close>)
  finally show ?thesis by simp
qed

section \<open>The shadow file\<close>

definition shadow_line :: "Cred \<Rightarrow> string" where
  "shadow_line e = cr_user e @ CHR '':'' # hex_encode (cr_salt e) @ CHR '':'' # cr_hash_hex e @ ''\<newline>''"

text \<open>An entry that can be written as a line.\<close>

definition entry_ok :: "Cred \<Rightarrow> bool" where
  "entry_ok e \<longleftrightarrow>
     cr_user e \<noteq> [] \<and> hd (cr_user e) \<noteq> CHR ''#'' \<and> CHR '':'' \<notin> set (cr_user e) \<and>
     CHR ''\<newline>'' \<notin> set (cr_user e @ cr_hash_hex e) \<and> NUL \<notin> set (cr_user e @ cr_hash_hex e) \<and>
     cr_hash_hex e \<noteq> [] \<and> last (cr_hash_hex e) \<notin> {CHR '' '', CHR 0x0D} \<and> length (shadow_line e) \<le> 255"

lemma find_idx_first: "\<forall>x \<in> set a. \<not> P x \<Longrightarrow> P c \<Longrightarrow> find_idx P (a @ c # b) = Some (length a)"
  by (induction a) auto

lemma hex_digits_plain: "c \<in> set hex_digits \<Longrightarrow> c \<noteq> CHR '':'' \<and> c \<noteq> CHR ''\<newline>'' \<and> c \<noteq> NUL"
  by (auto simp: hex_digits_def)

lemma hex_encode_plain: "CHR '':'' \<notin> set (hex_encode bs)" "CHR ''\<newline>'' \<notin> set (hex_encode bs)" "NUL \<notin> set (hex_encode bs)"
  using hex_digits_plain hex_encode_chars by blast+

lemma strip_end_line:
  assumes "s \<noteq> []" and "last s \<notin> {CHR ''\<newline>'', CHR 0x0D, CHR '' ''}"
  shows "strip_end (s @ ''\<newline>'') = s"
proof -
  obtain t c where s: "s = t @ [c]" using assms(1) by (cases s rule: rev_exhaust) auto
  then show ?thesis using assms(2) by (simp add: strip_end_def)
qed

lemma parse_shadow_line:
  assumes "entry_ok e"
  shows "parse_shadow (shadow_line e) = Some e"
proof -
  let ?h = "hex_encode (cr_salt e)"
  let ?s = "cr_user e @ CHR '':'' # ?h @ CHR '':'' # cr_hash_hex e"
  have e: "cr_user e \<noteq> []" "hd (cr_user e) \<noteq> CHR ''#''" "CHR '':'' \<notin> set (cr_user e)" "cr_hash_hex e \<noteq> []"
    using assms by (auto simp: entry_ok_def)
  have "last (cr_hash_hex e) \<notin> {CHR ''\<newline>'', CHR 0x0D, CHR '' ''}"
    using assms last_in_set[OF e(4)] unfolding entry_ok_def by fastforce
  then have s: "strip_end (shadow_line e) = ?s"
    using strip_end_line[of ?s] e(4) by (simp add: shadow_line_def)
  have i1: "find_idx (\<lambda>c. c = CHR '':'') ?s = Some (length (cr_user e))"
    using e(3) by (intro find_idx_first) auto
  have i2: "find_idx (\<lambda>c. c = CHR '':'') (?h @ CHR '':'' # cr_hash_hex e) = Some (length ?h)"
    using hex_encode_plain(1)[of "cr_salt e"] by (intro find_idx_first) auto
  show ?thesis
    unfolding parse_shadow_def Let_def s i1 using e(1,2,4) by (simp add: i2 hex_decode_encode)
qed

lemma newline_once: "entry_ok e \<Longrightarrow> CHR ''\<newline>'' \<notin> set (butlast (shadow_line e)) \<and> NUL \<notin> set (shadow_line e)"
  using hex_encode_plain[of "cr_salt e"] by (auto simp: shadow_line_def entry_ok_def butlast_append)

lemma shadow_line_snoc: "shadow_line e = butlast (shadow_line e) @ ''\<newline>''" "shadow_line e \<noteq> []"
  by (simp_all add: shadow_line_def butlast_append)

lemma fgets_shadow_line:
  assumes "entry_ok e"
  shows "fgets_line (shadow_line e @ rest) = shadow_line e"
proof -
  have n: "CHR ''\<newline>'' \<notin> set (butlast (shadow_line e))" and l: "length (shadow_line e) \<le> 255"
    using newline_once[OF assms] assms by (auto simp: entry_ok_def)
  have s: "shadow_line e @ rest = butlast (shadow_line e) @ CHR ''\<newline>'' # rest"
    by (subst shadow_line_snoc(1)) simp
  have "find_idx (\<lambda>c. c = CHR ''\<newline>'') (shadow_line e @ rest) = Some (length (butlast (shadow_line e)))"
    unfolding s by (rule find_idx_first) (use n in auto)
  moreover have "length (butlast (shadow_line e)) + 1 = length (shadow_line e)" using shadow_line_snoc(2)[of e] by simp
  ultimately show ?thesis using l by (simp add: fgets_line_def)
qed

lemma add_shadow_line_ok: "entry_ok e \<Longrightarrow> add_shadow_line (shadow_line e) creds = (creds @ [e], True)"
  using newline_once[of e] parse_shadow_line[of e] by (simp add: add_shadow_line_def cstr_id)

lemma load_lines_step:
  "rest \<noteq> [] \<Longrightarrow> add_shadow_line (fgets_line rest) creds = (creds', a) \<Longrightarrow>
     load_lines rest creds n = load_lines (drop (length (fgets_line rest)) rest) creds' (if a then n + 1 else n)"
  by (subst load_lines.simps) simp

lemma load_shadow:
  "\<forall>e \<in> set es. entry_ok e \<Longrightarrow> load_lines (concat (map shadow_line es)) creds n = (creds @ es, n + length es)"
proof (induction es arbitrary: creds n)
  case (Cons e es)
  have "load_lines (shadow_line e @ concat (map shadow_line es)) creds n = load_lines (concat (map shadow_line es)) (creds @ [e]) (n + 1)"
    using load_lines_step[of "shadow_line e @ concat (map shadow_line es)" creds "creds @ [e]" True n] Cons.prems
      shadow_line_snoc(2)[of e] by (simp add: fgets_shadow_line add_shadow_line_ok)
  then show ?case using Cons by simp
qed (subst load_lines.simps, simp)

lemma authenticate_iff:
  "distinct (map cr_user creds) \<Longrightarrow>
     op_authenticate creds u p = (if \<exists>e \<in> set creds. cr_user e = u \<and> cr_hash_hex e = salted_hash (cr_salt e) p then 0 else err EPERM)"
proof (induction creds)
  case (Cons e creds)
  then show ?case by (auto simp: ct_equal_iff Let_def image_iff)
qed simp

section \<open>Properties\<close>



text \<open>
  The line buffer has 256 bytes, so a comment that is longer is read in pieces, and the rest of
  it counts as a line of its own: a credential written 255 bytes behind the hash sign of a
  comment is active.
\<close>

lemma authd_long_comment_is_credential:
  assumes "entry_ok e" and "length filler = 254" and "CHR ''\<newline>'' \<notin> set filler"
  shows "load_credentials (Some (CHR ''#'' # filler @ shadow_line e)) [] = [e]"
proof -
  let ?c = "CHR ''#'' # filler @ shadow_line e"
  have n: "CHR ''\<newline>'' \<notin> set (butlast (shadow_line e))" using newline_once[OF assms(1)] by simp
  have s: "?c = (CHR ''#'' # filler @ butlast (shadow_line e)) @ CHR ''\<newline>'' # []"
    by (subst shadow_line_snoc(1)) simp
  have "find_idx (\<lambda>c. c = CHR ''\<newline>'') ?c = Some (length (CHR ''#'' # filler @ butlast (shadow_line e)))"
    unfolding s by (rule find_idx_first) (use n assms(3) in auto)
  then have f: "fgets_line ?c = CHR ''#'' # filler" using assms(2) by (simp add: fgets_line_def)
  have "parse_shadow (CHR ''#'' # t) = None" for t
  proof -
    have "strip_end (CHR ''#'' # t) = CHR ''#'' # strip_end t"
      by (simp add: strip_end_def dropWhile_append)
    then show ?thesis by (simp add: parse_shadow_def)
  qed
  then have "add_shadow_line (CHR ''#'' # filler) [] = ([], False)" by (simp add: add_shadow_line_def cstr_def)
  with load_lines_step[of ?c "[]" "[]" False 0] f assms(2) have "load_lines ?c [] 0 = load_lines (shadow_line e) [] 0" by simp
  also have "\<dots> = ([e], 1)" using load_shadow[of "[e]" "[]" 0] assms(1) by simp
  finally show ?thesis by (simp add: load_credentials_def)
qed

lemma authd_long_comment_is_credential_witness:
  "load_credentials (Some (CHR ''#'' # replicate 254 (CHR ''x'') @ ''eve::00\<newline>'')) [] =
     [\<lparr>cr_user = ''eve'', cr_salt = [], cr_hash_hex = ''00''\<rparr>]"
proof -
  let ?e = "\<lparr>cr_user = ''eve'', cr_salt = [], cr_hash_hex = ''00''\<rparr>"
  have "entry_ok ?e" by (simp add: entry_ok_def shadow_line_def length_hex_encode)
  with authd_long_comment_is_credential[of ?e "replicate 254 (CHR ''x'')"] show ?thesis
    by (simp add: shadow_line_def hex_encode_def)
qed

end
