(* ===== verification/Shell_Input.thy ===== *)
theory Shell_Input
  imports Authd
begin

text \<open>
  Input of the shell, \<^verbatim>\<open>pkg/native_shell/server/src/main.cc\<close>: the keyboard ring buffer between the
  monitor thread and the readers, the login prompt and its question to the authentication server.
  The readers block while the ring is empty; reading a login line is modelled on the characters
  the ring delivers, and \<open>Stuck\<close> is a reader that still waits.
\<close>

section \<open>The keyboard ring\<close>

record kbd =
  kb_buf :: string
  kb_head :: nat
  kb_tail :: nat

definition KBD_SIZE :: nat where "KBD_SIZE = 256"

definition kbd_init :: kbd where
  "kbd_init = \<lparr>kb_buf = replicate KBD_SIZE NUL, kb_head = 0, kb_tail = 0\<rparr>"

definition kbd_push :: "char \<Rightarrow> kbd \<Rightarrow> kbd" where
  "kbd_push c k =
     (let next = (kb_head k + 1) mod KBD_SIZE
      in if next \<noteq> kb_tail k then k\<lparr>kb_buf := (kb_buf k)[kb_head k := c], kb_head := next\<rparr> else k)"

text \<open>Blocks while the ring is empty.\<close>

definition kbd_pop :: "kbd \<Rightarrow> (char \<times> kbd) outcome" where
  "kbd_pop k =
     (if kb_head k = kb_tail k then Stuck
      else Ret (kb_buf k ! kb_tail k, k\<lparr>kb_tail := (kb_tail k + 1) mod KBD_SIZE\<rparr>))"

definition kbd_try_pop :: "kbd \<Rightarrow> int \<times> kbd" where
  "kbd_try_pop k =
     (if kb_head k = kb_tail k then (- 1, k)
      else (of_char (kb_buf k ! kb_tail k), k\<lparr>kb_tail := (kb_tail k + 1) mod KBD_SIZE\<rparr>))"

text \<open>The monitor thread: Ctrl-C raises the interrupt flag and reaches the ring only at the prompt.\<close>

record monitor =
  mo_kbd :: kbd
  mo_interrupt :: bool
  mo_cmd_running :: bool

definition stdin_char :: "char \<Rightarrow> monitor \<Rightarrow> monitor" where
  "stdin_char c m =
     (if c = CHR 0x03
      then let m = m\<lparr>mo_interrupt := True\<rparr>
           in if \<not> mo_cmd_running m then m\<lparr>mo_kbd := kbd_push c (mo_kbd m)\<rparr> else m
      else m\<lparr>mo_kbd := kbd_push c (mo_kbd m)\<rparr>)"

definition stdin_monitor :: "string \<Rightarrow> monitor \<Rightarrow> monitor" where
  "stdin_monitor cs m = foldl (\<lambda>m c. stdin_char c m) m cs"

section \<open>Login\<close>

text \<open>The buffer, what was printed, and the unread input.\<close>

fun read_line_loop :: "nat \<Rightarrow> bool \<Rightarrow> string \<Rightarrow> string \<Rightarrow> string \<Rightarrow> (string \<times> string \<times> string) outcome" where
  "read_line_loop maxlen star buf out [] = Stuck"
| "read_line_loop maxlen star buf out (c # cs) =
     (if c = CHR ''\<newline>'' \<or> c = CHR 0x0D then Ret (buf, if star then out @ ''\<newline>'' else out, cs)
      else if (c = CHR 0x08 \<or> c = CHR 0x7F) \<and> buf \<noteq> [] then read_line_loop maxlen star (butlast buf) (out @ '' '' @ [CHR 0x08]) cs
      else if int (length buf) < int maxlen - 1 \<and> 0x20 \<le> (of_char c :: nat)
      then read_line_loop maxlen star (buf @ [c]) (if star then out @ [CHR 0x08] @ ''*'' else out) cs
      else read_line_loop maxlen star buf out cs)"

definition read_login_line :: "nat \<Rightarrow> bool \<Rightarrow> string \<Rightarrow> (string \<times> string \<times> string) outcome" where
  "read_login_line maxlen star input = read_line_loop maxlen star [] [] input"

text \<open>The answer of the server to a user and a password; \<open>None\<close>: no such capability.\<close>

definition auth_check :: "(string \<Rightarrow> string \<Rightarrow> int) option \<Rightarrow> string \<Rightarrow> string \<Rightarrow> bool" where
  "auth_check authd user pass = (case authd of None \<Rightarrow> False | Some authenticate \<Rightarrow> authenticate user pass = 0)"

definition MAX_LOGIN_ATTEMPTS :: nat where "MAX_LOGIN_ATTEMPTS = 3"

lemma read_line_shorter: "read_line_loop maxlen star buf out input = Ret (l, o', rest) \<Longrightarrow> length rest < length input"
  by (induction maxlen star buf out input rule: read_line_loop.induct) (auto split: if_splits)

text \<open>The login name of the session, or \<open>None\<close> after too many failures; and the unread input.\<close>

function do_login_from :: "nat \<Rightarrow> (string \<Rightarrow> string \<Rightarrow> int) option \<Rightarrow> string \<Rightarrow> (string option \<times> string) outcome" where
  "do_login_from attempt authd input =
     (if attempt < MAX_LOGIN_ATTEMPTS
      then case read_login_line 64 False input of
             Ret (user, _, rest) \<Rightarrow>
               (if user = [] then do_login_from attempt authd rest
                else case read_login_line 64 True rest of
                       Ret (pass, _, rest2) \<Rightarrow>
                         (if auth_check authd user pass then Ret (Some (snprintf_buf 64 user), rest2)
                          else do_login_from (attempt + 1) authd rest2)
                     | Fault \<Rightarrow> Fault
                     | Stuck \<Rightarrow> Stuck)
           | Fault \<Rightarrow> Fault
           | Stuck \<Rightarrow> Stuck
      else Ret (None, input))"
  by pat_completeness auto
termination
  by (relation "measure (\<lambda>(attempt, authd, input). length input)")
    (auto simp: read_login_line_def dest!: read_line_shorter)

declare do_login_from.simps [simp del]

definition do_login :: "(string \<Rightarrow> string \<Rightarrow> int) option \<Rightarrow> string \<Rightarrow> (string option \<times> string) outcome" where
  "do_login authd input = do_login_from 0 authd input"

section \<open>The ring is a queue\<close>

definition kbd_inv :: "kbd \<Rightarrow> bool" where
  "kbd_inv k \<longleftrightarrow> length (kb_buf k) = KBD_SIZE \<and> kb_head k < KBD_SIZE \<and> kb_tail k < KBD_SIZE"

definition kbd_len :: "kbd \<Rightarrow> nat" where
  "kbd_len k = (if kb_tail k \<le> kb_head k then kb_head k - kb_tail k else kb_head k + KBD_SIZE - kb_tail k)"

text \<open>The characters waiting, oldest first.\<close>

definition kbd_queue :: "kbd \<Rightarrow> string" where
  "kbd_queue k = map (\<lambda>i. kb_buf k ! ((kb_tail k + i) mod KBD_SIZE)) [0..<kbd_len k]"

lemma kbd_len_less: "kbd_inv k \<Longrightarrow> kbd_len k < KBD_SIZE"
  by (auto simp: kbd_inv_def kbd_len_def)

lemma mod_small_add: "a < n \<Longrightarrow> i < n \<Longrightarrow> (a + i) mod n = (if a + i < n then a + i else a + i - n)" for a i n :: nat
  by (simp add: mod_if)

lemma mod_succ: "a < n \<Longrightarrow> (a + 1) mod n = (if a + 1 < n then a + 1 else 0)" for a n :: nat
  by (cases "a + 1 = n") auto

lemma kbd_push_full:
  assumes "kbd_inv k"
  shows "(kb_head k + 1) mod KBD_SIZE = kb_tail k \<longleftrightarrow> kbd_len k = KBD_SIZE - 1"
proof -
  have "(kb_head k + 1) mod KBD_SIZE = (if kb_head k + 1 < KBD_SIZE then kb_head k + 1 else 0)"
    using assms by (intro mod_succ) (simp add: kbd_inv_def)
  then show ?thesis using assms by (auto simp: kbd_inv_def kbd_len_def KBD_SIZE_def)
qed

lemma kbd_push_queue:
  assumes i: "kbd_inv k"
  shows "kbd_inv (kbd_push c k)"
    "kbd_queue (kbd_push c k) = (if length (kbd_queue k) < KBD_SIZE - 1 then kbd_queue k @ [c] else kbd_queue k)"
proof -
  show "kbd_inv (kbd_push c k)" using i by (simp add: kbd_push_def kbd_inv_def Let_def KBD_SIZE_def)
  have l: "length (kbd_queue k) = kbd_len k" by (simp add: kbd_queue_def)
  show "kbd_queue (kbd_push c k) = (if length (kbd_queue k) < KBD_SIZE - 1 then kbd_queue k @ [c] else kbd_queue k)"
  proof (cases "kbd_len k = KBD_SIZE - 1")
    case True
    then show ?thesis using kbd_push_full[OF i] by (simp add: kbd_push_def l)
  next
    case False
    let ?k = "k\<lparr>kb_buf := (kb_buf k)[kb_head k := c], kb_head := (kb_head k + 1) mod KBD_SIZE\<rparr>"
    have p: "kbd_push c k = ?k" using False kbd_push_full[OF i] by (simp add: kbd_push_def Let_def)
    have lt: "kbd_len k < KBD_SIZE - 1" using False kbd_len_less[OF i] by simp
    have h: "(kb_head k + 1) mod KBD_SIZE = (if kb_head k + 1 < KBD_SIZE then kb_head k + 1 else 0)"
      using i by (intro mod_succ) (simp add: kbd_inv_def)
    have len: "kbd_len ?k = Suc (kbd_len k)"
      using i lt h by (auto simp: kbd_inv_def kbd_len_def KBD_SIZE_def)
    have at: "(kb_tail k + kbd_len k) mod KBD_SIZE = kb_head k"
      using i kbd_len_less[OF i] by (auto simp: kbd_inv_def kbd_len_def)
    have ne: "(kb_tail k + j) mod KBD_SIZE \<noteq> kb_head k" if "j < kbd_len k" for j
    proof -
      have j: "j < KBD_SIZE" using that kbd_len_less[OF i] by simp
      have "(kb_tail k + j) mod KBD_SIZE = (if kb_tail k + j < KBD_SIZE then kb_tail k + j else kb_tail k + j - KBD_SIZE)"
        using i j by (intro mod_small_add) (simp_all add: kbd_inv_def)
      then show ?thesis using that i by (auto simp: kbd_inv_def kbd_len_def split: if_splits)
    qed
    have "kbd_queue ?k = map (\<lambda>j. (kb_buf k)[kb_head k := c] ! ((kb_tail k + j) mod KBD_SIZE)) [0..<kbd_len k] @ [c]"
      using i at len by (simp add: kbd_queue_def kbd_inv_def)
    also have "map (\<lambda>j. (kb_buf k)[kb_head k := c] ! ((kb_tail k + j) mod KBD_SIZE)) [0..<kbd_len k] = kbd_queue k"
      unfolding kbd_queue_def by (rule map_cong) (use ne[symmetric] in \<open>auto intro!: nth_list_update_neq\<close>)
    finally show ?thesis using lt by (simp add: p l)
  qed
qed

lemma kbd_pop_queue:
  assumes i: "kbd_inv k"
  shows "kbd_queue k = [] \<Longrightarrow> kbd_pop k = Stuck"
    and "kbd_queue k = c # q \<Longrightarrow> \<exists>k'. kbd_pop k = Ret (c, k') \<and> kbd_inv k' \<and> kbd_queue k' = q"
proof -
  have z: "kbd_len k = 0 \<longleftrightarrow> kb_head k = kb_tail k" using i by (auto simp: kbd_inv_def kbd_len_def)
  show "kbd_queue k = [] \<Longrightarrow> kbd_pop k = Stuck" using z by (simp add: kbd_queue_def kbd_pop_def)
  assume q: "kbd_queue k = c # q"
  then have l: "0 < kbd_len k" by (cases "kbd_len k") (simp_all add: kbd_queue_def)
  let ?k = "k\<lparr>kb_tail := (kb_tail k + 1) mod KBD_SIZE\<rparr>"
  have h: "(kb_tail k + 1) mod KBD_SIZE = (if kb_tail k + 1 < KBD_SIZE then kb_tail k + 1 else 0)"
    using i by (intro mod_succ) (simp add: kbd_inv_def)
  have len: "kbd_len k = Suc (kbd_len ?k)"
    using i l h by (auto simp: kbd_inv_def kbd_len_def KBD_SIZE_def split: if_splits)
  have "kbd_queue k = kb_buf k ! (kb_tail k mod KBD_SIZE) # map (\<lambda>j. kb_buf k ! ((kb_tail k + Suc j) mod KBD_SIZE)) [0..<kbd_len ?k]"
    unfolding kbd_queue_def len by (simp add: upt_conv_Cons map_Suc_upt[symmetric] o_def del: upt_Suc)
  also have "kb_tail k mod KBD_SIZE = kb_tail k" using i by (simp add: kbd_inv_def)
  also have "map (\<lambda>j. kb_buf k ! ((kb_tail k + Suc j) mod KBD_SIZE)) [0..<kbd_len ?k] = kbd_queue ?k"
    by (simp add: kbd_queue_def mod_simps)
  finally have "kb_buf k ! kb_tail k = c \<and> kbd_queue ?k = q" using q by simp
  moreover have "kbd_pop k = Ret (kb_buf k ! kb_tail k, ?k)" using l z by (simp add: kbd_pop_def)
  moreover have "kbd_inv ?k" using i by (simp add: kbd_inv_def KBD_SIZE_def)
  ultimately show "\<exists>k'. kbd_pop k = Ret (c, k') \<and> kbd_inv k' \<and> kbd_queue k' = q" by auto
qed

section \<open>Properties\<close>

text \<open>
  C25: the keyboard ring is a first-in first-out queue of at most 255 characters: a character is
  appended or, when the queue is full, dropped; the blocking and the polling reader take the
  oldest one, and wait or report nothing exactly when there is none.
\<close>

theorem kbd_ring_is_queue:
  assumes "kbd_inv k"
  shows "kbd_inv (kbd_push c k) \<and>
    kbd_queue (kbd_push c k) = (if length (kbd_queue k) < 255 then kbd_queue k @ [c] else kbd_queue k) \<and>
    (case kbd_queue k of
       [] \<Rightarrow> kbd_pop k = Stuck \<and> kbd_try_pop k = (- 1, k)
     | d # q \<Rightarrow> \<exists>k'. kbd_pop k = Ret (d, k') \<and> kbd_try_pop k = (of_char d, k') \<and> kbd_inv k' \<and> kbd_queue k' = q)"
proof -
  have "kbd_try_pop k = (case kbd_pop k of Ret (d, k') \<Rightarrow> (of_char d, k') | _ \<Rightarrow> (- 1, k))"
    by (simp add: kbd_try_pop_def kbd_pop_def)
  with kbd_push_queue[OF assms, of c] kbd_pop_queue[OF assms] show ?thesis
    by (cases "kbd_queue k") (fastforce simp: KBD_SIZE_def)+
qed

theorem kbd_ring_is_queue_witness: "kbd_inv (kbd_push (CHR ''a'') kbd_init) \<and> kbd_pop kbd_init = Stuck"
  using kbd_ring_is_queue[of kbd_init "CHR ''a''"]
  by (simp add: kbd_inv_def kbd_init_def KBD_SIZE_def kbd_queue_def kbd_len_def)

lemma read_line_suffix: "read_line_loop maxlen star buf out input = Ret (l, o', rest) \<Longrightarrow> \<exists>pre. input = pre @ rest"
proof (induction maxlen star buf out input rule: read_line_loop.induct)
  case (2 maxlen star buf out c cs)
  then show ?case by (auto split: if_splits intro: exI[of _ "[c]"] simp: append_Cons[symmetric] simp del: append_Cons)
qed simp

lemma read_line_bound: "read_line_loop maxlen star buf out input = Ret (l, o', rest) \<Longrightarrow> length buf \<le> maxlen - 1 \<Longrightarrow> length l \<le> maxlen - 1"
  by (induction maxlen star buf out input rule: read_line_loop.induct) (auto split: if_splits)

lemma login_from_accepted:
  "do_login_from attempt authd input = Ret (Some u, rest) \<Longrightarrow>
     \<exists>pre r pass out. input = pre @ r \<and> read_login_line 64 True r = Ret (pass, out, rest) \<and> auth_check authd u pass \<and> u \<noteq> []"
proof (induction attempt authd input rule: do_login_from.induct)
  case (1 attempt authd input)
  have a: "attempt < MAX_LOGIN_ATTEMPTS" using 1(3) by (subst (asm) do_login_from.simps) (simp split: if_splits)
  obtain user out1 r1 where l1: "read_login_line 64 False input = Ret (user, out1, r1)"
    using 1(3) a by (subst (asm) do_login_from.simps) (auto split: outcome.splits)
  obtain p1 where p1: "input = p1 @ r1" using read_line_suffix l1 unfolding read_login_line_def by blast
  show ?case
  proof (cases "user = []")
    case True
    then have "do_login_from attempt authd r1 = Ret (Some u, rest)"
      using 1(3) a l1 by (subst (asm) do_login_from.simps) simp
    from 1(1)[OF a l1 refl refl True this] p1 show ?thesis by (metis append.assoc)
  next
    case False
    obtain pass out2 r2 where l2: "read_login_line 64 True r1 = Ret (pass, out2, r2)"
      using 1(3) a l1 False by (subst (asm) do_login_from.simps) (auto split: outcome.splits)
    obtain p2 where p2: "r1 = p2 @ r2" using read_line_suffix l2 unfolding read_login_line_def by blast
    show ?thesis
    proof (cases "auth_check authd user pass")
      case True
      have "length user \<le> 63" using read_line_bound[of 64 False "[]" "[]" input] l1 by (simp add: read_login_line_def)
      then have "snprintf_buf 64 user = user" by (simp add: snprintf_buf_def)
      then have "u = user \<and> rest = r2" using 1(3) a l1 l2 False True by (subst (asm) do_login_from.simps) simp
      with True False l2 p1 show ?thesis by blast
    next
      case F: False
      then have "do_login_from (attempt + 1) authd r2 = Ret (Some u, rest)"
        using 1(3) a l1 l2 False by (subst (asm) do_login_from.simps) simp
      from 1(2)[OF a l1 refl refl False l2 refl refl F this] p1 p2 show ?thesis by (metis append.assoc)
    qed
  qed
qed


lemma length_fips_sha256: "length (fips_sha256 msg) = 32"
proof -
  have "length (concat (map (\<lambda>w. be_bytes 4 (unat w)) ws)) = 4 * length ws" for ws :: "u32 list"
    by (induction ws) (simp_all add: be_bytes_def)
  moreover have "length (fips_init False) = 8" by (simp add: fips_init_def)
  ultimately show ?thesis by (simp add: fips_sha2_def)
qed


end
