(* ===== verification/Shell_Files.thy ===== *)
theory Shell_Files
  imports Prelude Dirents "HOL-Library.List_Lexorder" "HOL-Library.Char_ord"
begin

text \<open>
  The general and the file commands of the shell, \<^verbatim>\<open>pkg/native_shell/server/src/commands.cc\<close>:
  \<^verbatim>\<open>help\<close> to \<^verbatim>\<open>exit\<close>, \<^verbatim>\<open>pwd\<close>, \<^verbatim>\<open>cd\<close>, \<^verbatim>\<open>ls\<close> with its column layout, \<^verbatim>\<open>cat\<close>,
  \<^verbatim>\<open>mkdir\<close> and \<^verbatim>\<open>rm\<close> on ext4, and the self-test of the memory file system. A command gives what
  it prints; the answers of the C library and of the file system server are parameters.
\<close>

section \<open>General commands\<close>

definition commands :: "(string \<times> string) list" where
  "commands =
    [(''help'', ''List available commands''),
     (''echo'', ''Print arguments  [-n: no newline]''),
     (''info'', ''Print system information''),
     (''clear'', ''Clear the screen''),
     (''history'', ''Show command history''),
     (''exit'', ''Exit the shell''),
     (''pwd'', ''Print working directory''),
     (''cd'', ''Change directory  [dir]''),
     (''ls'', ''List directory    [dir]''),
     (''cat'', ''Print file        <file>''),
     (''mkdir'', ''Create directory  <dir>''),
     (''rm'', ''Remove file       <file>''),
     (''tmpfstest'', ''Self-test the /tmp RAM filesystem''),
     (''uname'', ''Print OS/arch info''),
     (''env'', ''Print environment variables''),
     (''date'', ''Print current date and time''),
     (''uptime'', ''Show system uptime''),
     (''list_tasks'', ''List background tasks''),
     (''top'', ''Process monitor (q to quit)''),
     (''dmesg'', ''Show/manage kernel log  [-c] [-l N] [-n N] [--save]''),
     (''run'', ''Run a program  <rom/xxx|/ext4/...> [&]''),
     (''wait'', ''Wait for background job  <handle>''),
     (''kill'', ''Kill background job  <handle>''),
     (''temp'', ''Read DS18B20 temperature  [pin]''),
     (''radio'', ''TEF6686HN radio  <init|tune|seek|status|...>'')]"

definition cmd_help :: string where
  "cmd_help = ''Available commands:'' @ ''\<newline>'' @
     concat (map (\<lambda>(name, help). ''  '' @ pad_right 10 name @ ''  '' @ help @ ''\<newline>'') commands)"

fun join_args :: "string list \<Rightarrow> string" where
  "join_args [] = []"
| "join_args [a] = a"
| "join_args (a # as) = a @ '' '' @ join_args as"

definition cmd_echo :: "string list \<Rightarrow> string" where
  "cmd_echo argv =
     (if length argv > 1 \<and> argv ! 1 = ''-n'' then join_args (drop 2 argv)
      else join_args (drop 1 argv) @ ''\<newline>'')"

definition cmd_info :: string where
  "cmd_info = ''OS:           TuringOS'' @ ''\<newline>'' @ ''Architecture: arm (armv7)'' @ ''\<newline>'' @
     ''Runtime:      L4Re / Fiasco microkernel'' @ ''\<newline>''"

definition cmd_clear :: string where
  "cmd_clear = CHR 0x1B # ''[2J'' @ CHR 0x1B # ''[H''"

text \<open>\<open>None\<close>: there is no history list.\<close>

definition cmd_history :: "string list option \<Rightarrow> string" where
  "cmd_history hist =
     (case hist of
        None \<Rightarrow> ''No history.'' @ ''\<newline>''
      | Some lines \<Rightarrow>
          concat (map (\<lambda>(i, l). ''  '' @ pad_left (CHR '' '') 3 (show_nat (i + 1)) @ ''  '' @ l @ ''\<newline>'')
            (List.enumerate 0 lines)))"

definition cmd_uname :: string where
  "cmd_uname = ''TuringOS  Fiasco/L4Re  '' @ ''armv7'' @ ''\<newline>''"

definition cmd_env :: "string list option \<Rightarrow> string" where
  "cmd_env environ =
     (case environ of None \<Rightarrow> ''(no environment)'' @ ''\<newline>'' | Some es \<Rightarrow> concat (map (\<lambda>e. e @ ''\<newline>'') es))"

section \<open>Directories\<close>

text \<open>A call of the C library gives an error text (\<^verbatim>\<open>strerror(errno)\<close>) or its result.\<close>

definition cmd_pwd :: "string + string \<Rightarrow> string" where
  "cmd_pwd getcwd = (case getcwd of Inr cwd \<Rightarrow> cwd @ ''\<newline>'' | Inl e \<Rightarrow> ''pwd: '' @ e @ ''\<newline>'')"

definition cmd_cd :: "(string \<Rightarrow> 'fs \<Rightarrow> 'fs \<times> string option) \<Rightarrow> string list \<Rightarrow> 'fs \<Rightarrow> 'fs \<times> string" where
  "cmd_cd chdir argv fs =
     (let path = (if length argv > 1 then argv ! 1 else ''/'')
      in case chdir path fs of
           (fs', None) \<Rightarrow> (fs', [])
         | (fs', Some e) \<Rightarrow> (fs', ''cd: '' @ path @ '': '' @ e @ ''\<newline>''))"

definition MAX_ENTRIES :: nat where "MAX_ENTRIES = 1024"

definition TERM_COLS :: nat where "TERM_COLS = 80"

definition shown_name :: "string \<times> dtype \<Rightarrow> string" where
  "shown_name e = fst e @ (if snd e = DT_DIR then ''/'' else [])"

text \<open>\<open>avail\<close> is the number of further calls of \<^verbatim>\<open>malloc\<close> that succeed.\<close>

fun ls_collect :: "nat \<Rightarrow> nat \<Rightarrow> (string \<times> dtype) list \<Rightarrow> string list" where
  "ls_collect avail n [] = []"
| "ls_collect avail n (e # es) =
     (if n < MAX_ENTRIES
      then if fst e = ''.'' \<or> fst e = ''..'' then ls_collect avail n es
           else if avail = 0 then []
           else shown_name e # ls_collect (avail - 1) (n + 1) es
      else [])"

text \<open>One row of the listing: the entries \<open>c * nrows + r\<close> for the columns \<open>c\<close>.\<close>

definition ls_cell :: "nat \<Rightarrow> nat \<Rightarrow> string list \<Rightarrow> nat \<Rightarrow> nat \<Rightarrow> string" where
  "ls_cell colw nrows names r c =
     (let idx = c * nrows + r
      in if idx \<ge> length names then []
         else if (c + 1) * nrows + r \<ge> length names then names ! idx
         else pad_right colw (names ! idx))"

definition ls_layout :: "string list \<Rightarrow> string" where
  "ls_layout names =
     (let maxw = fold (\<lambda>s m. if length s > m then length s else m) names 0;
          colw = maxw + 2;
          ncols = (if TERM_COLS div colw < 1 then 1 else TERM_COLS div colw);
          nrows = (length names + ncols - 1) div ncols
      in concat (map (\<lambda>r. concat (map (ls_cell colw nrows names r) [0..<ncols]) @ ''\<newline>'') [0..<nrows]))"

definition cmd_ls :: "(string \<Rightarrow> string + (string \<times> dtype) list) \<Rightarrow> nat \<Rightarrow> string list \<Rightarrow> string" where
  "cmd_ls opendir avail argv =
     (let path = (if length argv > 1 then argv ! 1 else ''.'')
      in case opendir path of
           Inl e \<Rightarrow> ''ls: '' @ path @ '': '' @ e @ ''\<newline>''
         | Inr es \<Rightarrow>
             (let names = (if avail = 0 then [] else ls_collect (avail - 1) 0 es)
              in if names = [] then [] else ls_layout (sort names)))"

section \<open>Files\<close>

text \<open>\<open>intr t\<close> is the value of \<^verbatim>\<open>g_shell_interrupt\<close> at the \<open>t\<close>-th time the command looks.\<close>

function cat_file :: "(nat \<Rightarrow> bool) \<Rightarrow> nat \<Rightarrow> string \<Rightarrow> nat \<times> string" where
  "cat_file intr t content =
     (if intr t then (t + 1, [])
      else if content = [] then (t + 1, [])
      else case cat_file intr (t + 1) (drop 512 content) of (t', out) \<Rightarrow> (t', take 512 content @ out))"
  by pat_completeness auto
termination by (relation "measure (\<lambda>(intr, t, content). length content)") auto

declare cat_file.simps [simp del]

fun cat_files :: "(string \<Rightarrow> string + string) \<Rightarrow> (nat \<Rightarrow> bool) \<Rightarrow> nat \<Rightarrow> string list \<Rightarrow> string" where
  "cat_files fopen intr t [] = []"
| "cat_files fopen intr t (a # as) =
     (if intr t then []
      else case fopen a of
             Inl e \<Rightarrow> ''cat: '' @ a @ '': '' @ e @ ''\<newline>'' @ cat_files fopen intr (t + 1) as
           | Inr content \<Rightarrow> (case cat_file intr (t + 1) content of (t', out) \<Rightarrow> out @ cat_files fopen intr t' as))"

definition cmd_cat :: "(string \<Rightarrow> string + string) \<Rightarrow> (nat \<Rightarrow> bool) \<Rightarrow> string list \<Rightarrow> string" where
  "cmd_cat fopen intr argv =
     (if length argv < 2 then ''Usage: cat <file>'' @ ''\<newline>'' else cat_files fopen intr 0 (tl argv))"

text \<open>\<open>getcwd\<close> answers for a buffer of 768 bytes.\<close>

definition posix_to_ext4 :: "string option \<Rightarrow> string \<Rightarrow> nat \<Rightarrow> string option" where
  "posix_to_ext4 getcwd posix outsz =
     (let abs = (if posix \<noteq> [] \<and> hd posix = CHR ''/'' then Some (take 1023 posix)
                 else case getcwd of None \<Rightarrow> None | Some cwd \<Rightarrow> Some (snprintf_buf 1024 (cwd @ ''/'' @ posix)))
      in case abs of
           None \<Rightarrow> None
         | Some a \<Rightarrow>
             if take 5 a \<noteq> ''/ext4'' then None
             else let rest = drop 5 a
                  in if rest = [] then Some (snprintf_buf outsz ''/'')
                     else if hd rest \<noteq> CHR ''/'' then None
                     else Some (snprintf_buf outsz rest))"

text \<open>The loops over the operands; \<open>ext\<close> is the operation of the file system server.\<close>

fun mkdir_loop :: "(string \<Rightarrow> 'fs \<Rightarrow> 'fs \<times> int) \<Rightarrow> string option \<Rightarrow> string list \<Rightarrow> 'fs \<Rightarrow> 'fs \<times> string" where
  "mkdir_loop ext cwd [] fs = (fs, [])"
| "mkdir_loop ext cwd (a # as) fs =
     (case posix_to_ext4 cwd a 512 of
        None \<Rightarrow> (case mkdir_loop ext cwd as fs of (fs', out) \<Rightarrow> (fs', ''mkdir: '' @ a @ '': not on ext4'' @ ''\<newline>'' @ out))
      | Some p \<Rightarrow>
          (case ext p fs of (fs1, r) \<Rightarrow>
           case mkdir_loop ext cwd as fs1 of (fs', out) \<Rightarrow>
             (fs', (if r = err EEXIST then ''mkdir: '' @ a @ '': File exists'' @ ''\<newline>''
                    else if r < 0 then ''mkdir: '' @ a @ '': failed ('' @ show_int r @ '')'' @ ''\<newline>''
                    else []) @ out)))"

definition cmd_mkdir :: "(string \<Rightarrow> 'fs \<Rightarrow> 'fs \<times> int) option \<Rightarrow> string option \<Rightarrow> string list \<Rightarrow> 'fs \<Rightarrow> 'fs \<times> string" where
  "cmd_mkdir ext_mkdir cwd argv fs =
     (if length argv < 2 then (fs, ''Usage: mkdir <dir>'' @ ''\<newline>'')
      else case ext_mkdir of
             None \<Rightarrow> (fs, ''mkdir: no ext4 filesystem'' @ ''\<newline>'')
           | Some ext \<Rightarrow> mkdir_loop ext cwd (tl argv) fs)"

fun rm_loop :: "(string \<Rightarrow> 'fs \<Rightarrow> 'fs \<times> int) \<Rightarrow> string option \<Rightarrow> string list \<Rightarrow> 'fs \<Rightarrow> 'fs \<times> string" where
  "rm_loop ext cwd [] fs = (fs, [])"
| "rm_loop ext cwd (a # as) fs =
     (case posix_to_ext4 cwd a 512 of
        None \<Rightarrow> (case rm_loop ext cwd as fs of (fs', out) \<Rightarrow> (fs', ''rm: '' @ a @ '': not on ext4'' @ ''\<newline>'' @ out))
      | Some p \<Rightarrow>
          (case ext p fs of (fs1, r) \<Rightarrow>
           case rm_loop ext cwd as fs1 of (fs', out) \<Rightarrow>
             (fs', (if r < 0 then ''rm: '' @ a @ '': No such file or directory'' @ ''\<newline>'' else []) @ out)))"

definition cmd_rm :: "(string \<Rightarrow> 'fs \<Rightarrow> 'fs \<times> int) option \<Rightarrow> string option \<Rightarrow> string list \<Rightarrow> 'fs \<Rightarrow> 'fs \<times> string" where
  "cmd_rm ext_unlink cwd argv fs =
     (if length argv < 2 then (fs, ''Usage: rm <file>'' @ ''\<newline>'')
      else case ext_unlink of
             None \<Rightarrow> (fs, ''rm: no ext4 filesystem'' @ ''\<newline>'')
           | Some ext \<Rightarrow> rm_loop ext cwd (tl argv) fs)"

section \<open>The self-test of the memory file system\<close>

text \<open>The calls of the C library the test makes, on a state of the file system.\<close>

record 'fs libc =
  lc_open :: "string \<Rightarrow> nat \<Rightarrow> 'fs \<Rightarrow> 'fs \<times> int"
  lc_write :: "int \<Rightarrow> string \<Rightarrow> 'fs \<Rightarrow> 'fs \<times> int"
  lc_lseek :: "int \<Rightarrow> int \<Rightarrow> 'fs \<Rightarrow> 'fs \<times> int"
  lc_read :: "int \<Rightarrow> nat \<Rightarrow> 'fs \<Rightarrow> 'fs \<times> int \<times> string"
  lc_close :: "int \<Rightarrow> 'fs \<Rightarrow> 'fs"
  lc_stat :: "string \<Rightarrow> 'fs \<Rightarrow> (int \<times> bool) option"
  lc_mkdir :: "string \<Rightarrow> 'fs \<Rightarrow> 'fs \<times> int"
  lc_rmdir :: "string \<Rightarrow> 'fs \<Rightarrow> 'fs \<times> int"
  lc_unlink :: "string \<Rightarrow> 'fs \<Rightarrow> 'fs \<times> int"
  lc_readdir :: "string \<Rightarrow> 'fs \<Rightarrow> 'fs \<times> string list option"

text \<open>\<^verbatim>\<open>O_CREAT | O_RDWR | O_TRUNC\<close> and \<^verbatim>\<open>O_CREAT | O_WRONLY | O_TRUNC\<close>.\<close>

definition CREATE_RDWR :: nat where "CREATE_RDWR = 0x242"

definition CREATE_WRONLY :: nat where "CREATE_WRONLY = 0x241"

definition t_line :: "string \<times> bool \<Rightarrow> string" where
  "t_line t = (if snd t then ''  ok   '' else ''  FAIL '') @ fst t @ ''\<newline>''"

definition tmpfs_path :: string where "tmpfs_path = ''/tmp/tmpfstest.txt''"

definition tmpfs_data :: string where "tmpfs_data = ''hello tmpfs streaming 12345''"

text \<open>Creating, writing and reading back; the checks with their outcome.\<close>

definition tmpfs_test_file :: "'fs libc \<Rightarrow> 'fs \<Rightarrow> 'fs \<times> (string \<times> bool) list" where
  "tmpfs_test_file L fs =
     (let dlen = int (length tmpfs_data);
          (fs1, fd) = lc_open L tmpfs_path CREATE_RDWR fs;
          (fs2, w) = (if fd \<ge> 0 then lc_write L fd tmpfs_data fs1 else (fs1, - 1));
          (fs3, seek) = (if fd \<ge> 0 then lc_lseek L fd 0 fs2 else (fs2, - 1));
          (fs4, r, buf) = (if fd \<ge> 0 then lc_read L fd 63 fs3 else (fs3, - 1, []));
          fs5 = (if fd \<ge> 0 then lc_close L fd fs4 else fs4)
      in (fs5, [(''open(/tmp/.. , O_CREAT|O_RDWR)'', fd \<ge> 0), (''write'', w = dlen),
            (''lseek SEEK_SET'', fd \<ge> 0 \<and> seek = 0), (''read back matches'', r = dlen \<and> take (nat dlen) buf = tmpfs_data),
            (''stat size + mode'', case lc_stat L tmpfs_path fs5 of None \<Rightarrow> False | Some (sz, reg) \<Rightarrow> sz = dlen \<and> reg)]))"

definition tmpfs_test_dir :: "'fs libc \<Rightarrow> 'fs \<Rightarrow> 'fs \<times> (string \<times> bool) list" where
  "tmpfs_test_dir L fs =
     (let fs1 = fst (lc_mkdir L ''/tmp/sub'' fs);
          (fs2, fd2) = lc_open L ''/tmp/sub/inner.txt'' CREATE_WRONLY fs1;
          fs3 = (if fd2 \<ge> 0 then lc_close L fd2 (fst (lc_write L fd2 ''x'' fs2)) else fs2);
          (fs4, names) = lc_readdir L ''/tmp'' fs3;
          (fs5, u) = lc_unlink L tmpfs_path fs4;
          gone = (lc_stat L tmpfs_path fs5 = None);
          fs6 = fst (lc_unlink L ''/tmp/sub/inner.txt'' fs5);
          fs7 = fst (lc_rmdir L ''/tmp/sub'' fs6)
      in (fs7, [(''create file in /tmp/sub'', fd2 \<ge> 0),
            (''opendir/readdir lists entries'', case names of None \<Rightarrow> False | Some ns \<Rightarrow> ''tmpfstest.txt'' \<in> set ns \<and> ''sub'' \<in> set ns),
            (''unlink'', u = 0), (''file gone after unlink'', gone)]))"

definition cmd_tmpfstest :: "'fs libc \<Rightarrow> 'fs \<Rightarrow> 'fs \<times> string" where
  "cmd_tmpfstest L fs =
     (let (fs1, ts1) = tmpfs_test_file L fs;
          (fs2, ts2) = tmpfs_test_dir L fs1;
          ts = ts1 @ ts2;
          fails = length (filter (\<lambda>t. \<not> snd t) ts)
      in (fs2, concat (map t_line ts) @
            (if fails = 0 then ''tmpfstest: PASS'' else ''tmpfstest: FAIL ('' @ show_nat fails @ '')'') @ ''\<newline>''))"

end
