(* ===== verification/Shell_Parse.thy ===== *)
theory Shell_Parse
  imports Prelude
begin

text \<open>
  The command line of the shell, \<^verbatim>\<open>pkg/native_shell/server/src/main.cc\<close>: splitting a line into
  words with quotes and backslashes, the removal of the background mark and of redirections, and
  completion of command names. A line is the C string \<^verbatim>\<open>readline\<close> returns, without its NUL;
  the words are written one after the other, each with its NUL, into one static buffer, and a
  write behind its end is a \<open>Fault\<close>.
\<close>

section \<open>Words\<close>

definition MAX_LINE :: nat where "MAX_LINE = 4096"

definition MAX_ARGS :: nat where "MAX_ARGS = 64"

text \<open>\<^verbatim>\<open>*out++ = c\<close>.\<close>

definition put_char :: "char \<Rightarrow> string \<Rightarrow> string outcome" where
  "put_char c out = (if length out < MAX_LINE then Ret (out @ [c]) else Fault)"

text \<open>
  The loops over one word: outside quotes, between single and between double quotes. The result
  is the rest of the line and the buffer.
\<close>

datatype quote = Plain | Single | Double

abbreviation SQ :: char where "SQ \<equiv> CHR 0x27"

abbreviation DQ :: char where "DQ \<equiv> CHR 0x22"

abbreviation BS :: char where "BS \<equiv> CHR 0x5C"

definition is_blank :: "char \<Rightarrow> bool" where
  "is_blank c \<longleftrightarrow> c = CHR '' '' \<or> c = CHR 0x09"

fun parse_word :: "quote \<Rightarrow> string \<Rightarrow> string \<Rightarrow> (string \<times> string) outcome" where
  "parse_word q [] out = Ret ([], out)"
| "parse_word Plain (c # p) out =
     (if is_blank c then Ret (c # p, out)
      else if c = SQ then parse_word Single p out
      else if c = DQ then parse_word Double p out
      else if c = BS \<and> p \<noteq> [] then obind (put_char (hd p) out) (parse_word Plain (tl p))
      else obind (put_char c out) (parse_word Plain p))"
| "parse_word Single (c # p) out =
     (if c = SQ then parse_word Plain p out else obind (put_char c out) (parse_word Single p))"
| "parse_word Double (c # p) out =
     (if c = DQ then parse_word Plain p out
      else if c = BS \<and> p \<noteq> [] then obind (put_char (hd p) out) (parse_word Double (tl p))
      else obind (put_char c out) (parse_word Double p))"

text \<open>The first argument is the number of words that still fit \<^verbatim>\<open>argv\<close>.\<close>

fun parse_words :: "nat \<Rightarrow> string \<Rightarrow> string \<Rightarrow> string list outcome" where
  "parse_words 0 p out = Ret []"
| "parse_words (Suc k) p out =
     (let p = dropWhile is_blank p
      in if p = [] then Ret []
         else obind (parse_word Plain p out) (\<lambda>(p', out').
              obind (put_char NUL out') (\<lambda>out''.
              obind (parse_words k p' out'') (\<lambda>argv. Ret (drop (length out) out' # argv)))))"

definition parse_line :: "string \<Rightarrow> nat \<Rightarrow> string list outcome" where
  "parse_line line max_args = parse_words (max_args - 1) line []"

section \<open>Background and redirection\<close>

record stripped =
  st_redir_path :: "string option"
  st_redir_append :: bool
  st_background :: bool
  st_argv :: "string list"

definition strip_init :: stripped where
  "strip_init = \<lparr>st_redir_path = None, st_redir_append = False, st_background = False, st_argv = []\<rparr>"

fun strip_ops :: "string list \<Rightarrow> stripped \<Rightarrow> stripped" where
  "strip_ops [] s = s"
| "strip_ops (a # as) s =
     (if (a = ''>'' \<or> a = ''>>'') \<and> as \<noteq> []
      then strip_ops (tl as) (s\<lparr>st_redir_path := Some (hd as), st_redir_append := (a = ''>>'')\<rparr>)
      else if a = ''&'' then strip_ops as (s\<lparr>st_background := True\<rparr>)
      else strip_ops as (s\<lparr>st_argv := st_argv s @ [a]\<rparr>))"

section \<open>Completion\<close>

text \<open>
  The generator keeps its position and the length of the text between calls; one call gives the
  next matching name.
\<close>

record completion =
  cg_idx :: nat
  cg_len :: nat

fun generator_loop :: "string list \<Rightarrow> string \<Rightarrow> nat \<Rightarrow> nat \<Rightarrow> nat \<times> string option" where
  "generator_loop [] text len idx = (idx, None)"
| "generator_loop (name # names) text len idx =
     (if take len name = take len text then (idx + 1, Some name) else generator_loop names text len (idx + 1))"

definition command_generator :: "string list \<Rightarrow> string \<Rightarrow> int \<Rightarrow> completion \<Rightarrow> completion \<times> string option" where
  "command_generator names text st g =
     (let g = (if st = 0 then \<lparr>cg_idx = 0, cg_len = length text\<rparr> else g)
      in case generator_loop (drop (cg_idx g) names) text (cg_len g) (cg_idx g) of (idx, r) \<Rightarrow> (g\<lparr>cg_idx := idx\<rparr>, r))"

text \<open>Only the first word is completed; \<open>matches\<close> is the library's collection of the generator.\<close>

definition shell_completion :: "((int \<Rightarrow> completion \<Rightarrow> completion \<times> string option) \<Rightarrow> 'm) \<Rightarrow> string list \<Rightarrow> string \<Rightarrow> int \<Rightarrow> 'm option" where
  "shell_completion matches names text start =
     (if start = 0 then Some (matches (command_generator names text)) else None)"

section \<open>What one word writes\<close>

text \<open>The word stops at a blank or at the end, and writes no more characters than it reads.\<close>

definition writes :: "(string \<times> string) outcome \<Rightarrow> string \<Rightarrow> nat \<Rightarrow> bool" where
  "writes m out n \<longleftrightarrow> (\<exists>p' w. m = Ret (p', out @ w) \<and> length w + length p' \<le> n \<and> (p' \<noteq> [] \<longrightarrow> is_blank (hd p')))"

lemma writes_mono: "writes m (out @ x) k \<Longrightarrow> length x + k \<le> n \<Longrightarrow> writes m out n"
  by (fastforce simp: writes_def)

lemma writes_put:
  assumes "length out + n \<le> MAX_LINE" and "0 < n"
    and "length (out @ [c]) + (n - 1) \<le> MAX_LINE \<Longrightarrow> writes (f (out @ [c])) (out @ [c]) k" and "k + 1 \<le> n"
  shows "writes (obind (put_char c out) f) out n"
  using assms by (auto simp: put_char_def intro!: writes_mono[where x = "[c]" and k = k])

lemma parse_word_writes: "length out + length p \<le> MAX_LINE \<Longrightarrow> writes (parse_word q p out) out (length p)"
proof (induction q p out rule: parse_word.induct)
  case (1 q out)
  then show ?case by (simp add: writes_def)
next
  case (2 c p out)
  show ?case
  proof (cases "is_blank c \<or> c = SQ \<or> c = DQ")
    case True
    then show ?thesis using 2(1,2,5) by (auto simp: writes_def[of "Ret _"] intro: writes_mono[where x = "[]"])
  next
    case False
    show ?thesis
    proof (cases "c = BS \<and> p \<noteq> []")
      case True
      then have "writes (obind (put_char (hd p) out) (parse_word Plain (tl p))) out (length (c # p))"
        using 2(3)[of "out @ [hd p]"] 2(5) by (intro writes_put[where k = "length (tl p)"]) (auto simp: is_blank_def)
      then show ?thesis using True by (simp add: is_blank_def)
    next
      case F: False
      then have "writes (obind (put_char c out) (parse_word Plain p)) out (length (c # p))"
        using 2(4)[of "out @ [c]"] 2(5) False by (intro writes_put[where k = "length p"]) auto
      then show ?thesis using F False by auto
    qed
  qed
next
  case (3 c p out)
  have "writes (obind (put_char c out) (parse_word Single p)) out (length (c # p))" if "c \<noteq> SQ"
    using 3(2)[of "out @ [c]"] 3(3) that by (intro writes_put[where k = "length p"]) auto
  then show ?case using 3(1,3) by (auto intro: writes_mono[where x = "[]"])
next
  case (4 c p out)
  have "writes (obind (put_char (hd p) out) (parse_word Double (tl p))) out (length (c # p))" if "c = BS" "p \<noteq> []"
    using 4(2)[of "out @ [hd p]"] 4(4) that by (intro writes_put[where k = "length (tl p)"]) auto
  moreover have "writes (obind (put_char c out) (parse_word Double p)) out (length (c # p))" if "c \<noteq> DQ" "\<not> (c = BS \<and> p \<noteq> [])"
    using 4(3)[of "out @ [c]"] 4(4) that by (intro writes_put[where k = "length p"]) auto
  ultimately show ?case using 4(1,4) by (auto intro: writes_mono[where x = "[]"])
qed

lemma parse_words_total:
  "dropWhile is_blank p = [] \<or> length out + length (dropWhile is_blank p) < MAX_LINE \<Longrightarrow>
     \<exists>argv. parse_words k p out = Ret argv \<and> length argv \<le> k"
proof (induction k arbitrary: p out)
  case (Suc k)
  let ?p = "dropWhile is_blank p"
  show ?case
  proof (cases "?p = []")
    case False
    obtain p' w where w: "parse_word Plain ?p out = Ret (p', out @ w)" "length w + length p' \<le> length ?p" "p' \<noteq> [] \<longrightarrow> is_blank (hd p')"
      using parse_word_writes[of out ?p Plain] False Suc.prems by (auto simp: writes_def)
    have fit: "length out + length ?p < MAX_LINE" using False Suc.prems by blast
    have put: "put_char NUL (out @ w) = Ret (out @ w @ [NUL])" using w(2) fit by (simp add: put_char_def)
    have "length (dropWhile is_blank p') < length p' \<or> p' = []"
      using w(3) by (cases p') (auto simp: less_Suc_eq_le length_dropWhile_le)
    then have "dropWhile is_blank p' = [] \<or> length (out @ w @ [NUL]) + length (dropWhile is_blank p') < MAX_LINE"
      using w(2) fit by auto
    from Suc.IH[OF this] obtain argv where "parse_words k p' (out @ w @ [NUL]) = Ret argv" "length argv \<le> k" by blast
    then show ?thesis using False w put by simp
  qed simp
qed simp

section \<open>Quoting\<close>

text \<open>A word as it can be typed between double quotes, and a line of such words.\<close>

fun dq_body :: "string \<Rightarrow> string" where
  "dq_body [] = []"
| "dq_body (c # w) = (if c = DQ \<or> c = BS then [BS, c] else [c]) @ dq_body w"

definition dq_word :: "string \<Rightarrow> string" where
  "dq_word w = DQ # dq_body w @ [DQ]"

definition dq_line :: "string list \<Rightarrow> string" where
  "dq_line ws = concat (map (\<lambda>w. dq_word w @ '' '') ws)"

lemma parse_dq_body:
  "length out + length w \<le> MAX_LINE \<Longrightarrow>
     parse_word Double (dq_body w @ DQ # r) out = parse_word Plain r (out @ w)"
proof (induction w arbitrary: out)
  case (Cons c w)
  then show ?case using Cons.IH[of "out @ [c]"] by (auto simp: put_char_def)
qed simp

lemma parse_words_dq:
  assumes "length out + sum_list (map (\<lambda>w. length w + 1) ws) \<le> MAX_LINE"
  shows "parse_words k (dq_line ws) out = Ret (take k ws)"
  using assms
proof (induction ws arbitrary: k out)
  case Nil
  then show ?case by (cases k) (simp_all add: dq_line_def)
next
  case (Cons w ws)
  have l: "dq_line (w # ws) = DQ # dq_body w @ DQ # CHR '' '' # dq_line ws" by (simp add: dq_line_def dq_word_def)
  have "parse_word Plain (dq_line (w # ws)) out = Ret (CHR '' '' # dq_line ws, out @ w)"
    unfolding l using Cons.prems by (simp add: is_blank_def parse_dq_body)
  moreover have "dropWhile is_blank (dq_line (w # ws)) = dq_line (w # ws)" "dq_line (w # ws) \<noteq> []" unfolding l by (simp_all add: is_blank_def)
  moreover have "put_char NUL (out @ w) = Ret (out @ w @ [NUL])" using Cons.prems by (simp add: put_char_def)
  moreover have "parse_words j (CHR '' '' # dq_line ws) out' = parse_words j (dq_line ws) out'" for j out'
    by (cases j) (simp_all add: is_blank_def)
  ultimately show ?case using Cons.IH[of "out @ w @ [NUL]"] Cons.prems by (cases k) simp_all
qed

section \<open>Properties\<close>

text \<open>
  C26: any list of at most 63 arguments, whatever characters they consist of, can be typed:
  written between double quotes with a backslash before each quote and backslash, it is parsed
  back to exactly these arguments, as long as the arguments with their terminators fit the
  buffer of 4096 bytes; and a line shorter than that buffer never overruns it and yields at most
  63 arguments.
\<close>

theorem parse_line_quoted_roundtrip:
  assumes "length ws \<le> 63" and "sum_list (map (\<lambda>w. length w + 1) ws) \<le> 4096" and "length line < 4096"
  shows "parse_line (dq_line ws) MAX_ARGS = Ret ws \<and>
    (\<exists>argv. parse_line line MAX_ARGS = Ret argv \<and> length argv \<le> 63)"
proof -
  have "length (dropWhile is_blank line) < MAX_LINE"
    using assms(3) length_dropWhile_le[of is_blank line] by (simp add: MAX_LINE_def)
  then show ?thesis using assms(1,2) parse_words_dq[of "[]" ws 63] parse_words_total[of line "[]" 63]
    by (simp add: parse_line_def MAX_ARGS_def MAX_LINE_def)
qed

theorem parse_line_quoted_roundtrip_witness:
  "parse_line (dq_line [''echo'', ''a b'', [DQ, BS], []]) MAX_ARGS = Ret [''echo'', ''a b'', [DQ, BS], []]"
  using parse_line_quoted_roundtrip[of "[''echo'', ''a b'', [DQ, BS], []]" "[]"] by simp

end
