(* ===== verification/Shell_Jobs.thy ===== *)
theory Shell_Jobs
  imports Spawnd Klog Shell_Parse
begin

text \<open>
  The state of the shell and its program execution: the registry of background tasks, packing of
  arguments, \<^verbatim>\<open>run\<close>, \<^verbatim>\<open>wait\<close>, \<^verbatim>\<open>kill\<close> and the execution of a command that is no builtin
  (\<^verbatim>\<open>pkg/native_shell/server/src/commands.cc\<close>, and \<^verbatim>\<open>File_resolver\<close> of \<^verbatim>\<open>shell_exec.cc\<close>). The
  shell calls the operations of the program loader modelled in \<open>Spawnd\<close>, whose state is part
  of the shell's; a command gives the new state and what it printed.
\<close>

section \<open>State and environment\<close>

record task_entry =
  te_name :: string
  te_desc :: string
  te_handle :: u32
  te_active :: bool

text \<open>\<open>sh_tasks\<close> are the first \<^verbatim>\<open>g_task_count\<close> elements of \<^verbatim>\<open>g_tasks\<close>; the others are never read.\<close>

record shell =
  sh_tasks :: "task_entry list"
  sh_run_background :: bool
  sh_spawnd :: spawnd
  sh_klog :: klog
  sh_exited :: bool

text \<open>
  What the system answers while one command runs: the capability \<^verbatim>\<open>spawnd\<close> and the behaviour of
  the loader behind it, the ROM and program name spaces, the clock, and whether the log file can
  be opened.
\<close>

record shell_env =
  se_spawnd_cap :: bool
  se_launch :: loader
  se_launch_evs :: "reaper_ev list"
  se_polls :: "reaper_ev list list"
  se_junk :: string
  se_env_ns :: "string \<Rightarrow> cap option"
  se_programs_ns :: "(string \<Rightarrow> cap option) option"
  se_free_slot :: bool
  se_now :: u64
  se_log_opens :: bool

definition KLOG_SHELL :: int where "KLOG_SHELL = 1"

definition log_at :: "int \<Rightarrow> shell_env \<Rightarrow> string \<Rightarrow> shell \<Rightarrow> shell" where
  "log_at level E msg s = s\<lparr>sh_klog := klog_write (se_log_opens E) (se_now E) level KLOG_SHELL msg (sh_klog s)\<rparr>"

abbreviation log_err :: "shell_env \<Rightarrow> string \<Rightarrow> shell \<Rightarrow> shell" where "log_err \<equiv> log_at 3"

abbreviation log_warn :: "shell_env \<Rightarrow> string \<Rightarrow> shell \<Rightarrow> shell" where "log_warn \<equiv> log_at 4"

abbreviation log_info :: "shell_env \<Rightarrow> string \<Rightarrow> shell \<Rightarrow> shell" where "log_info \<equiv> log_at 6"

abbreviation nl :: string where "nl \<equiv> ''\<newline>''"

text \<open>\<^verbatim>\<open>atoi\<close>: blanks, a sign, digits; the value saturates at the bounds of \<^verbatim>\<open>long\<close>.\<close>

definition is_space :: "char \<Rightarrow> bool" where
  "is_space c \<longleftrightarrow> c = CHR '' '' \<or> 9 \<le> (of_char c :: nat) \<and> (of_char c :: nat) \<le> 13"

definition atoi :: "string \<Rightarrow> int" where
  "atoi s =
     (let t = dropWhile is_space s;
          neg = (t \<noteq> [] \<and> hd t = CHR ''-'');
          ds = (if t \<noteq> [] \<and> (hd t = CHR ''-'' \<or> hd t = CHR ''+'') then tl t else t);
          v = int (read_nat (takeWhile is_digit ds))
      in if neg then max (- v) (- (2 ^ 31)) else min v (2 ^ 31 - 1))"

section \<open>The registry of background tasks\<close>

definition JOBS_MAX :: nat where "JOBS_MAX = 16"

definition task_register :: "string \<Rightarrow> string \<Rightarrow> shell \<Rightarrow> shell" where
  "task_register name desc s =
     (if \<exists>e \<in> set (sh_tasks s). te_active e \<and> te_handle e = 0 \<and> te_name e = name then s
      else if length (sh_tasks s) < JOBS_MAX
      then s\<lparr>sh_tasks := sh_tasks s @ [\<lparr>te_name = snprintf_buf 64 name, te_desc = snprintf_buf 64 desc,
             te_handle = 0, te_active = True\<rparr>]\<rparr>
      else s)"

definition deactivate :: "(task_entry \<Rightarrow> bool) \<Rightarrow> shell \<Rightarrow> shell" where
  "deactivate P s =
     (case find_idx P (sh_tasks s) of None \<Rightarrow> s
      | Some i \<Rightarrow> s\<lparr>sh_tasks := (sh_tasks s)[i := (sh_tasks s ! i)\<lparr>te_active := False\<rparr>]\<rparr>)"

definition task_unregister :: "string \<Rightarrow> shell \<Rightarrow> shell" where
  "task_unregister name s = deactivate (\<lambda>e. te_active e \<and> te_handle e = 0 \<and> te_name e = name) s"

definition task_register_proc :: "u32 \<Rightarrow> string \<Rightarrow> shell \<Rightarrow> shell" where
  "task_register_proc handle name s =
     (if length (sh_tasks s) < JOBS_MAX
      then s\<lparr>sh_tasks := sh_tasks s @ [\<lparr>te_name = snprintf_buf 64 name, te_desc = [], te_handle = handle, te_active = True\<rparr>]\<rparr>
      else s)"

definition task_name_by_handle :: "u32 \<Rightarrow> nat \<Rightarrow> shell \<Rightarrow> string option" where
  "task_name_by_handle handle bufsz s =
     (case find_idx (\<lambda>e. te_active e \<and> te_handle e = handle) (sh_tasks s) of None \<Rightarrow> None
      | Some i \<Rightarrow> Some (snprintf_buf bufsz (te_name (sh_tasks s ! i))))"

definition task_unregister_proc :: "u32 \<Rightarrow> shell \<Rightarrow> shell" where
  "task_unregister_proc handle s = deactivate (\<lambda>e. te_active e \<and> te_handle e = handle) s"

definition task_row :: "task_entry \<Rightarrow> string" where
  "task_row e =
     (if te_handle e \<noteq> 0 then pad_right 8 (show_nat (unat (te_handle e))) @ ''  '' @ te_name e @ nl
      else if te_desc e \<noteq> [] then pad_right 8 ''-'' @ ''  '' @ te_name e @ '' ('' @ te_desc e @ '')'' @ nl
      else pad_right 8 ''-'' @ ''  '' @ te_name e @ nl)"

definition cmd_list_tasks :: "shell \<Rightarrow> shell \<times> string" where
  "cmd_list_tasks s =
     (let act = filter te_active (sh_tasks s)
      in (s, if act = [] then ''No background tasks running.'' @ nl
             else pad_right 8 ''HANDLE'' @ ''  NAME'' @ nl @ pad_right 8 ''------'' @ ''  ----'' @ nl @
                  concat (map task_row act)))"

section \<open>Finding a program\<close>

text \<open>\<^verbatim>\<open>File_resolver::basename\<close>: what follows the last slash, cut to the buffer.\<close>

definition basename :: "string \<Rightarrow> nat \<Rightarrow> string" where
  "basename path sz = take (sz - 1) (rev (takeWhile (\<lambda>c. c \<noteq> CHR ''/'') (rev path)))"

definition rom_path :: "string \<Rightarrow> string" where
  "rom_path name = (if take 4 name \<noteq> ''rom/'' then snprintf_buf 280 (''rom/'' @ name) else take 279 name)"

definition open_from_env :: "shell_env \<Rightarrow> string \<Rightarrow> cap option" where
  "open_from_env E name =
     (case se_env_ns E (rom_path name) of
        Some c \<Rightarrow> Some c
      | None \<Rightarrow>
          (case se_programs_ns E of
             None \<Rightarrow> None
           | Some query \<Rightarrow> if se_free_slot E then query (basename name 256) else None))"

text \<open>\<^verbatim>\<open>resolve\<close> and \<^verbatim>\<open>file_exists\<close>: the file is its path and its dataspace.\<close>

definition resolve :: "shell_env \<Rightarrow> string option \<Rightarrow> (string \<times> cap) option" where
  "resolve E path =
     (case path of None \<Rightarrow> None | Some p \<Rightarrow> if p = [] then None else map_option (Pair p) (open_from_env E p))"

definition file_exists :: "shell_env \<Rightarrow> string option \<Rightarrow> bool" where
  "file_exists E path = (resolve E path \<noteq> None)"

section \<open>Starting programs\<close>

fun pack_loop :: "nat \<Rightarrow> string list \<Rightarrow> string \<Rightarrow> string" where
  "pack_loop bufsz [] buf = buf"
| "pack_loop bufsz (a # argv) buf =
     (if length buf + 2 < bufsz
      then if length buf + length a + 2 \<ge> bufsz then buf else pack_loop bufsz argv (buf @ a @ [NUL])
      else buf)"

definition pack_argv :: "nat \<Rightarrow> string list \<Rightarrow> string" where
  "pack_argv bufsz argv = (let buf = pack_loop bufsz argv [] in if length buf < bufsz then buf @ [NUL] else buf)"

definition SPAWN_BG :: u32 where "SPAWN_BG = 0"

definition WAIT_BLOCK :: u32 where "WAIT_BLOCK = 0"

text \<open>The call \<^verbatim>\<open>spawnd->spawn\<close>: the path travels with its terminator.\<close>

definition call_spawn :: "shell_env \<Rightarrow> string \<Rightarrow> string list \<Rightarrow> bool \<Rightarrow> shell \<Rightarrow> (shell \<times> int) outcome" where
  "call_spawn E program argv background s =
     obind (op_spawn (se_launch E) (se_launch_evs E) (se_polls E) (se_junk E) (program @ [NUL]) (pack_argv 1024 argv)
        (if background then SPAWN_BG else SPAWN_WAIT) (sh_spawnd s))
       (\<lambda>(d, ret). Ret (s\<lparr>sh_spawnd := d\<rparr>, ret))"

definition run_usage :: string where
  "run_usage = ''Usage: run <program> [args...]'' @ nl @
     ''  run rom/hello         - Run from ROM'' @ nl @
     ''  run hello             - Run from ROM (short form)'' @ nl @
     ''  run /ext4/prog        - Run from ext4 filesystem'' @ nl"

definition cmd_run :: "shell_env \<Rightarrow> string list \<Rightarrow> shell \<Rightarrow> (shell \<times> string) outcome" where
  "cmd_run E argv s =
     (if length argv < 2 then Ret (s, run_usage)
      else if \<not> se_spawnd_cap E
      then Ret (log_warn E ''run: spawnd cap not found'' s, ''run: spawnd not available (no 'spawnd' cap)'' @ nl)
      else
        let program = argv ! 1;
            background = sh_run_background s;
            s1 = log_info E (''run: starting '' @ program @ (if background then '' &'' else [])) (s\<lparr>sh_run_background := False\<rparr>)
        in obind (call_spawn E program (tl argv) background s1) (\<lambda>(s2, ret).
             if ret < 0
             then Ret (log_err E (''run: spawn failed ('' @ show_int ret @ '')'') s2,
                       ''run: failed to start '' @ program @ '' (err='' @ show_int ret @ '')'' @ nl)
             else if background
             then Ret (task_register_proc (word_of_int ret) program
                         (log_info E (''run: '' @ program @ '' started in background (handle='' @ show_int ret @ '')'') s2),
                       ''['' @ show_int ret @ ''] '' @ program @ nl)
             else Ret (log_info E (''run: '' @ program @ '' exited code='' @ show_int ret) s2,
                       ''run: task exited with code: '' @ show_int ret @ nl)))"

text \<open>\<open>True\<close> when a program of that name was found, whether or not it could be started.\<close>

definition shell_try_exec :: "shell_env \<Rightarrow> string list \<Rightarrow> shell \<Rightarrow> (shell \<times> string \<times> bool) outcome" where
  "shell_try_exec E argv s =
     (if argv = [] \<or> hd argv = [] then Ret (s, [], False)
      else if open_from_env E (hd argv) = None then Ret (s, [], False)
      else if \<not> se_spawnd_cap E then Ret (s, [], False)
      else
        let background = sh_run_background s
        in obind (call_spawn E (hd argv) argv background (s\<lparr>sh_run_background := False\<rparr>)) (\<lambda>(s2, ret).
             if ret < 0 then Ret (s2, hd argv @ '': failed to start ('' @ show_int ret @ '')'' @ nl, True)
             else if background
             then Ret (task_register_proc (word_of_int ret) (hd argv) s2, ''['' @ show_int ret @ ''] '' @ hd argv @ nl, True)
             else Ret (s2, [], True)))"

definition cmd_wait :: "shell_env \<Rightarrow> string list \<Rightarrow> shell \<Rightarrow> (shell \<times> string) outcome" where
  "cmd_wait E argv s =
     (if length argv < 2 then Ret (s, ''Usage: wait <handle>'' @ nl)
      else if \<not> se_spawnd_cap E then Ret (s, ''wait: spawnd not available'' @ nl)
      else
        let handle = word_of_int (atoi (argv ! 1)); hs = show_nat (unat handle)
        in obind (op_wait (se_polls E) handle WAIT_BLOCK (sh_spawnd s)) (\<lambda>(d, ret).
             let s1 = s\<lparr>sh_spawnd := d\<rparr>
             in if ret = err ENOENT then Ret (s1, ''wait: unknown handle '' @ hs @ nl)
                else Ret (log_info E (''wait: handle='' @ hs @ '' exited code='' @ show_int ret) (task_unregister_proc handle s1),
                          ''['' @ hs @ ''] done  exit code: '' @ show_int ret @ nl)))"

definition cmd_kill :: "shell_env \<Rightarrow> string list \<Rightarrow> shell \<Rightarrow> shell \<times> string" where
  "cmd_kill E argv s =
     (if length argv < 2 then (s, ''Usage: kill <handle>'' @ nl)
      else if \<not> se_spawnd_cap E then (s, ''kill: spawnd not available'' @ nl)
      else
        let handle = word_of_int (atoi (argv ! 1)); hs = show_nat (unat handle)
        in case op_kill handle (sh_spawnd s) of (d, ret) \<Rightarrow>
             let s1 = s\<lparr>sh_spawnd := d\<rparr>
             in if ret = err ENOENT then (s1, ''kill: unknown handle '' @ hs @ nl)
                else (log_info E (''kill: handle='' @ hs @ '' terminated'') (task_unregister_proc handle s1),
                      ''['' @ hs @ ''] killed'' @ nl))"

section \<open>Arguments arrive\<close>

definition packed :: "string list \<Rightarrow> string" where
  "packed argv = concat (map (\<lambda>a. a @ [NUL]) argv)"

lemma packed_Cons: "packed (a # argv) = a @ NUL # packed argv"
  by (simp add: packed_def)

lemma pack_loop_fits: "length buf + length (packed argv) + 1 < n \<Longrightarrow> pack_loop n argv buf = buf @ packed argv"
  by (induction argv arbitrary: buf) (simp_all add: packed_def)

lemma pack_argv_fits: "length (packed argv) < 1023 \<Longrightarrow> pack_argv 1024 argv = packed argv @ [NUL]"
  using pack_loop_fits[of "[]" argv 1024] by (simp add: pack_argv_def)

lemma unpack_packed:
  "\<forall>a \<in> set argv. a \<noteq> [] \<and> NUL \<notin> set a \<Longrightarrow> length argv \<le> k \<Longrightarrow> length pre + length (packed argv) < len \<Longrightarrow>
     unpack_from k (pre @ packed argv @ NUL # rest) len (length pre) = Ret argv"
proof (induction argv arbitrary: k pre)
  case Nil
  then show ?case by (cases k) (simp_all add: packed_def nth_append)
next
  case (Cons a argv)
  obtain j where k: "k = Suc j" using Cons.prems(2) by (cases k) auto
  obtain c w where a: "a = c # w" "c \<noteq> NUL" using Cons.prems(1) by (cases a) auto
  let ?b = "pre @ packed (a # argv) @ NUL # rest"
  have "?b ! length pre = c" by (simp add: packed_Cons a nth_append)
  moreover have "cstr_at ?b (length pre) = Ret a"
    using Cons.prems(1) cstr_append[of a] by (simp add: cstr_at_def packed_Cons)
  moreover have "unpack_from j ((pre @ a @ [NUL]) @ packed argv @ NUL # rest) len (length (pre @ a @ [NUL])) = Ret argv"
    using Cons.prems k by (intro Cons.IH) (simp_all add: packed_Cons)
  moreover have "?b = (pre @ a @ [NUL]) @ packed argv @ NUL # rest" by (simp add: packed_Cons)
  ultimately show ?case using Cons.prems(3) k a by (simp add: packed_Cons)
qed

lemma handler_argv_packed:
  assumes "\<forall>a \<in> set argv. a \<noteq> [] \<and> NUL \<notin> set a" and "length argv \<le> 64" and "length (packed argv) < 1023"
  shows "handler_argv junk (pack_argv 1024 argv) = Ret argv"
proof -
  let ?p = "packed argv @ [NUL]"
  obtain rest where "args_copy junk ?p = [] @ packed argv @ NUL # rest"
    using assms(3) by (simp add: args_copy_def)
  moreover have "min (length ?p) 1024 = length (packed argv) + 1" using assms(3) by simp
  ultimately show ?thesis
    using unpack_packed[of argv 64 "[]" "length (packed argv) + 1" rest] assms
    by (simp add: handler_argv_def unpack_args_def pack_argv_fits)
qed

lemma atoi_show_nat: "n < 2 ^ 31 \<Longrightarrow> atoi (show_nat n) = int n"
proof -
  assume n: "n < 2 ^ 31"
  have d: "is_digit c \<Longrightarrow> \<not> is_space c \<and> c \<noteq> CHR ''-'' \<and> c \<noteq> CHR ''+''" for c by (auto simp: is_digit_def is_space_def)
  have h: "is_digit (hd (show_nat n))" by (rule show_nat_digits[of _ n]) simp
  then have "dropWhile is_space (show_nat n) = show_nat n" using d by (cases "show_nat n") auto
  moreover have "takeWhile is_digit (show_nat n) = show_nat n"
    using show_nat_digits[of _ n] by (simp add: takeWhile_eq_all_conv)
  then have "int (read_nat (takeWhile is_digit (show_nat n))) = int n" by (metis read_show_nat)
  moreover have "int n < 2 ^ 31" using n by (metis of_nat_less_iff of_nat_numeral of_nat_power)
  ultimately show ?thesis using d[OF h] unfolding atoi_def Let_def by simp
qed

section \<open>Running and killing\<close>

lemma shell_log [simp]:
  "sh_spawnd (log_at l E m s) = sh_spawnd s" "sh_tasks (log_at l E m s) = sh_tasks s"
  "sh_run_background (log_at l E m s) = sh_run_background s"
  by (simp_all add: log_at_def)

lemma shell_register [simp]:
  "sh_spawnd (task_register_proc h n s) = sh_spawnd s" "sh_run_background (task_register_proc h n s) = sh_run_background s"
  "sh_tasks (task_register_proc h n s) =
     sh_tasks s @ (if length (sh_tasks s) < JOBS_MAX then [\<lparr>te_name = snprintf_buf 64 n, te_desc = [], te_handle = h, te_active = True\<rparr>] else [])"
  by (simp_all add: task_register_proc_def)

lemma path_buf_program: "NUL \<notin> set p \<Longrightarrow> length p \<le> 511 \<Longrightarrow> path_buf (p @ [NUL]) = p"
proof -
  assume p: "NUL \<notin> set p" "length p \<le> 511"
  have "cstr (p @ take (511 - length p) [NUL]) = p"
    using p(1) cstr_id[of p] cstr_append[of p "[]"] by (cases "511 - length p") simp_all
  then show "path_buf (p @ [NUL]) = p" using p(2) by (simp add: path_buf_def)
qed

lemma word_of_handle: "unat (h :: u32) < 2 ^ 31 \<Longrightarrow> word_of_int (sint h) = h \<and> sint h = int (unat h) \<and> \<not> sint h < 0"
  using sint_small[of h] by simp

text \<open>What a program that is started gets: its path, its arguments, its handle.\<close>

definition request :: "u32 \<Rightarrow> string list \<Rightarrow> launch_req" where
  "request h args = \<lparr>lr_path = hd args, lr_argv = args, lr_env = [handle_env h], lr_console = None, lr_gate_label = gate_label h\<rparr>"

lemma spawned_next_handle:
  assumes "table_inv (sd_table d)" and "handles_left (sd_table d)" and "do_spawn launch evs path argv console d = (d', Some i)"
  shows "tt_next_handle (sd_table d') = tt_next_handle (sd_table d) + 1"
proof -
  obtain T where a: "tt_alloc (sd_table d) (Some path) = (T, Some i)"
    using assms(3) by (auto simp: do_spawn_def Let_def split: prod.splits option.splits)
  have "tt_next_handle T = tt_next_handle (sd_table d) + 1"
    using tt_alloc_SomeD(1)[OF assms(1,2) a] by (simp add: put_slot_def)
  moreover have "tt_next_handle (sd_table d') = tt_next_handle T"
    using assms(3) a by (auto simp: do_spawn_def Let_def put_image_def upd_slot_def split: option.splits)
  ultimately show ?thesis by simp
qed

text \<open>A background spawn on a loader with a free slot whose kernel side succeeds.\<close>

lemma op_spawn_bg:
  assumes "table_inv (sd_table d)" and "handles_left (sd_table d)" and "\<exists>i < TASK_MAX. ct_state (tt_tasks (sd_table d) ! i) = FREE"
    and "args \<noteq> []" "\<forall>a \<in> set args. a \<noteq> [] \<and> NUL \<notin> set a" "length args \<le> 64" "length (packed args) < 1023" "length (hd args) \<le> 511"
    and "launch (request (tt_next_handle (sd_table d)) args) = Some im"
  defines "h \<equiv> tt_next_handle (sd_table d)"
  shows "\<exists>d'. op_spawn launch evs polls junk (hd args @ [NUL]) (packed args @ [NUL]) SPAWN_BG d = Ret (d', sint h) \<and> table_inv (sd_table d') \<and>
    live (sd_table d') = (\<lambda>k. map_option (reaped evs) (live (sd_table d) k))
      (h \<mapsto> start_running (install_caps im (reaped evs (fresh_child h (hd args))))) \<and>
    sd_deleted d' = sd_deleted d \<and> tt_next_handle (sd_table d') = h + 1"
proof -
  let ?p = "hd args"
  have p: "NUL \<notin> set ?p" using assms(4,5) by auto
  have "length (tt_tasks (sd_table d)) = TASK_MAX" using assms(1) by (simp add: table_inv_def)
  then have "find_idx (\<lambda>t. ct_state t = FREE) (tt_tasks (sd_table d)) \<noteq> None"
    using assms(3) by (auto simp: find_idx_None)
  then obtain T i where a: "tt_alloc (sd_table d) (Some ?p) = (T, Some i)"
    by (auto simp: tt_alloc_def)
  have load: "load_image launch h ?p args None = Some im"
    using assms(9) by (simp add: load_image_def request_def h_def)
  have nth: "ct_handle (tt_tasks T ! i) = h" unfolding h_def by (rule alloc_then_reap(1)[OF assms(1,2) a])
  obtain d' where d: "do_spawn launch evs ?p args None d = (d', Some i)"
    using a load nth by (simp add: do_spawn_def Let_def)
  obtain im' where "load_image launch h ?p args None = Some im'" and f: "table_inv (sd_table d')" "tt_find (sd_table d') h = Some i"
    and l: "live (sd_table d') = (\<lambda>k. map_option (reaped evs) (live (sd_table d) k))
        (h \<mapsto> start_running (install_caps im' (reaped evs (fresh_child h ?p))))" "sd_deleted d' = sd_deleted d"
    unfolding h_def by (rule do_spawn_Some[OF assms(1,2) d])
  have hd: "ct_handle (child_at d' i) = h" using tt_find_iff[OF f(1)] f(2) by blast
  have "op_spawn launch evs polls junk (?p @ [NUL]) (packed args @ [NUL]) SPAWN_BG d = Ret (d', sint h)"
    using handler_argv_packed[OF assms(5-7)] path_buf_program[OF p assms(8)] d hd
    by (simp add: op_spawn_def spawn_reply_def SPAWN_BG_def pack_argv_fits[OF assms(7)])
  then show ?thesis
    using f(1) l load \<open>load_image _ _ _ _ _ = Some im'\<close> spawned_next_handle[OF assms(1,2) d] by (auto simp: h_def)
qed

lemma call_spawn_bg:
  assumes "table_inv (sd_table (sh_spawnd s))" and "handles_left (sd_table (sh_spawnd s))"
    and "\<exists>i < TASK_MAX. ct_state (tt_tasks (sd_table (sh_spawnd s)) ! i) = FREE"
    and "args \<noteq> []" "\<forall>a \<in> set args. a \<noteq> [] \<and> NUL \<notin> set a" "length args \<le> 64" "length (packed args) < 1023" "length (hd args) \<le> 511"
    and "se_launch E (request (tt_next_handle (sd_table (sh_spawnd s))) args) = Some im"
  defines "h \<equiv> tt_next_handle (sd_table (sh_spawnd s))"
  shows "\<exists>d. call_spawn E (hd args) args True s = Ret (s\<lparr>sh_spawnd := d\<rparr>, sint h) \<and> table_inv (sd_table d) \<and>
    live (sd_table d) = (\<lambda>k. map_option (reaped (se_launch_evs E)) (live (sd_table (sh_spawnd s)) k))
      (h \<mapsto> start_running (install_caps im (reaped (se_launch_evs E) (fresh_child h (hd args))))) \<and>
    sd_deleted d = sd_deleted (sh_spawnd s)"
  using op_spawn_bg[where launch = "se_launch E" and evs = "se_launch_evs E" and polls = "se_polls E" and junk = "se_junk E", OF assms(1-9)]
  by (auto simp: call_spawn_def h_def pack_argv_fits[OF assms(7)])

lemma deactivate_spawnd [simp]: "sh_spawnd (task_unregister_proc h s) = sh_spawnd s"
  by (simp add: task_unregister_proc_def deactivate_def split: option.splits)

lemma unregister_only:
  assumes "\<forall>e \<in> set es. te_active e \<longrightarrow> te_handle e \<noteq> h" and "sh_tasks s = es @ (if b then [e] else [])" and "te_handle e = h" "te_active e"
  shows "task_name_by_handle h n (task_unregister_proc h s) = None"
proof (cases b)
  case True
  then have "find_idx (\<lambda>e. te_active e \<and> te_handle e = h) (sh_tasks s) = Some (length es)"
    using assms by (intro find_idx_unique) (auto simp: nth_append split: if_splits)
  then have "sh_tasks (task_unregister_proc h s) = es @ [e\<lparr>te_active := False\<rparr>]"
    using assms(2) True by (simp add: task_unregister_proc_def deactivate_def)
  moreover have "find_idx (\<lambda>e. te_active e \<and> te_handle e = h) (es @ [e\<lparr>te_active := False\<rparr>]) = None"
    using assms(1) by (auto simp: find_idx_None)
  ultimately show ?thesis by (simp add: task_name_by_handle_def)
next
  case False
  then have "find_idx (\<lambda>e. te_active e \<and> te_handle e = h) (sh_tasks s) = None" using assms(1,2) by (auto simp: find_idx_None)
  then show ?thesis by (simp add: task_unregister_proc_def deactivate_def task_name_by_handle_def)
qed

lemma kill_live:
  assumes "live (sd_table (sh_spawnd s)) h = Some t" and "table_inv (sd_table (sh_spawnd s))" and "unat h < 2 ^ 31" and "se_spawnd_cap E"
  shows "\<exists>s'. cmd_kill E [''kill'', show_nat (unat h)] s = (s', ''['' @ show_nat (unat h) @ ''] killed'' @ nl) \<and>
    live (sd_table (sh_spawnd s')) h = None \<and> sd_deleted (sh_spawnd s') = sd_deleted (sh_spawnd s) @ caps_of t \<and>
    sh_tasks s' = sh_tasks (task_unregister_proc h s)"
proof -
  have h: "word_of_int (atoi (show_nat (unat h))) = h" using atoi_show_nat[OF assms(3)] by simp
  obtain i where "tt_find (sd_table (sh_spawnd s)) h = Some i" using assms(1) by (auto simp: live_def split: option.splits)
  then have k: "op_kill h (sh_spawnd s) = (free_child h (sh_spawnd s), 0)" by (simp add: op_kill_def)
  have t: "sh_tasks (task_unregister_proc h (s\<lparr>sh_spawnd := d\<rparr>)) = sh_tasks (task_unregister_proc h s)" for d
    by (simp add: task_unregister_proc_def deactivate_def split: option.splits)
  show ?thesis
    using free_child_table[OF assms(2), of h] free_child_deleted[of h "sh_spawnd s"] assms(1,4) h k
    by (simp add: cmd_kill_def Let_def t)
qed

section \<open>Properties\<close>



end
