(* ===== verification/Calendar.thy ===== *)
theory Calendar
  imports Prelude
begin

text \<open>
  The calendar: leap years, lengths of months, and the conversion between seconds and broken-down
  time of the C library (\<^verbatim>\<open>gmtime_r\<close>, \<^verbatim>\<open>timegm\<close>) that the clock drivers use, with the round trip
  between the two. \<^verbatim>\<open>time_t\<close> has 32 bits.
\<close>

section \<open>Years and months\<close>

text \<open>Division of the C language, for a positive divisor.\<close>

definition tdiv :: "int \<Rightarrow> int \<Rightarrow> int" where
  "tdiv a b = (if a < 0 then - ((- a) div b) else a div b)"

definition trem :: "int \<Rightarrow> int \<Rightarrow> int" where
  "trem a b = a - tdiv a b * b"

definition leap_year :: "nat \<Rightarrow> bool" where
  "leap_year y \<longleftrightarrow> 4 dvd y \<and> (\<not> 100 dvd y \<or> 400 dvd y)"

definition month_len :: "nat \<Rightarrow> nat \<Rightarrow> nat" where
  "month_len y m = (if m = 2 then if leap_year y then 29 else 28 else if m \<in> {4, 6, 9, 11} then 30 else 31)"

fun days_before_year :: "nat \<Rightarrow> nat" where
  "days_before_year 0 = 0"
| "days_before_year (Suc n) = days_before_year n + (if leap_year (1970 + n) then 366 else 365)"

definition days_before_month :: "nat \<Rightarrow> nat \<Rightarrow> nat" where
  "days_before_month y m = sum_list (map (month_len y) [1..<m])"

lemma days_before_year_ge: "365 * n \<le> days_before_year n"
  by (induction n) auto

section \<open>Broken-down time\<close>

record tm =
  tm_sec :: int
  tm_min :: int
  tm_hour :: int
  tm_mday :: int
  tm_mon :: int
  tm_year :: int
  tm_wday :: int

definition year_days :: "int \<Rightarrow> int" where
  "year_days y = (if y mod 4 = 0 \<and> (y mod 100 \<noteq> 0 \<or> y mod 400 = 0) then 366 else 365)"

text \<open>Months count from 0.\<close>

definition month_days :: "int \<Rightarrow> nat \<Rightarrow> int" where
  "month_days y m = (if m = 1 then year_days y - 337 else if m \<in> {3, 5, 8, 10} then 30 else 31)"

text \<open>The first day of a year and of a month, from the start of 1970 and of the year.\<close>

definition year_start :: "int \<Rightarrow> int" where
  "year_start y = 365 * (y - 1970) + ((y - 1) div 4 - (y - 1) div 100 + (y - 1) div 400) - 477"

fun month_start :: "int \<Rightarrow> nat \<Rightarrow> int" where
  "month_start y 0 = 0"
| "month_start y (Suc m) = month_start y m + month_days y m"

function gm_year :: "int \<Rightarrow> int \<Rightarrow> int \<times> int" where
  "gm_year y d =
     (if d < 0 then gm_year (y - 1) (d + year_days (y - 1))
      else if year_days y \<le> d then gm_year (y + 1) (d - year_days y)
      else (y, d))"
  by pat_completeness auto

termination
  by (relation "measure (\<lambda>(y, d). nat (if d < 0 then 1000 - d else d))") (auto simp: year_days_def split: if_splits)

function gm_month :: "int \<Rightarrow> nat \<Rightarrow> int \<Rightarrow> nat \<times> int" where
  "gm_month y m d = (if m < 11 \<and> month_days y m \<le> d then gm_month y (Suc m) (d - month_days y m) else (m, d))"
  by pat_completeness auto

termination
  by (relation "measure (\<lambda>(y, m, d). 11 - m)") auto

declare gm_year.simps [simp del] gm_month.simps [simp del]

definition gmtime :: "int \<Rightarrow> tm" where
  "gmtime s =
     (let days = s div 86400; r = s mod 86400; (y, yd) = gm_year 1970 days; (m, d) = gm_month y 0 yd
      in \<lparr>tm_sec = r mod 60, tm_min = r div 60 mod 60, tm_hour = r div 3600, tm_mday = d + 1, tm_mon = int m,
          tm_year = y - 1900, tm_wday = (days + 4) mod 7\<rparr>)"

text \<open>A month outside the year counts into the neighbouring years; other fields are just added.\<close>

definition tm_secs :: "tm \<Rightarrow> int" where
  "tm_secs t =
     (let y = 1900 + tm_year t + tm_mon t div 12; m = nat (tm_mon t mod 12)
      in 86400 * (year_start y + month_start y m + tm_mday t - 1) + 3600 * tm_hour t + 60 * tm_min t + tm_sec t)"

definition timegm :: "tm \<Rightarrow> int" where
  "timegm t = (let s = tm_secs t in if - (2 ^ 31) \<le> s \<and> s < 2 ^ 31 then s else - 1)"

section \<open>The round trip\<close>

lemma div_pred:
  fixes y k :: int
  assumes "k > 1"
  shows "y div k = (y - 1) div k + (if y mod k = 0 then 1 else 0)"
proof (cases "y mod k = 0")
  case True
  then have "y = k * (y div k)" by (metis add.right_neutral mult_div_mod_eq)
  then have "y - 1 = k * (y div k - 1) + (k - 1)" by (simp add: algebra_simps)
  then have "(y - 1) div k = y div k - 1" by (rule int_div_pos_eq) (use assms in simp_all)
  with True show ?thesis by simp
next
  case False
  have "0 \<le> y mod k" "y mod k < k" using assms by simp_all
  with False have r: "0 \<le> y mod k - 1" "y mod k - 1 < k" by linarith+
  have "y - 1 = k * (y div k) + (y mod k - 1)" by simp
  then have "(y - 1) div k = y div k" using r by (rule int_div_pos_eq)
  with False show ?thesis by simp
qed

lemma year_days_cases: "y mod 400 = 0 \<Longrightarrow> y mod 100 = 0" "y mod 100 = 0 \<Longrightarrow> y mod 4 = 0" for y :: int
  using mod_mod_cancel[of 100 400 y] mod_mod_cancel[of 4 100 y] by simp_all

lemma year_start_step: "year_start (y + 1) = year_start y + year_days y"
proof -
  have s: "year_start (y + 1) - year_start y = 365 + (y div 4 - (y - 1) div 4) - (y div 100 - (y - 1) div 100) + (y div 400 - (y - 1) div 400)"
  proof -
    have "365 * (y + 1 - 1970) + (a - b + c) - 477 - (365 * (y - 1970) + (a' - b' + c') - 477) = 365 + (a - a') - (b - b') + (c - c')"
      for a b c a' b' c' :: int by simp
    then show ?thesis unfolding year_start_def add_diff_cancel_right' .
  qed
  have d: "y div k - (y - 1) div k = (if y mod k = 0 then 1 else 0)" if "k > 1" for k
    using div_pred[OF that, of y] by linarith
  have "year_start (y + 1) - year_start y = year_days y"
    using year_days_cases[of y] unfolding s year_days_def d[of 4, simplified] d[of 100, simplified] d[of 400, simplified]
    by (cases "y mod 4 = 0"; cases "y mod 100 = 0"; cases "y mod 400 = 0"; simp only: if_True if_False simp_thms; simp)
  then show ?thesis by linarith
qed

lemma gm_year_spec: "gm_year y d = (y', d') \<Longrightarrow> year_start y' + d' = year_start y + d \<and> 0 \<le> d' \<and> d' < year_days y'"
proof (induction y d rule: gm_year.induct)
  case (1 y d)
  have p: "year_start y = year_start (y - 1) + year_days (y - 1)" using year_start_step[of "y - 1"] by simp
  note u = gm_year.simps[of y d]
  consider "d < 0" | "\<not> d < 0" "year_days y \<le> d" | "\<not> d < 0" "\<not> year_days y \<le> d" by blast
  then show ?case
  proof cases
    case 1
    then show ?thesis using "1.IH"(1) "1.prems" u p by simp
  next
    case 2
    then show ?thesis using "1.IH"(2) "1.prems" u year_start_step[of y] by simp
  next
    case 3
    then show ?thesis using "1.prems" u by simp
  qed
qed

lemma gm_month_spec:
  "gm_month y m d = (m', d') \<Longrightarrow> m \<le> 11 \<Longrightarrow> 0 \<le> d \<Longrightarrow>
   month_start y m' + d' = month_start y m + d \<and> m' \<le> 11 \<and> 0 \<le> d' \<and> (m' < 11 \<longrightarrow> d' < month_days y m')"
proof (induction y m d rule: gm_month.induct)
  case (1 y m d)
  note u = gm_month.simps[of y m d]
  show ?case
  proof (cases "m < 11 \<and> month_days y m \<le> d")
    case True
    then show ?thesis using "1.IH" "1.prems" u by simp
  next
    case False
    then show ?thesis using "1.prems" u by auto
  qed
qed

lemma year_days_bounds: "365 \<le> year_days y" "year_days y \<le> 366"
  by (simp_all add: year_days_def)

lemma month_days_bounds: "28 \<le> month_days y m" "month_days y m \<le> 31"
  using year_days_bounds[of y] by (simp_all add: month_days_def)

lemma month_start_11: "month_start y 11 + 31 = year_days y"
  by (simp add: numeral_eq_Suc month_days_def)

definition tm_ok :: "tm \<Rightarrow> bool" where
  "tm_ok t \<longleftrightarrow> tm_sec t \<in> {0..59} \<and> tm_min t \<in> {0..59} \<and> tm_hour t \<in> {0..23} \<and> tm_mday t \<in> {1..31} \<and> tm_mon t \<in> {0..11} \<and> tm_wday t \<in> {0..6}"

lemma gmtime_date:
  obtains y m d where "gmtime s = \<lparr>tm_sec = s mod 86400 mod 60, tm_min = s mod 86400 div 60 mod 60, tm_hour = s mod 86400 div 3600,
      tm_mday = d + 1, tm_mon = int m, tm_year = y - 1900, tm_wday = (s div 86400 + 4) mod 7\<rparr>"
    and "year_start y + month_start y m + d = s div 86400" "m \<le> 11" "0 \<le> d" "d \<le> 30"
    and "year_start y \<le> s div 86400" "s div 86400 < year_start (y + 1)"
proof -
  obtain y yd where y: "gm_year 1970 (s div 86400) = (y, yd)" by fastforce
  obtain m d where m: "gm_month y 0 yd = (m, d)" by fastforce
  have s0: "year_start 1970 = 0" by (simp add: year_start_def)
  note ys = gm_year_spec[OF y, unfolded s0]
  note ms = gm_month_spec[OF m]
  have d: "month_start y m + d = yd" "m \<le> 11" "0 \<le> d" "m < 11 \<longrightarrow> d < month_days y m" using ms ys by simp_all
  have "d \<le> 30"
  proof (cases "m < 11")
    case True
    then show ?thesis using d(4) month_days_bounds(2)[of y m] by linarith
  next
    case False
    then have e: "m = 11" using d(2) by linarith
    have "yd < year_days y" using ys by blast
    then show ?thesis using d(1) month_start_11[of y] unfolding e by linarith
  qed
  then show thesis
    using that[of d m y] d(2,3) gmtime_def[of s] ys unfolding year_start_step d(1)[symmetric] by (simp add: y m Let_def)
qed

lemma gmtime_ok: "tm_ok (gmtime s)"
proof (rule gmtime_date[of s])
  fix y m d assume g: "gmtime s = \<lparr>tm_sec = s mod 86400 mod 60, tm_min = s mod 86400 div 60 mod 60, tm_hour = s mod 86400 div 3600,
      tm_mday = d + 1, tm_mon = int m, tm_year = y - 1900, tm_wday = (s div 86400 + 4) mod 7\<rparr>"
    and "m \<le> 11" "0 \<le> d" "d \<le> 30"
  have "s mod 86400 < 86400" "0 \<le> s mod 86400" by simp_all
  then have "0 \<le> s mod 86400 div 3600" "s mod 86400 div 3600 \<le> 23"
    using zdiv_mono1[of "s mod 86400" 86399 3600] by (simp_all add: pos_imp_zdiv_nonneg_iff)
  moreover have "x mod 60 \<le> 59" "0 \<le> x mod 60" "x mod 7 \<le> 6" "0 \<le> x mod 7" for x :: int
    using pos_mod_bound[of 60 x] pos_mod_bound[of 7 x] by simp_all
  ultimately show ?thesis unfolding g using \<open>m \<le> 11\<close> \<open>0 \<le> d\<close> \<open>d \<le> 30\<close> by (simp add: tm_ok_def)
qed

lemma tm_secs_gmtime: "tm_secs (gmtime s) = s"
proof (rule gmtime_date[of s])
  fix y m d assume g: "gmtime s = \<lparr>tm_sec = s mod 86400 mod 60, tm_min = s mod 86400 div 60 mod 60, tm_hour = s mod 86400 div 3600,
      tm_mday = d + 1, tm_mon = int m, tm_year = y - 1900, tm_wday = (s div 86400 + 4) mod 7\<rparr>"
    and d: "year_start y + month_start y m + d = s div 86400" and m: "m \<le> 11"
  have m0: "int m div 12 = 0" "nat (int m mod 12) = m" using m by simp_all
  have hms: "3600 * (r div 3600) + 60 * (r div 60 mod 60) + r mod 60 = r" for r :: int
  proof -
    have "r div 3600 = r div 60 div 60" using zdiv_zmult2_eq[of 60 r 60] by simp
    moreover have "3600 * b + 60 * x + z = r" if "60 * b + x = a" "60 * a + z = r" for a b x z
    proof -
      have "60 * (60 * b + x) + z = r" using that by blast
      then show ?thesis by (simp only: distrib_left mult.assoc[symmetric])
    qed
    ultimately show ?thesis using mult_div_mod_eq[of 60 r] mult_div_mod_eq[of 60 "r div 60"] by (simp only:)
  qed
  have "86400 * D + R = s" if "D = s div 86400" "R = s mod 86400" for D R using that mult_div_mod_eq[of 86400 s] by blast
  then have e: "86400 * (year_start y + month_start y m + d) + s mod 86400 = s" using d by blast
  have "86400 * (year_start y + month_start y m + (d + 1) - 1) + H + M + S = s" if "H + M + S = s mod 86400" for H M S
    using e that by (simp only: add_diff_cancel_right' add.assoc[symmetric])
  note e' = this[OF hms[of "s mod 86400"]]
  have y: "1900 + (y - 1900) + 0 = y" by simp
  show ?thesis unfolding g tm_secs_def Let_def tm.simps m0 y by (rule e')
qed

lemma year_start_mono: "y \<le> y' \<Longrightarrow> year_start y \<le> year_start y'"
proof (induction y' rule: int_ge_induct)
  case (step i)
  then show ?case using year_start_step[of i] year_days_bounds(1)[of i] by linarith
qed simp

lemma gmtime_year:
  assumes "946684800 \<le> s" and "s < 2 ^ 31"
  shows "tm_year (gmtime s) \<in> {100..138}"
proof (rule gmtime_date[of s])
  fix y m d assume g: "gmtime s = \<lparr>tm_sec = s mod 86400 mod 60, tm_min = s mod 86400 div 60 mod 60, tm_hour = s mod 86400 div 3600,
      tm_mday = d + 1, tm_mon = int m, tm_year = y - 1900, tm_wday = (s div 86400 + 4) mod 7\<rparr>"
    and y: "year_start y \<le> s div 86400" "s div 86400 < year_start (y + 1)"
  have c: "year_start 2000 = 10957" "year_start 2039 = 25202" by (simp_all add: year_start_def)
  have s: "10957 \<le> s div 86400" "s div 86400 < 25202"
    using assms zdiv_mono1[of 946684800 s 86400] zdiv_mono1[of s "2 ^ 31" 86400] by simp_all
  have "2000 \<le> y"
  proof (rule ccontr)
    assume "\<not> 2000 \<le> y"
    then have "year_start (y + 1) \<le> year_start 2000" by (intro year_start_mono) simp
    then show False using y(2) s(1) c by linarith
  qed
  moreover have "y \<le> 2038"
  proof (rule ccontr)
    assume "\<not> y \<le> 2038"
    then have "year_start 2039 \<le> year_start y" by (intro year_start_mono) simp
    then show False using y(1) s(2) c by linarith
  qed
  ultimately show ?thesis by (simp add: g)
qed

end
