(* ===== verification/Shell_Sys.thy ===== *)
theory Shell_Sys
  imports Shell_Jobs Calendar
begin

text \<open>
  The system and hardware commands of the shell, \<^verbatim>\<open>pkg/native_shell/server/src/commands.cc\<close>:
  the date and its conversion to seconds, the uptime, the clients of the temperature and radio
  servers, the log viewer, and the sampling behind \<^verbatim>\<open>top\<close> (\<^verbatim>\<open>cmd_top.cc\<close>). The clock, the
  calendar printing of the C library and the device servers are parameters. \<^verbatim>\<open>long\<close> and
  \<^verbatim>\<open>time_t\<close> have 32 bits; a signed overflow is a \<open>Fault\<close>.
\<close>

section \<open>Date\<close>

definition chk32 :: "int \<Rightarrow> int outcome" where
  "chk32 x = (if - (2 ^ 31) \<le> x \<and> x < 2 ^ 31 then Ret x else Fault)"

definition mdays :: "int list" where
  "mdays = [0, 31, 59, 90, 120, 151, 181, 212, 243, 273, 304, 334]"

definition is_leap :: "int \<Rightarrow> bool" where
  "is_leap y \<longleftrightarrow> y mod 4 = 0 \<and> (y mod 100 \<noteq> 0 \<or> y mod 400 = 0)"

definition utc_mktime :: "int \<Rightarrow> int \<Rightarrow> int \<Rightarrow> int \<Rightarrow> int \<Rightarrow> int \<Rightarrow> int outcome" where
  "utc_mktime y mo d h mi s =
     obind (chk32 (y - 1970)) (\<lambda>years.
     let leap = tdiv (years + 1) 4 - tdiv (years + 1) 100 + tdiv (years + 1) 400
     in obind (chk32 (years * 365)) (\<lambda>yd.
        obind (chk32 (yd + leap + mdays ! nat (mo - 1) + (if mo > 2 \<and> is_leap y then 1 else 0) + d - 1)) (\<lambda>days.
        obind (chk32 (days * 86400)) (\<lambda>secs.
        chk32 (secs + h * 3600 + mi * 60 + s)))))"

text \<open>
  \<^verbatim>\<open>sscanf\<close> with the directives of the command: \<^verbatim>\<open>%d\<close> skips white space, a blank in the format
  matches any amount of it, other characters match themselves.
\<close>

definition scan_d :: "string \<Rightarrow> (int \<times> string) option" where
  "scan_d s =
     (let t = dropWhile is_space s;
          neg = (t \<noteq> [] \<and> hd t = CHR ''-'');
          u = (if t \<noteq> [] \<and> (hd t = CHR ''-'' \<or> hd t = CHR ''+'') then tl t else t);
          ds = takeWhile is_digit u;
          v = int (read_nat ds)
      in if ds = [] then None
         else Some (if neg then max (- v) (- (2 ^ 31)) else min v (2 ^ 31 - 1), drop (length ds) u))"

definition scan_c :: "char \<Rightarrow> string \<Rightarrow> string option" where
  "scan_c c s = (if s \<noteq> [] \<and> hd s = c then Some (tl s) else None)"

text \<open>The six numbers, or \<open>None\<close> when not all of them were converted.\<close>

definition scan_date :: "string \<Rightarrow> (int \<times> int \<times> int \<times> int \<times> int \<times> int) option" where
  "scan_date s =
     Option.bind (scan_d s) (\<lambda>(y, s).
     Option.bind (scan_c (CHR ''-'') s) (\<lambda>s.
     Option.bind (scan_d s) (\<lambda>(mo, s).
     Option.bind (scan_c (CHR ''-'') s) (\<lambda>s.
     Option.bind (scan_d s) (\<lambda>(d, s).
     Option.bind (scan_d (dropWhile is_space s)) (\<lambda>(h, s).
     Option.bind (scan_c (CHR '':'') s) (\<lambda>s.
     Option.bind (scan_d s) (\<lambda>(mi, s).
     Option.bind (scan_c (CHR '':'') s) (\<lambda>s.
     Option.bind (scan_d s) (\<lambda>(sec, s).
     Some (y, mo, d, h, mi, sec)))))))))))"

text \<open>
  The environment of the command: the monotonic and the real time clock (seconds and nanoseconds),
  the RTC service (taking the new offset and answering whether it failed), and
  \<^verbatim>\<open>strftime\<close> of \<^verbatim>\<open>localtime\<close>.
\<close>

record date_env =
  de_mono :: "nat \<times> nat"
  de_real :: int
  de_rtc :: "(u64 \<Rightarrow> bool) option"
  de_strftime :: "int \<Rightarrow> string"

definition hms :: "int \<Rightarrow> int \<Rightarrow> int \<Rightarrow> string" where
  "hms h m s = pad_left (CHR ''0'') 2 (show_int h) @ '':'' @ pad_left (CHR ''0'') 2 (show_int m) @ '':'' @
     pad_left (CHR ''0'') 2 (show_int s)"

definition new_offset :: "int \<Rightarrow> nat \<times> nat \<Rightarrow> u64" where
  "new_offset t up = word_of_int t * 1000000000 - (of_nat (fst up) * 1000000000 + of_nat (snd up))"

text \<open>What is printed, and the offset that was sent to the RTC service, if any.\<close>

definition date_set :: "date_env \<Rightarrow> string \<Rightarrow> (u64 option \<times> string) outcome" where
  "date_set D arg =
     (case scan_date arg of
        Some (y, mo, d, h, mi, s) \<Rightarrow>
          if mo < 1 \<or> mo > 12 \<or> d < 1 \<or> d > 31 \<or> h < 0 \<or> h > 23 \<or> mi < 0 \<or> mi > 59 \<or> s < 0 \<or> s > 59
          then Ret (None, ''Usage: date -s '' @ [DQ] @ ''YYYY-MM-DD HH:MM:SS'' @ [DQ] @ nl)
          else (case de_rtc D of
                  None \<Rightarrow> Ret (None, ''date: RTC service not available'' @ nl)
                | Some set_offset \<Rightarrow>
                    obind (utc_mktime y mo d h mi s) (\<lambda>t.
                      let off = new_offset t (de_mono D)
                      in if \<not> set_offset off then Ret (Some off, ''Date set to: '' @ de_strftime D t @ nl)
                         else Ret (Some off, ''date: failed to set RTC time'' @ nl)))
      | None \<Rightarrow> Ret (None, ''Usage: date -s '' @ [DQ] @ ''YYYY-MM-DD HH:MM:SS'' @ [DQ] @ nl))"

definition cmd_date :: "date_env \<Rightarrow> string list \<Rightarrow> (u64 option \<times> string) outcome" where
  "cmd_date D argv =
     (if length argv \<ge> 3 \<and> argv ! 1 = ''-s'' then date_set D (argv ! 2)
      else if de_real D > 946684800 then Ret (None, de_strftime D (de_real D) @ nl)
      else let sec = int (fst (de_mono D))
           in Ret (None, ''(RTC unavailable) uptime: '' @ hms (sec div 3600) (sec mod 3600 div 60) (sec mod 60) @ nl))"

definition cmd_uptime :: "date_env \<Rightarrow> string" where
  "cmd_uptime D =
     (let total = int (fst (de_mono D));
          days = total div 86400; h = total mod 86400 div 3600; m = total mod 3600 div 60; s = total mod 60
      in if days > 0
         then ''up '' @ show_int days @ '' day'' @ (if days = 1 then [] else ''s'') @ '', '' @ hms h m s @ nl
         else ''up '' @ hms h m s @ nl)"

section \<open>Devices\<close>

text \<open>
  The lookup keeps the capability of each kind of device once it was found: \<open>cached\<close> and the
  result are that variable, \<open>dev\<close> the registry, \<open>slot\<close> whether a slot is free.
\<close>

definition dev_lookup :: "(string \<Rightarrow> cap option) option \<Rightarrow> bool \<Rightarrow> string \<Rightarrow> cap option \<Rightarrow> cap option" where
  "dev_lookup dev slot name cached =
     (case cached of
        Some c \<Rightarrow> Some c
      | None \<Rightarrow> (case dev of None \<Rightarrow> None | Some query \<Rightarrow> if slot then query name else None))"

text \<open>\<open>read_temp\<close>: the return code, the temperature in hundredths of a degree, the flags.\<close>

definition cmd_temp :: "(int \<times> int \<times> u32) option \<Rightarrow> string" where
  "cmd_temp read_temp =
     (case read_temp of
        None \<Rightarrow> ''temp: sensor server unavailable'' @ nl
      | Some (r, temp_c100, flags) \<Rightarrow>
          if r \<noteq> 0 then ''temp: read failed ('' @ show_int r @ '')'' @ nl
          else let neg = temp_c100 < 0; abs_v = (if neg then - temp_c100 else temp_c100)
               in (if neg then ''-'' else []) @ show_int (abs_v div 100) @ ''.'' @
                  pad_left (CHR ''0'') 2 (show_int (abs_v mod 100)) @ '' '' @ [CHR 0xC2, CHR 0xB0] @ ''C'' @
                  (if flags AND 1 \<noteq> 0 then '' (sim)'' else []) @ nl)"

text \<open>The digits behind the point: \<open>k\<close> of three are still to come.\<close>

fun fm_frac :: "string \<Rightarrow> nat \<Rightarrow> u32 \<Rightarrow> u32" where
  "fm_frac p 0 frac = frac"
| "fm_frac [] (Suc k) frac = fm_frac [] k (frac * 10)"
| "fm_frac (c # p) (Suc k) frac = fm_frac p k (frac * 10 + word_of_int (of_char c - 48))"

definition parse_fm_mhz :: "string \<Rightarrow> u32" where
  "parse_fm_mhz s =
     (case find_idx (\<lambda>c. c = CHR ''.'') s of
        None \<Rightarrow> word_of_int (atoi s) * 1000
      | Some i \<Rightarrow> word_of_int (atoi s) * 1000 + fm_frac (drop (i + 1) s) 3 0)"

definition radio_help :: string where
  "radio_help = ''Usage: radio <subcommand> [args]'' @ nl @
     ''  init               Initialize the tuner (run first)'' @ nl @
     ''  tune <MHz>         FM tune, e.g. 'radio tune 98.0'' @ [SQ] @ nl @
     ''  tune mw <kHz>      MW tune, e.g. 'radio tune mw 999'' @ [SQ] @ nl @
     ''  tune lw <kHz>      LW tune, e.g. 'radio tune lw 198'' @ [SQ] @ nl @
     ''  seek [up|down]     Seek next FM station'' @ nl @
     ''  status             Current frequency and signal level'' @ nl @
     ''  volume <0-255>     Set output level'' @ nl @
     ''  mute | unmute      Mute / unmute audio'' @ nl"

text \<open>The methods of the tuner server on its state: a return code and the values it fills in.\<close>

record 'r radio_svr =
  ra_init :: "'r \<Rightarrow> 'r \<times> int \<times> u32"
  ra_tune :: "u32 \<Rightarrow> u32 \<Rightarrow> 'r \<Rightarrow> 'r \<times> int \<times> u32"
  ra_seek :: "u32 \<Rightarrow> 'r \<Rightarrow> 'r \<times> int \<times> u32"
  ra_status :: "'r \<Rightarrow> 'r \<times> int \<times> u32 \<times> int"
  ra_volume :: "u32 \<Rightarrow> 'r \<Rightarrow> 'r \<times> int"
  ra_mute :: "u32 \<Rightarrow> 'r \<Rightarrow> 'r \<times> int"

definition dash :: string where "dash = [CHR 0xE2, CHR 0x80, CHR 0x94]"

definition not_initialized :: string where
  "not_initialized = ''radio: not initialized '' @ dash @ '' run 'radio init' first'' @ nl"

definition show_mhz :: "u32 \<Rightarrow> string" where
  "show_mhz khz = show_nat (unat khz div 1000) @ ''.'' @ show_nat (unat khz mod 1000 div 100) @ '' MHz''"

text \<open>The band and the frequency of \<^verbatim>\<open>radio tune\<close>, or the usage message.\<close>

definition tune_args :: "string list \<Rightarrow> string + (u32 \<times> u32)" where
  "tune_args argv =
     (if length argv < 3 then Inl (''Usage: radio tune <MHz> | radio tune mw <kHz> | radio tune lw <kHz>'' @ nl)
      else if argv ! 2 = ''mw'' \<or> argv ! 2 = ''MW''
      then if length argv < 4 then Inl (''Usage: radio tune mw <kHz>'' @ nl) else Inr (1, word_of_int (atoi (argv ! 3)))
      else if argv ! 2 = ''lw'' \<or> argv ! 2 = ''LW''
      then if length argv < 4 then Inl (''Usage: radio tune lw <kHz>'' @ nl) else Inr (2, word_of_int (atoi (argv ! 3)))
      else Inr (0, parse_fm_mhz (argv ! 2)))"

definition radio_tune :: "'r radio_svr \<Rightarrow> string list \<Rightarrow> 'r \<Rightarrow> 'r \<times> string" where
  "radio_tune R argv s =
     (case tune_args argv of
        Inl usage \<Rightarrow> (s, usage)
      | Inr (band, freq) \<Rightarrow>
          (case ra_tune R band freq s of (s', r, actual) \<Rightarrow>
             (s', if r \<noteq> 0 then (if r = err EINVAL then not_initialized else ''radio: tune failed ('' @ show_int r @ '')'' @ nl)
                  else if band = 0 then ''radio: tuned to '' @ show_mhz actual @ nl
                  else ''radio: tuned to '' @ show_nat (unat freq) @ '' kHz'' @ nl)))"

definition radio_seek :: "'r radio_svr \<Rightarrow> string list \<Rightarrow> 'r \<Rightarrow> 'r \<times> string" where
  "radio_seek R argv s =
     (let dir = (if length argv \<ge> 3 \<and> argv ! 2 = ''down'' then 1 else 0)
      in case ra_seek R dir s of (s', r, found) \<Rightarrow>
           (s', ''radio: seeking '' @ (if dir \<noteq> 0 then ''down'' else ''up'') @ ''...'' @ nl @
                (if r = 0 then ''radio: found '' @ show_mhz found @ nl
                 else if r = err EINVAL then not_initialized
                 else if r = err ENOENT then ''radio: no station found'' @ nl
                 else ''radio: seek error ('' @ show_int r @ '')'' @ nl)))"

definition radio_status :: "'r radio_svr \<Rightarrow> 'r \<Rightarrow> 'r \<times> string" where
  "radio_status R s =
     (case ra_status R s of (s', r, freq, rssi) \<Rightarrow>
        (s', if r \<noteq> 0 then (if r = err EINVAL then not_initialized else ''radio: status error ('' @ show_int r @ '')'' @ nl)
             else let ra = (if rssi < 0 then - rssi else rssi)
                  in ''radio: '' @ show_mhz freq @ ''   RSSI '' @ show_int (tdiv rssi 10) @ ''.'' @ show_int (ra mod 10) @ '' dBuV'' @ nl))"

definition radio_volume :: "'r radio_svr \<Rightarrow> string list \<Rightarrow> 'r \<Rightarrow> 'r \<times> string" where
  "radio_volume R argv s =
     (if length argv < 3 then (s, ''Usage: radio volume <0-255>'' @ nl)
      else let v = atoi (argv ! 2)
           in if v < 0 \<or> v > 255 then (s, ''radio: volume must be 0-255'' @ nl)
              else case ra_volume R (word_of_int v) s of (s', r) \<Rightarrow>
                     (s', if r \<noteq> 0 then ''radio: volume set failed ('' @ show_int r @ '')'' @ nl
                          else ''radio: volume set to '' @ show_int v @ nl))"

definition cmd_radio :: "'r radio_svr option \<Rightarrow> string list \<Rightarrow> 'r \<Rightarrow> 'r \<times> string" where
  "cmd_radio cap argv s =
     (if length argv < 2 \<or> argv ! 1 = ''help'' then (s, radio_help)
      else case cap of
             None \<Rightarrow> (s, ''radio: tuner server unavailable'' @ nl)
           | Some R \<Rightarrow>
               if argv ! 1 = ''init''
               then (case ra_init R s of (s', r, flags) \<Rightarrow>
                       (s', if r \<noteq> 0 then ''radio: init failed ('' @ show_int r @ '')'' @ nl
                            else ''radio: TEF6686HN initialized'' @ (if flags AND 1 \<noteq> 0 then '' (sim)'' else []) @ nl))
               else if argv ! 1 = ''tune'' then radio_tune R argv s
               else if argv ! 1 = ''seek'' then radio_seek R argv s
               else if argv ! 1 = ''status'' then radio_status R s
               else if argv ! 1 = ''volume'' then radio_volume R argv s
               else if argv ! 1 = ''mute'' \<or> argv ! 1 = ''unmute''
               then (let on = (if argv ! 1 = ''mute'' then 1 else 0)
                     in case ra_mute R on s of (s', r) \<Rightarrow>
                          (s', ''radio: '' @
                               (if r \<noteq> 0 then (if on \<noteq> 0 then ''mute'' else ''unmute'') @ '' failed ('' @ show_int r @ '')''
                                else (if on \<noteq> 0 then ''muted'' else ''unmuted'')) @ nl))
               else (s, ''radio: unknown subcommand '' @ [SQ] @ argv ! 1 @ [SQ] @ '' '' @ dash @ '' try 'radio help'' @ [SQ] @ nl))"

section \<open>The log viewer\<close>

text \<open>The options: an early end with a message and the log as it is then, or the settings.\<close>

definition KLOG_DEBUG :: int where "KLOG_DEBUG = 7"

definition KLOG_FILE_PATH :: string where "KLOG_FILE_PATH = ''/ext4/syslog.txt''"

definition dmesg_usage :: string where
  "dmesg_usage = ''Usage: dmesg [-c] [-l LEVEL] [-n LEVEL] [--save]'' @ nl @
     ''  (no args)  show ring buffer (all levels)'' @ nl @
     ''  -l N       show entries at level <= N  (0=EMERG .. 7=DEBUG)'' @ nl @
     ''  -n N       set console output level (suppresses lower-priority prints)'' @ nl @
     ''  -c         clear ring buffer after printing'' @ nl @
     ''  --save     flush ring buffer to '' @ KLOG_FILE_PATH @ nl @
     ''Levels: 0 EMERG  1 ALERT  2 CRIT  3 ERR  4 WARN  5 NOTE  6 INFO  7 DEBUG'' @ nl"

record dmesg_opts =
  do_level :: int
  do_clear :: bool
  do_save :: bool

fun dmesg_args :: "string list \<Rightarrow> dmesg_opts \<Rightarrow> klog \<Rightarrow> (klog \<times> string) + dmesg_opts" where
  "dmesg_args [] d k = Inr d"
| "dmesg_args (a # as) d k =
     (if a = ''-c'' then dmesg_args as (d\<lparr>do_clear := True\<rparr>) k
      else if (a = ''-l'' \<or> a = ''-n'') \<and> as \<noteq> []
      then let n = atoi (hd as)
           in if a = ''-n''
              then Inl (klog_set_console_level n k, ''console log level set to '' @ show_int n @ nl)
              else dmesg_args (tl as) (d\<lparr>do_level := n\<rparr>) k
      else if a = ''--save'' \<or> a = ''-s'' then dmesg_args as (d\<lparr>do_save := True\<rparr>) k
      else if a = ''--help'' \<or> a = ''-h'' then Inl (k, dmesg_usage)
      else Inl (k, ''dmesg: unknown option '' @ [SQ] @ a @ [SQ] @ '' (try --help)'' @ nl))"

definition cmd_dmesg :: "shell_env \<Rightarrow> string list \<Rightarrow> shell \<Rightarrow> shell \<times> string" where
  "cmd_dmesg E argv s =
     (case dmesg_args (tl argv) \<lparr>do_level = KLOG_DEBUG, do_clear = False, do_save = False\<rparr> (sh_klog s) of
        Inl (k, out) \<Rightarrow> (s\<lparr>sh_klog := k\<rparr>, out)
      | Inr d \<Rightarrow>
          let k1 = (if do_save d then klog_flush (se_log_opens E) id (sh_klog s) else klog_dump (do_level d) (sh_klog s));
              out1 = (if do_save d
                      then ''log saved '' @ [CHR 0xE2, CHR 0x86, CHR 0x92] @ '' '' @ KLOG_FILE_PATH @ ''  ('' @
                           show_nat (klog_count k1) @ '' entries)'' @ nl
                      else [])
          in if do_clear d then (s\<lparr>sh_klog := klog_clear k1\<rparr>, out1 @ ''ring buffer cleared'' @ nl)
             else (s\<lparr>sh_klog := k1\<rparr>, out1))"

section \<open>Sampling for the process monitor\<close>

record top_entry =
  to_handle :: u32
  to_state :: u32
  to_cpu_us :: u64
  to_prev_us :: u64
  to_name :: string

text \<open>\<open>stat\<close> is the answer of the loader for a slot.\<close>

definition MAX_SLOTS :: nat where "MAX_SLOTS = 32"

definition sample_slot :: "shell \<Rightarrow> top_entry list \<Rightarrow> errno + (u64 \<times> u32 \<times> u32) \<Rightarrow> top_entry list" where
  "sample_slot s old r =
     (case r of
        Inl _ \<Rightarrow> []
      | Inr (cpu, st, h) \<Rightarrow>
          [\<lparr>to_handle = h, to_state = st, to_cpu_us = cpu,
            to_prev_us = (case find_idx (\<lambda>e. to_handle e = h) old of None \<Rightarrow> 0 | Some j \<Rightarrow> to_prev_us (old ! j)),
            to_name = (case task_name_by_handle h 64 s of Some n \<Rightarrow> n | None \<Rightarrow> snprintf_buf 64 (''['' @ show_nat (unat h) @ '']''))\<rparr>])"

definition top_sample :: "shell \<Rightarrow> (u32 \<Rightarrow> errno + (u64 \<times> u32 \<times> u32)) \<Rightarrow> top_entry list \<Rightarrow> top_entry list" where
  "top_sample s stat entries =
     (let old = map (\<lambda>e. e\<lparr>to_prev_us := to_cpu_us e\<rparr>) entries
      in concat (map (\<lambda>slot. sample_slot s old (stat (of_nat slot))) [0..<MAX_SLOTS]))"

section \<open>The calendar\<close>

text \<open>The seconds from the start of 1970 to a date and time.\<close>

definition unix_time :: "nat \<Rightarrow> nat \<Rightarrow> nat \<Rightarrow> nat \<Rightarrow> nat \<Rightarrow> nat \<Rightarrow> nat" where
  "unix_time y mo d h mi s =
     86400 * (days_before_year (y - 1970) + days_before_month y mo + (d - 1)) + 3600 * h + 60 * mi + s"

definition valid_date :: "nat \<Rightarrow> nat \<Rightarrow> nat \<Rightarrow> nat \<Rightarrow> nat \<Rightarrow> nat \<Rightarrow> bool" where
  "valid_date y mo d h mi s \<longleftrightarrow> 1970 \<le> y \<and> y \<le> 9999 \<and> 1 \<le> mo \<and> mo \<le> 12 \<and> 1 \<le> d \<and> d \<le> month_len y mo \<and> h < 24 \<and> mi < 60 \<and> s < 60"

lemma is_leap_iff: "is_leap (int y) \<longleftrightarrow> leap_year y"
proof -
  have "int y mod k = 0 \<longleftrightarrow> nat k dvd y" if "k > 0" for k
    using that by (metis dvd_eq_mod_eq_0 int_dvd_int_iff int_nat_eq less_imp_le)
  then show ?thesis by (simp add: is_leap_def leap_year_def)
qed

lemma month_offset:
  assumes "1 \<le> m" and "m \<le> 12"
  shows "mdays ! (m - 1) + (if 2 < m \<and> leap_year y then 1 else 0) = int (days_before_month y m)"
proof -
  have "m = 1 \<or> m = 2 \<or> m = 3 \<or> m = 4 \<or> m = 5 \<or> m = 6 \<or> m = 7 \<or> m = 8 \<or> m = 9 \<or> m = 10 \<or> m = 11 \<or> m = 12"
    using assms by presburger
  then show ?thesis
    by (elim disjE; simp add: mdays_def days_before_month_def month_len_def upt_rec)
qed

definition leaps :: "nat \<Rightarrow> nat" where
  "leaps n = (n + 1) div 4 - (n + 1) div 100 + (n + 1) div 400"

lemma leaps_int: "int (leaps n) = tdiv (int n + 1) 4 - tdiv (int n + 1) 100 + tdiv (int n + 1) 400"
proof -
  have "(n + 1) div 100 \<le> (n + 1) div 4" by (intro div_le_mono2) auto
  then have "int (leaps n) = int ((n + 1) div 4) - int ((n + 1) div 100) + int ((n + 1) div 400)" by (simp add: leaps_def)
  then show ?thesis by (simp add: tdiv_def zdiv_int add.commute)
qed

lemma leap_year_near: "n < 98 \<Longrightarrow> leap_year (1970 + n) \<longleftrightarrow> (n + 2) mod 4 = 0"
proof -
  assume n: "n < 98"
  have "400 dvd 1970 + n" if "100 dvd 1970 + n"
  proof -
    from that obtain k where k: "1970 + n = 100 * k" by auto
    with n have "k = 20" by linarith
    with k show ?thesis by simp
  qed
  moreover have "4 dvd 1970 + n \<longleftrightarrow> (n + 2) mod 4 = 0" by presburger
  ultimately show ?thesis by (auto simp: leap_year_def)
qed

lemma year_offset: "n < 99 \<Longrightarrow> n * 365 + leaps n = days_before_year n"
proof (induction n)
  case (Suc n)
  have "(n + 2) div 4 = (n + 1) div 4 + (if (n + 2) mod 4 = 0 then 1 else 0)" by presburger
  then have "leaps (Suc n) = leaps n + (if (n + 2) mod 4 = 0 then 1 else 0)" using Suc.prems by (simp add: leaps_def)
  then show ?case using Suc leap_year_near[of n] by simp
qed (simp add: leaps_def)

lemma utc_mktime_correct:
  assumes "valid_date y mo d h mi s"
  shows "utc_mktime (int y) (int mo) (int d) (int h) (int mi) (int s) =
    (if unix_time y mo d h mi s < 2 ^ 31 then Ret (int (unix_time y mo d h mi s)) else Fault)"
proof -
  define n where "n = y - 1970"
  have y: "y = 1970 + n" "n \<le> 8029" using assms by (auto simp: valid_date_def n_def)
  define D where "D = n * 365 + leaps n + days_before_month y mo + (d - 1)"
  have mo: "nat (int mo - 1) = mo - 1" "1 \<le> mo" "mo \<le> 12" "1 \<le> d" "d \<le> 31" "h < 24" "mi < 60" "s < 60"
    using assms by (auto simp: valid_date_def month_len_def split: if_splits)
  have "mdays ! (mo - 1) + (if int mo > 2 \<and> is_leap (int y) then 1 else 0) = int (days_before_month y mo)"
    using month_offset[of mo y] mo is_leap_iff[of y] by simp
  then have D: "int n * 365 + (tdiv (int n + 1) 4 - tdiv (int n + 1) 100 + tdiv (int n + 1) 400) + mdays ! nat (int mo - 1) +
      (if int mo > 2 \<and> is_leap (int y) then 1 else 0) + int d - 1 = int D"
    using mo leaps_int[of n] by (simp add: D_def)
  have "leaps n \<le> 3000" using y(2) by (simp add: leaps_def)
  moreover have "days_before_month y mo \<le> 366"
  proof -
    have "mdays ! (mo - 1) \<in> set mdays" using mo by (intro nth_mem) (auto simp: mdays_def)
    then have "mdays ! (mo - 1) \<le> 334" by (auto simp: mdays_def)
    then show ?thesis using month_offset[OF mo(2,3), of y] by (simp split: if_splits)
  qed
  ultimately have small: "D < 2 ^ 31" using mo y(2) by (simp add: D_def)
  have e: "utc_mktime (int y) (int mo) (int d) (int h) (int mi) (int s) =
      obind (chk32 (int D * 86400)) (\<lambda>secs. chk32 (secs + int h * 3600 + int mi * 60 + int s))"
    using y small D by (simp add: utc_mktime_def chk32_def Let_def)
  also have "\<dots> = (if 86400 * D + 3600 * h + 60 * mi + s < 2 ^ 31 then Ret (int (86400 * D + 3600 * h + 60 * mi + s)) else Fault)"
    by (simp add: chk32_def)
  finally have c: "utc_mktime (int y) (int mo) (int d) (int h) (int mi) (int s) =
      (if 86400 * D + 3600 * h + 60 * mi + s < 2 ^ 31 then Ret (int (86400 * D + 3600 * h + 60 * mi + s)) else Fault)" .
  show ?thesis
  proof (cases "n < 99")
    case True
    then have "unix_time y mo d h mi s = 86400 * D + 3600 * h + 60 * mi + s"
      using year_offset[OF True] by (simp add: unix_time_def D_def y)
    then show ?thesis using c by simp
  next
    case False
    then have "2 ^ 31 \<le> 86400 * D" "2 ^ 31 \<le> unix_time y mo d h mi s"
      using days_before_year_ge[of n] by (auto simp: D_def unix_time_def y)
    then show ?thesis using c by simp
  qed
qed

section \<open>Reading a date\<close>

definition two :: "nat \<Rightarrow> string" where
  "two n = pad_left (CHR ''0'') 2 (show_nat n)"

definition date_text :: "nat \<Rightarrow> nat \<Rightarrow> nat \<Rightarrow> nat \<Rightarrow> nat \<Rightarrow> nat \<Rightarrow> string" where
  "date_text y mo d h mi s = show_nat y @ ''-'' @ two mo @ ''-'' @ two d @ '' '' @ two h @ '':'' @ two mi @ '':'' @ two s"

lemma digit_not_space: "is_digit c \<Longrightarrow> \<not> is_space c \<and> c \<noteq> CHR ''-'' \<and> c \<noteq> CHR ''+''"
  by (auto simp: is_digit_def is_space_def)

lemma scan_d_digits:
  assumes "ds \<noteq> []" and "\<forall>c \<in> set ds. is_digit c" and "rest = [] \<or> \<not> is_digit (hd rest)" and "read_nat ds < 2 ^ 31"
  shows "scan_d (ds @ rest) = Some (int (read_nat ds), rest)"
proof -
  obtain c cs where ds: "ds = c # cs" using assms(1) by (cases ds) auto
  have c: "\<not> is_space c" "c \<noteq> CHR ''-''" "c \<noteq> CHR ''+''" using digit_not_space[of c] assms(2) ds by auto
  have "dropWhile is_space (ds @ rest) = ds @ rest" using c ds by simp
  moreover have "takeWhile is_digit (ds @ rest) = ds" using assms(2,3) by (cases rest) (auto simp: takeWhile_append)
  moreover have "hd (ds @ rest) = c" using ds by simp
  moreover have "min (int (read_nat ds)) (2 ^ 31 - 1) = int (read_nat ds)"
  proof -
    have "int (read_nat ds) < int (2 ^ 31)" using assms(4) by (simp only: of_nat_less_iff)
    then show ?thesis by simp
  qed
  ultimately show ?thesis using c assms(1) unfolding scan_d_def Let_def by simp
qed

lemma read_nat_zeros: "read_nat (replicate k (CHR ''0'') @ ds) = read_nat ds"
  by (induction k) (simp_all add: read_nat_def)

lemma scan_d_show: "n < 2 ^ 31 \<Longrightarrow> rest = [] \<or> \<not> is_digit (hd rest) \<Longrightarrow> scan_d (show_nat n @ rest) = Some (int n, rest)"
  using scan_d_digits[of "show_nat n" rest] show_nat_digits[of _ n] by (simp del: append_eq_append_conv)

lemma scan_d_two:
  assumes "n < 100" and "rest = [] \<or> \<not> is_digit (hd rest)"
  shows "scan_d (two n @ rest) = Some (int n, rest)" "scan_d (dropWhile is_space (two n @ rest)) = Some (int n, rest)"
proof -
  have d: "\<forall>c \<in> set (two n). is_digit c"
    using show_nat_digits[of _ n] by (auto simp: two_def pad_left_def is_digit_def)
  have v: "read_nat (two n) = n" by (simp add: two_def pad_left_def read_nat_zeros)
  have ne: "two n \<noteq> []" by (simp add: two_def pad_left_def)
  show a: "scan_d (two n @ rest) = Some (int n, rest)"
    using scan_d_digits[OF ne d assms(2)] assms(1) by (simp add: v)
  have "dropWhile is_space (two n @ rest) = two n @ rest"
    using d ne digit_not_space by (cases "two n") auto
  then show "scan_d (dropWhile is_space (two n @ rest)) = Some (int n, rest)" using a by simp
qed

lemma scan_date_text:
  assumes "y \<le> 9999" "mo < 100" "d < 100" "h < 100" "mi < 100" "s < 100"
  shows "scan_date (date_text y mo d h mi s) = Some (int y, int mo, int d, int h, int mi, int s)"
proof -
  have nd: "\<not> is_digit (CHR ''-'')" "\<not> is_digit (CHR '' '')" "\<not> is_digit (CHR '':'')" by (simp_all add: is_digit_def)
  have sp: "is_space (CHR '' '')" by (simp add: is_space_def)
  have e: "scan_d (two s) = Some (int s, [])" using scan_d_two(1)[of s "[]"] assms by simp
  have "y < 2 ^ 31" using assms(1) by simp
  then show ?thesis
    using assms nd unfolding scan_date_def date_text_def
    by (simp add: scan_d_show scan_d_two scan_c_def sp e)
qed

section \<open>Properties\<close>

lemma cmd_date_text:
  assumes "valid_date y mo d h mi s" and "de_rtc D = Some set_offset"
  shows "cmd_date D [''date'', ''-s'', date_text y mo d h mi s] =
      obind (utc_mktime (int y) (int mo) (int d) (int h) (int mi) (int s)) (\<lambda>t.
        let off = new_offset t (de_mono D)
        in if \<not> set_offset off then Ret (Some off, ''Date set to: '' @ de_strftime D t @ nl)
           else Ret (Some off, ''date: failed to set RTC time'' @ nl))"
proof -
  have b: "y \<le> 9999" "1 \<le> mo" "mo \<le> 12" "1 \<le> d" "d \<le> 31" "h < 24" "mi < 60" "s < 60"
    using assms(1) by (auto simp: valid_date_def month_len_def split: if_splits)
  have "scan_date (date_text y mo d h mi s) = Some (int y, int mo, int d, int h, int mi, int s)"
    using b by (intro scan_date_text) auto
  then show ?thesis using b assms(2) by (simp add: cmd_date_def date_set_def)
qed

text \<open>
  C29: setting the clock from the command line is right exactly until the 32-bit time runs out:
  for every date and time of the calendar from 1970 on, written as the usage message says, the
  command sends the offset that makes the real time clock show that many seconds since 1970,
  leap years included, if this number fits 31 bits; from 2038-01-19 03:14:08 on the computation
  overflows.
\<close>

theorem date_sets_clock:
  assumes "valid_date y mo d h mi s" and "de_rtc D = Some set_offset"
  shows "if unix_time y mo d h mi s < 2 ^ 31
    then \<exists>off. off + (of_nat (fst (de_mono D)) * 1000000000 + of_nat (snd (de_mono D))) = of_nat (unix_time y mo d h mi s * 1000000000) \<and>
      cmd_date D [''date'', ''-s'', date_text y mo d h mi s] =
        Ret (Some off, if set_offset off then ''date: failed to set RTC time'' @ nl
                       else ''Date set to: '' @ de_strftime D (int (unix_time y mo d h mi s)) @ nl)
    else cmd_date D [''date'', ''-s'', date_text y mo d h mi s] = Fault"
  unfolding cmd_date_text[OF assms] utc_mktime_correct[OF assms(1)] by (auto simp: new_offset_def Let_def)

theorem date_sets_clock_witness:
  "\<exists>off D. cmd_date D [''date'', ''-s'', date_text 2000 3 1 0 0 0] = Ret (Some off, ''Date set to: '' @ nl)"
proof -
  define D where "D = \<lparr>de_mono = (5, 0), de_real = 0, de_rtc = Some (\<lambda>_. False), de_strftime = (\<lambda>_. [])\<rparr>"
  have "valid_date 2000 3 1 0 0 0" by (simp add: valid_date_def month_len_def)
  moreover have "unix_time 2000 3 1 0 0 0 < 2 ^ 31"
    using year_offset[of 30] by (simp add: unix_time_def days_before_month_def month_len_def upt_rec leaps_def)
  ultimately show ?thesis
    using date_sets_clock[of 2000 3 1 0 0 0 D "\<lambda>_. False"] by (fastforce simp: D_def)
qed

end
