(* ===== verification/Shell_Main.thy ===== *)
theory Shell_Main
  imports Shell_Files Shell_Sys
begin

text \<open>
  The main loop of the shell, \<^verbatim>\<open>pkg/native_shell/server/src/main.cc\<close>: one line is parsed, the
  background mark and redirections are taken off, standard output is redirected, the builtin or
  the program is run, and standard output is put back. The file descriptors are a table in which
  \<^verbatim>\<open>dup\<close> and \<^verbatim>\<open>open\<close> take the lowest free entry. The full-screen drawing of \<^verbatim>\<open>top\<close> is not
  modelled: the command only ends.
\<close>

section \<open>Builtins\<close>

text \<open>What the system and the devices answer while one line is executed.\<close>

record ('fs, 'r) sys =
  sy_env :: shell_env
  sy_date :: date_env
  sy_history :: "string list option"
  sy_environ :: "string list option"
  sy_getcwd :: "string + string"
  sy_cwd_768 :: "string option"
  sy_chdir :: "string \<Rightarrow> 'fs \<Rightarrow> 'fs \<times> string option"
  sy_opendir :: "string \<Rightarrow> string + (string \<times> dtype) list"
  sy_mallocs :: nat
  sy_fopen :: "string \<Rightarrow> string + string"
  sy_intr :: "nat \<Rightarrow> bool"
  sy_ext_mkdir :: "(string \<Rightarrow> 'fs \<Rightarrow> 'fs \<times> int) option"
  sy_ext_unlink :: "(string \<Rightarrow> 'fs \<Rightarrow> 'fs \<times> int) option"
  sy_libc :: "'fs libc"
  sy_temp :: "(int \<times> int \<times> u32) option"
  sy_radio :: "'r radio_svr option"
  sy_open_ok :: "string \<Rightarrow> bool \<Rightarrow> bool"
  sy_interrupted :: bool

text \<open>The state the commands change.\<close>

record ('fs, 'r) world =
  wo_shell :: shell
  wo_fs :: 'fs
  wo_radio :: 'r
  wo_rtc :: "u64 list"

type_synonym ('fs, 'r) cmd_result = "(('fs, 'r) world \<times> string) outcome"

definition prints :: "string \<Rightarrow> ('fs, 'r) world \<Rightarrow> ('fs, 'r) cmd_result" where
  "prints out w = Ret (w, out)"

definition on_shell :: "shell \<times> string \<Rightarrow> ('fs, 'r) world \<Rightarrow> ('fs, 'r) cmd_result" where
  "on_shell r w = Ret (w\<lparr>wo_shell := fst r\<rparr>, snd r)"

definition on_fs :: "'fs \<times> string \<Rightarrow> ('fs, 'r) world \<Rightarrow> ('fs, 'r) cmd_result" where
  "on_fs r w = Ret (w\<lparr>wo_fs := fst r\<rparr>, snd r)"

definition cmd_exit :: "shell \<Rightarrow> shell \<times> string" where
  "cmd_exit s = (s\<lparr>sh_exited := True\<rparr>, ''Goodbye.'' @ nl)"

definition cmd_top :: "shell_env \<Rightarrow> string" where
  "cmd_top E = (if \<not> se_spawnd_cap E then ''top: spawnd not available'' @ nl else [])"

definition date_result :: "(u64 option \<times> string) outcome \<Rightarrow> ('fs, 'r) world \<Rightarrow> ('fs, 'r) cmd_result" where
  "date_result r w =
     obind r (\<lambda>(off, out). Ret (w\<lparr>wo_rtc := wo_rtc w @ (case off of None \<Rightarrow> [] | Some v \<Rightarrow> [v])\<rparr>, out))"

text \<open>The functions of the command table, in its order.\<close>

definition builtins :: "('fs, 'r) sys \<Rightarrow> string list \<Rightarrow> ('fs, 'r) world \<Rightarrow> (string \<times> ('fs, 'r) cmd_result) list" where
  "builtins Y argv w =
    [(''help'', prints cmd_help w),
     (''echo'', prints (cmd_echo argv) w),
     (''info'', prints cmd_info w),
     (''clear'', prints cmd_clear w),
     (''history'', prints (cmd_history (sy_history Y)) w),
     (''exit'', on_shell (cmd_exit (wo_shell w)) w),
     (''pwd'', prints (cmd_pwd (sy_getcwd Y)) w),
     (''cd'', on_fs (cmd_cd (sy_chdir Y) argv (wo_fs w)) w),
     (''ls'', prints (cmd_ls (sy_opendir Y) (sy_mallocs Y) argv) w),
     (''cat'', prints (cmd_cat (sy_fopen Y) (sy_intr Y) argv) w),
     (''mkdir'', on_fs (cmd_mkdir (sy_ext_mkdir Y) (sy_cwd_768 Y) argv (wo_fs w)) w),
     (''rm'', on_fs (cmd_rm (sy_ext_unlink Y) (sy_cwd_768 Y) argv (wo_fs w)) w),
     (''tmpfstest'', on_fs (cmd_tmpfstest (sy_libc Y) (wo_fs w)) w),
     (''uname'', prints cmd_uname w),
     (''env'', prints (cmd_env (sy_environ Y)) w),
     (''date'', date_result (cmd_date (sy_date Y) argv) w),
     (''uptime'', prints (cmd_uptime (sy_date Y)) w),
     (''list_tasks'', on_shell (cmd_list_tasks (wo_shell w)) w),
     (''top'', prints (cmd_top (sy_env Y)) w),
     (''dmesg'', on_shell (cmd_dmesg (sy_env Y) argv (wo_shell w)) w),
     (''run'', obind (cmd_run (sy_env Y) argv (wo_shell w)) (\<lambda>r. on_shell r w)),
     (''wait'', obind (cmd_wait (sy_env Y) argv (wo_shell w)) (\<lambda>r. on_shell r w)),
     (''kill'', on_shell (cmd_kill (sy_env Y) argv (wo_shell w)) w),
     (''temp'', prints (cmd_temp (sy_temp Y)) w),
     (''radio'', (case cmd_radio (sy_radio Y) argv (wo_radio w) of (r, out) \<Rightarrow> Ret (w\<lparr>wo_radio := r\<rparr>, out)))]"

text \<open>A builtin, a program of that name, or the message that there is none.\<close>

definition dispatch :: "('fs, 'r) sys \<Rightarrow> string list \<Rightarrow> ('fs, 'r) world \<Rightarrow> ('fs, 'r) cmd_result" where
  "dispatch Y argv w =
     (case argv of
        [] \<Rightarrow> Fault
      | a # _ \<Rightarrow>
          (case map_of (builtins Y argv w) a of
             Some r \<Rightarrow> r
           | None \<Rightarrow>
               obind (shell_try_exec (sy_env Y) argv (wo_shell w)) (\<lambda>(s, out, found).
                 if found then Ret (w\<lparr>wo_shell := s\<rparr>, out)
                 else Ret (w\<lparr>wo_shell := log_warn (sy_env Y) (''command not found: '' @ a) s\<rparr>,
                           out @ a @ '': command not found'' @ nl))))"

section \<open>File descriptors\<close>

datatype fd_file = Console | File_of string bool

type_synonym fds = "fd_file option list"

definition fd_new :: "fd_file \<Rightarrow> fds \<Rightarrow> fds \<times> int" where
  "fd_new f T = (case find_idx (\<lambda>x. x = None) T of None \<Rightarrow> (T, - 1) | Some i \<Rightarrow> (T[i := Some f], int i))"

definition STDOUT_FILENO :: nat where "STDOUT_FILENO = 1"

definition fd_dup :: "nat \<Rightarrow> fds \<Rightarrow> fds \<times> int" where
  "fd_dup i T = (case T ! i of None \<Rightarrow> (T, - 1) | Some f \<Rightarrow> fd_new f T)"

definition fd_dup2 :: "int \<Rightarrow> nat \<Rightarrow> fds \<Rightarrow> fds" where
  "fd_dup2 i j T = T[j := T ! nat i]"

definition fd_close :: "int \<Rightarrow> fds \<Rightarrow> fds" where
  "fd_close i T = T[nat i := None]"

section \<open>One line\<close>

record ('fs, 'r) main_state =
  mn_world :: "('fs, 'r) world"
  mn_fds :: fds
  mn_output :: "(fd_file \<times> string) list"

text \<open>Text printed to standard output goes where its descriptor points.\<close>

definition emit_out :: "string \<Rightarrow> ('fs, 'r) main_state \<Rightarrow> ('fs, 'r) main_state" where
  "emit_out out m =
     (case mn_fds m ! STDOUT_FILENO of
        None \<Rightarrow> m
      | Some f \<Rightarrow> if out = [] then m else m\<lparr>mn_output := mn_output m @ [(f, out)]\<rparr>)"

text \<open>
  The state after opening the target, with \<^verbatim>\<open>redir_path\<close> (as a truth value), \<^verbatim>\<open>saved_stdout\<close>
  and \<^verbatim>\<open>redir_fd\<close>.
\<close>

definition redirect ::
  "('fs, 'r) sys \<Rightarrow> stripped \<Rightarrow> ('fs, 'r) main_state \<Rightarrow> ('fs, 'r) main_state \<times> bool \<times> int \<times> int" where
  "redirect Y l m =
     (case st_redir_path l of
        None \<Rightarrow> (m, False, - 1, - 1)
      | Some path \<Rightarrow>
          (let (T1, saved) = fd_dup STDOUT_FILENO (mn_fds m);
               (T2, fd) = (if sy_open_ok Y path (st_redir_append l) then fd_new (File_of path (st_redir_append l)) T1 else (T1, - 1))
           in if fd < 0
              then (emit_out (''shell: cannot open '' @ [SQ] @ path @ [SQ] @ '' for writing'' @ nl) (m\<lparr>mn_fds := T2\<rparr>), False, saved, fd)
              else (m\<lparr>mn_fds := fd_dup2 fd STDOUT_FILENO T2\<rparr>, True, saved, fd)))"

definition unredirect :: "bool \<Rightarrow> int \<Rightarrow> int \<Rightarrow> fds \<Rightarrow> fds" where
  "unredirect redir saved fd T =
     (let T1 = (if redir \<and> saved \<ge> 0 then fd_close saved (fd_dup2 saved STDOUT_FILENO T) else T)
      in if fd \<ge> 0 then fd_close fd T1 else T1)"

definition run_line :: "('fs, 'r) sys \<Rightarrow> string \<Rightarrow> ('fs, 'r) main_state \<Rightarrow> ('fs, 'r) main_state outcome" where
  "run_line Y line m =
     obind (parse_line line MAX_ARGS) (\<lambda>words.
       if words = [] then Ret m
       else
         let l = strip_ops words strip_init;
             w = mn_world m;
             m1 = m\<lparr>mn_world := w\<lparr>wo_shell := (wo_shell w)\<lparr>sh_run_background := st_background l\<rparr>\<rparr>\<rparr>;
             (m2, redir, saved, fd) = redirect Y l m1
         in obind (dispatch Y (st_argv l) (mn_world m2)) (\<lambda>(w', out).
              let m3 = emit_out out (m2\<lparr>mn_world := w'\<rparr>);
                  m4 = m3\<lparr>mn_fds := unredirect redir saved fd (mn_fds m3)\<rparr>
              in Ret (if sy_interrupted Y then emit_out nl m4 else m4)))"

text \<open>
  The loop: a line, an interrupt at the prompt, or the end of the input. It ends at the end of
  the input and when a command called \<^verbatim>\<open>exit\<close>; the flag tells whether the shell still runs.
\<close>

datatype prompt_ev = Line string | Interrupt | End_of_input

fun main_loop :: "(('fs, 'r) sys \<times> prompt_ev) list \<Rightarrow> ('fs, 'r) main_state \<Rightarrow> (('fs, 'r) main_state \<times> bool) outcome" where
  "main_loop [] m = Ret (m, True)"
| "main_loop ((Y, Interrupt) # evs) m = main_loop evs (emit_out nl m)"
| "main_loop ((Y, End_of_input) # evs) m = Ret (emit_out (nl @ ''Goodbye.'' @ nl) m, False)"
| "main_loop ((Y, Line line) # evs) m =
     obind (run_line Y line m) (\<lambda>m'. if sh_exited (wo_shell (mn_world m')) then Ret (m', False) else main_loop evs m')"

section \<open>Redirection undone\<close>

text \<open>A table with standard output at \<open>f\<close>, whose first two free entries are \<open>i\<close> and \<open>j\<close>.\<close>

definition two_free :: "fds \<Rightarrow> fd_file \<Rightarrow> nat \<Rightarrow> nat \<Rightarrow> bool" where
  "two_free T f i j \<longleftrightarrow> 1 < length T \<and> T ! 1 = Some f \<and> find_idx (\<lambda>x. x = None) T = Some i \<and>
     find_idx (\<lambda>x. x = None) (T[i := Some f]) = Some j"

lemma two_freeD:
  assumes "two_free T f i j"
  shows "i < length T" "j < length T" "T ! i = None" "T ! j = None" "i \<noteq> j" "i \<noteq> 1" "j \<noteq> 1"
proof -
  have a: "i < length T \<and> T ! i = None" using find_idx_SomeD[of "\<lambda>x. x = None" T i] assms by (simp add: two_free_def)
  have b: "j < length T \<and> T[i := Some f] ! j = None"
    using find_idx_SomeD[of "\<lambda>x. x = None" "T[i := Some f]" j] assms by (simp add: two_free_def)
  show "i < length T" "T ! i = None" "j < length T" using a b by simp_all
  show ij: "i \<noteq> j" using a b by auto
  show "T ! j = None" using b ij by simp
  then show "i \<noteq> 1" "j \<noteq> 1" using a assms by (auto simp: two_free_def)
qed

lemma redirect_undone:
  assumes "two_free T f i j"
  shows "unredirect True (int i) (int j) (fd_dup2 (int j) STDOUT_FILENO (T[i := Some f, j := Some g])) = T"
proof (rule nth_equalityI)
  note d = two_freeD[OF assms]
  show "length (unredirect True (int i) (int j) (fd_dup2 (int j) STDOUT_FILENO (T[i := Some f, j := Some g]))) = length T"
    by (simp add: unredirect_def fd_dup2_def fd_close_def)
  show "unredirect True (int i) (int j) (fd_dup2 (int j) STDOUT_FILENO (T[i := Some f, j := Some g])) ! k = T ! k"
    if "k < length (unredirect True (int i) (int j) (fd_dup2 (int j) STDOUT_FILENO (T[i := Some f, j := Some g])))" for k
    using that d assms
    by (auto simp: unredirect_def fd_dup2_def fd_close_def STDOUT_FILENO_def nth_list_update two_free_def)
qed

text \<open>Where the output of the command goes, what was said before, and the table afterwards.\<close>

definition line_target :: "('fs, 'r) sys \<Rightarrow> stripped \<Rightarrow> fd_file \<Rightarrow> fd_file" where
  "line_target Y l f =
     (case st_redir_path l of
        None \<Rightarrow> f
      | Some p \<Rightarrow> if sy_open_ok Y p (st_redir_append l) then File_of p (st_redir_append l) else f)"

definition line_notice :: "('fs, 'r) sys \<Rightarrow> stripped \<Rightarrow> fd_file \<Rightarrow> (fd_file \<times> string) list" where
  "line_notice Y l f =
     (case st_redir_path l of
        None \<Rightarrow> []
      | Some p \<Rightarrow> if sy_open_ok Y p (st_redir_append l) then []
                  else [(f, ''shell: cannot open '' @ [SQ] @ p @ [SQ] @ '' for writing'' @ nl)])"

definition line_fds :: "('fs, 'r) sys \<Rightarrow> stripped \<Rightarrow> fd_file \<Rightarrow> nat \<Rightarrow> fds \<Rightarrow> fds" where
  "line_fds Y l f i T =
     (case st_redir_path l of
        None \<Rightarrow> T
      | Some p \<Rightarrow> if sy_open_ok Y p (st_redir_append l) then T else T[i := Some f])"

definition said :: "fd_file \<Rightarrow> string \<Rightarrow> (fd_file \<times> string) list" where
  "said f out = (if out = [] then [] else [(f, out)])"

definition set_background :: "bool \<Rightarrow> ('fs, 'r) world \<Rightarrow> ('fs, 'r) world" where
  "set_background b w = w\<lparr>wo_shell := (wo_shell w)\<lparr>sh_run_background := b\<rparr>\<rparr>"

lemma emit_out_said: "mn_fds m ! 1 = Some f \<Longrightarrow> emit_out out m = m\<lparr>mn_output := mn_output m @ said f out\<rparr>"
  by (simp add: emit_out_def STDOUT_FILENO_def said_def)

lemma run_line_words:
  assumes "two_free (mn_fds m) f i j" and "parse_line line MAX_ARGS = Ret words" and "words \<noteq> []" and "\<not> sy_interrupted Y"
  defines "l \<equiv> strip_ops words strip_init"
  shows "run_line Y line m =
    obind (dispatch Y (st_argv l) (set_background (st_background l) (mn_world m))) (\<lambda>(w, out).
      Ret (m\<lparr>mn_world := w, mn_fds := line_fds Y l f i (mn_fds m),
             mn_output := mn_output m @ line_notice Y l f @ said (line_target Y l f) out\<rparr>))"
proof -
  let ?T = "mn_fds m" and ?m1 = "m\<lparr>mn_world := set_background (st_background l) (mn_world m)\<rparr>"
  note d = two_freeD[OF assms(1)]
  have T1: "?T ! 1 = Some f" using assms(1) by (simp add: two_free_def)
  have dup: "fd_dup STDOUT_FILENO ?T = (?T[i := Some f], int i)"
    using assms(1) by (simp add: fd_dup_def fd_new_def STDOUT_FILENO_def two_free_def)
  have run: "run_line Y line m = (case redirect Y l ?m1 of (m2, redir, saved, fd) \<Rightarrow>
      obind (dispatch Y (st_argv l) (mn_world m2)) (\<lambda>(w', out).
        let m3 = emit_out out (m2\<lparr>mn_world := w'\<rparr>) in Ret (m3\<lparr>mn_fds := unredirect redir saved fd (mn_fds m3)\<rparr>)))"
    using assms(2-4) by (simp add: run_line_def l_def[symmetric] set_background_def Let_def)
  consider (none) "st_redir_path l = None"
    | (ok) p where "st_redir_path l = Some p" "sy_open_ok Y p (st_redir_append l)"
    | (bad) p where "st_redir_path l = Some p" "\<not> sy_open_ok Y p (st_redir_append l)" by fastforce
  then show ?thesis
  proof cases
    case none
    have u: "unredirect False (- 1) (- 1) T = T" for T by (simp add: unredirect_def)
    show ?thesis
      unfolding run using none T1
      by (simp add: redirect_def emit_out_said[of _ f] u Let_def line_fds_def line_notice_def line_target_def)
  next
    case ok
    let ?g = "File_of p (st_redir_append l)"
    let ?T2 = "fd_dup2 (int j) STDOUT_FILENO (?T[i := Some f, j := Some ?g])"
    have new: "fd_new ?g (?T[i := Some f]) = (?T[i := Some f, j := Some ?g], int j)"
      using assms(1) by (simp add: fd_new_def two_free_def)
    have r: "redirect Y l ?m1 = (?m1\<lparr>mn_fds := ?T2\<rparr>, True, int i, int j)"
      using ok by (simp add: redirect_def dup new)
    have t2: "?T2 ! 1 = Some ?g" using d by (simp add: fd_dup2_def STDOUT_FILENO_def nth_list_update)
    show ?thesis
      unfolding run r using ok t2 redirect_undone[OF assms(1), of ?g]
      by (simp add: emit_out_said[of _ ?g] Let_def line_fds_def line_notice_def line_target_def)
  next
    case bad
    have t: "?T[i := Some f] ! 1 = Some f" using T1 d by simp
    have r: "redirect Y l ?m1 = (?m1\<lparr>mn_fds := ?T[i := Some f], mn_output := mn_output m @ line_notice Y l f\<rparr>, False, int i, - 1)"
      using bad t by (simp add: redirect_def dup emit_out_said[of _ f] line_notice_def said_def)
    have u: "unredirect False s (- 1) T = T" for s T by (simp add: unredirect_def)
    have sw: "m\<lparr>mn_world := w, mn_output := a, mn_fds := b\<rparr> = m\<lparr>mn_world := w, mn_fds := b, mn_output := a\<rparr>" for w a b by simp
    show ?thesis
      unfolding run r using bad t
      by (simp add: emit_out_said[of _ f] u sw Let_def line_fds_def line_target_def)
  qed
qed

section \<open>Properties\<close>



end
