(* ===== verification/Devmgr.thy ===== *)
theory Devmgr
  imports Shell_Jobs Procfs
begin

text \<open>
  The device manager, \<^verbatim>\<open>pkg/devmgr/server/main.cc\<close>: it asks a loader of its own, the instance
  \<^verbatim>\<open>drvd\<close> of the spawn server, to start the driver of every row of the device table
  \<^verbatim>\<open>g_device_table\<close>, the table procfs shows under \<^verbatim>\<open>/sys/devices\<close>.
\<close>

section \<open>Launching\<close>

text \<open>
  What happens inside the loader during one call: the reaper's rounds and the bytes that
  happen to be in the handler's stack buffer.
\<close>

record drv_call =
  dc_evs :: "reaper_ev list"
  dc_polls :: "reaper_ev list list"
  dc_junk :: string

text \<open>
  One turn of the loop: the message has 160 bytes for the path, its terminator and the
  terminator of the argument list.
\<close>

definition launch_driver :: "loader \<Rightarrow> drv_call \<Rightarrow> string \<Rightarrow> spawnd \<times> nat \<times> string \<Rightarrow> (spawnd \<times> nat \<times> string) outcome" where
  "launch_driver launch c path S =
     (case S of (d, launched, out) \<Rightarrow>
        if length path + 2 > 160 then Ret S
        else obind (op_spawn launch (dc_evs c) (dc_polls c) (dc_junk c) (path @ [NUL]) (path @ [NUL, NUL]) SPAWN_BG d)
          (\<lambda>(d', h). if h < 0
             then Ret (d', launched, out @ ''[devmgr] FAILED to launch '' @ path @ '' ('' @ show_int h @ '')'' @ nl)
             else Ret (d', launched + 1, out @ ''[devmgr] launching '' @ path @ '' (handle '' @ show_int h @ '')'' @ nl)))"

fun launch_all :: "loader \<Rightarrow> (nat \<Rightarrow> drv_call) \<Rightarrow> nat \<Rightarrow> dev_row list \<Rightarrow> spawnd \<times> nat \<times> string \<Rightarrow> (spawnd \<times> nat \<times> string) outcome" where
  "launch_all launch calls i [] S = Ret S"
| "launch_all launch calls i (r # rs) S =
     obind (launch_driver launch (calls i) (dr_driver r) S) (launch_all launch calls (Suc i) rs)"

text \<open>The three bytes of a dash in UTF-8.\<close>

definition dash :: string where
  "dash = [CHR 0xE2, CHR 0x80, CHR 0x94]"

text \<open>\<open>drvd\<close>: the loader behind the capability of that name, if there is one.\<close>

definition devmgr_main :: "loader \<Rightarrow> (nat \<Rightarrow> drv_call) \<Rightarrow> spawnd option \<Rightarrow> (spawnd option \<times> int \<times> string) outcome" where
  "devmgr_main launch calls drvd =
     (let start = ''[devmgr] starting'' @ nl
      in case drvd of
           None \<Rightarrow> Ret (None, 1, start @ ''[devmgr] ERROR: 'drvd' loader cap not found '' @ dash @ '' exiting'' @ nl)
         | Some d \<Rightarrow> obind (launch_all launch calls 0 g_device_table (d, 0, start)) (\<lambda>(d', launched, out).
             Ret (Some d', 0, out @ ''[devmgr] '' @ show_nat launched @ '' driver(s) launched'' @ nl)))"

section \<open>A sequence of launches\<close>

text \<open>The children once drivers with the given paths were started under consecutive handles.\<close>

fun started :: "(u32 \<Rightarrow> string \<Rightarrow> image) \<Rightarrow> (nat \<Rightarrow> drv_call) \<Rightarrow> nat \<Rightarrow> u32 \<Rightarrow> string list \<Rightarrow> (u32 \<Rightarrow> child_task option) \<Rightarrow> u32 \<Rightarrow> child_task option" where
  "started im calls i h [] L = L"
| "started im calls i h (p # ps) L =
     started im calls (Suc i) (h + 1) ps
       ((\<lambda>k. map_option (reaped (dc_evs (calls i))) (L k))(h \<mapsto> start_running (install_caps (im h p) (reaped (dc_evs (calls i)) (fresh_child h p)))))"

fun launch_lines :: "u32 \<Rightarrow> string list \<Rightarrow> string" where
  "launch_lines h [] = []"
| "launch_lines h (p # ps) = ''[devmgr] launching '' @ p @ '' (handle '' @ show_nat (unat h) @ '')'' @ nl @ launch_lines (h + 1) ps"

text \<open>A path the protocol can carry.\<close>

definition path_ok :: "string \<Rightarrow> bool" where
  "path_ok p \<longleftrightarrow> p \<noteq> [] \<and> NUL \<notin> set p \<and> length p \<le> 158"

lemma reaped_append: "reaped (as @ bs) = (\<lambda>t. reaped bs (reaped as t))"
  by (simp add: fun_eq_iff)

lemma free_slot:
  assumes "table_inv T" and "finite (dom (live T))" and "card (dom (live T)) < TASK_MAX"
  shows "\<exists>i < TASK_MAX. ct_state (tt_tasks T ! i) = FREE"
proof (rule ccontr)
  assume n: "\<not> ?thesis"
  let ?h = "\<lambda>i. ct_handle (tt_tasks T ! i)"
  have "is_live (tt_tasks T ! i)" if "i < TASK_MAX" for i
    using that n by (simp add: is_live_def)
  then have f: "tt_find T (?h i) = Some i" if "i < TASK_MAX" for i
    using that tt_find_iff[OF assms(1), of "?h i" i] by simp
  have "inj_on ?h {..<TASK_MAX}"
  proof (rule inj_onI)
    fix i j assume ij: "i \<in> {..<TASK_MAX}" "j \<in> {..<TASK_MAX}" and e: "?h i = ?h j"
    have "Some i = Some j" using f[of i] f[of j] ij unfolding e by simp
    then show "i = j" by simp
  qed
  moreover have "?h ` {..<TASK_MAX} \<subseteq> dom (live T)"
  proof
    fix k assume "k \<in> ?h ` {..<TASK_MAX}"
    then obtain i where "i < TASK_MAX" "k = ?h i" by blast
    then show "k \<in> dom (live T)" using f[of i] by (simp add: live_def domIff)
  qed
  ultimately have "card {..<TASK_MAX} \<le> card (dom (live T))" using assms(2) by (rule card_inj_on_le)
  then show False using assms(3) by simp
qed

lemma launch_driver_ok:
  assumes "table_inv (sd_table d)" "finite (dom (live (sd_table d)))" "card (dom (live (sd_table d))) < TASK_MAX"
    and "unat (tt_next_handle (sd_table d)) < 2 ^ 31" and "path_ok p"
    and "launch (request (tt_next_handle (sd_table d)) [p]) = Some im"
  defines "h \<equiv> tt_next_handle (sd_table d)"
  shows "\<exists>d'. launch_driver launch c p (d, n, out) = Ret (d', n + 1, out @ launch_lines h [p]) \<and>
    table_inv (sd_table d') \<and> tt_next_handle (sd_table d') = h + 1 \<and> sd_deleted d' = sd_deleted d \<and>
    live (sd_table d') = (\<lambda>k. map_option (reaped (dc_evs c)) (live (sd_table d) k))
      (h \<mapsto> start_running (install_caps im (reaped (dc_evs c) (fresh_child h p))))"
proof -
  have "handles_left (sd_table d)" using assms(4) by (simp add: handles_left_def)
  from op_spawn_bg[OF assms(1) this free_slot[OF assms(1-3)], of "[p]" launch im "dc_evs c" "dc_polls c" "dc_junk c"] assms(5,6)
    word_of_handle[OF assms(4)]
  show ?thesis
    by (auto simp: launch_driver_def path_ok_def packed_def h_def show_int_def)
qed

lemma launch_all_ok:
  assumes "table_inv (sd_table d)" "finite (dom (live (sd_table d)))" "card (dom (live (sd_table d))) + length rs \<le> TASK_MAX"
    and "unat (tt_next_handle (sd_table d)) + length rs \<le> 2 ^ 31"
    and "\<forall>r \<in> set rs. path_ok (dr_driver r) \<and> (\<forall>h. launch (request h [dr_driver r]) = Some (im h (dr_driver r)))"
  defines "h \<equiv> tt_next_handle (sd_table d)" and "ps \<equiv> map dr_driver rs"
  shows "\<exists>d'. launch_all launch calls i rs (d, n, out) = Ret (d', n + length rs, out @ launch_lines h ps) \<and>
    table_inv (sd_table d') \<and> sd_deleted d' = sd_deleted d \<and>
    live (sd_table d') = started im calls i h ps (live (sd_table d))"
  using assms(1-5) unfolding h_def ps_def
proof (induction rs arbitrary: d n out i)
  case Nil
  then show ?case by simp
next
  case (Cons r rs)
  let ?h = "tt_next_handle (sd_table d)" and ?p = "dr_driver r"
  have lt: "unat ?h < 2 ^ 31" "card (dom (live (sd_table d))) < TASK_MAX" using Cons.prems(3,4) by simp_all
  have r: "path_ok ?p" "launch (request ?h [?p]) = Some (im ?h ?p)" using Cons.prems(5) by simp_all
  obtain d1 where d1: "launch_driver launch (calls i) ?p (d, n, out) = Ret (d1, n + 1, out @ launch_lines ?h [?p])"
    "table_inv (sd_table d1)" "tt_next_handle (sd_table d1) = ?h + 1" "sd_deleted d1 = sd_deleted d"
    and l: "live (sd_table d1) = (\<lambda>k. map_option (reaped (dc_evs (calls i))) (live (sd_table d) k))
      (?h \<mapsto> start_running (install_caps (im ?h ?p) (reaped (dc_evs (calls i)) (fresh_child ?h ?p))))"
    using launch_driver_ok[OF Cons.prems(1,2) lt(2,1) r(1), of launch "im ?h ?p" "calls i" n out] r(2) by blast
  have dm: "dom (live (sd_table d1)) = insert ?h (dom (live (sd_table d)))" by (auto simp: l dom_def)
  have "card (dom (live (sd_table d1))) \<le> Suc (card (dom (live (sd_table d))))"
    using Cons.prems(2) by (simp add: dm card_insert_if)
  moreover have "unat (?h + 1) = unat ?h + 1" using lt(1) by (simp add: unat_word_ariths)
  ultimately obtain d' where "launch_all launch calls (Suc i) rs (d1, n + 1, out @ launch_lines ?h [?p]) =
      Ret (d', n + 1 + length rs, (out @ launch_lines ?h [?p]) @ launch_lines (?h + 1) (map dr_driver rs))"
    "table_inv (sd_table d')" "sd_deleted d' = sd_deleted d1"
    "live (sd_table d') = started im calls (Suc i) (?h + 1) (map dr_driver rs) (live (sd_table d1))"
    using Cons.IH[where d = d1 and n = "n + 1" and out = "out @ launch_lines ?h [?p]" and i = "Suc i"] d1(2) Cons.prems(2-5) dm by (auto simp: d1(3))
  then show ?case using d1(1,4) l by auto
qed

section \<open>Properties\<close>

text \<open>
  C32: on a loader with two free slots whose kernel side succeeds, the device manager starts
  exactly the drivers of the device table, one child per row in the order of the table under
  consecutive handles, each with its path as only argument and the capabilities of its own
  image; no capability is destroyed and the other children only see the reaper. It reports the
  two handles and exits with 0. Without a loader it exits with 1.
\<close>

theorem devmgr_starts_drivers:
  fixes calls :: "nat \<Rightarrow> drv_call"
  assumes "table_inv (sd_table d)" and "finite (dom (live (sd_table d)))" and "card (dom (live (sd_table d))) + 2 \<le> TASK_MAX"
    and "unat (tt_next_handle (sd_table d)) + 2 \<le> 2 ^ 31"
    and "\<forall>r \<in> set g_device_table. \<forall>h. launch (request h [dr_driver r]) = Some (im h (dr_driver r))"
  defines "h \<equiv> tt_next_handle (sd_table d)"
    and "child \<equiv> \<lambda>i k p. start_running (install_caps (im k p) (reaped (dc_evs (calls i)) (fresh_child k p)))"
  shows "\<exists>d'. devmgr_main launch calls (Some d) = Ret (Some d', 0,
      ''[devmgr] starting'' @ nl @
      ''[devmgr] launching rom/ds18b20-server (handle '' @ show_nat (unat h) @ '')'' @ nl @
      ''[devmgr] launching rom/tef6686hn-server (handle '' @ show_nat (unat h + 1) @ '')'' @ nl @
      ''[devmgr] 2 driver(s) launched'' @ nl) \<and>
    table_inv (sd_table d') \<and> sd_deleted d' = sd_deleted d \<and>
    live (sd_table d') = (\<lambda>k. map_option (reaped (dc_evs (calls 0) @ dc_evs (calls 1))) (live (sd_table d) k))
      (h \<mapsto> reaped (dc_evs (calls 1)) (child 0 h ''rom/ds18b20-server''), h + 1 \<mapsto> child 1 (h + 1) ''rom/tef6686hn-server'') \<and>
    (\<exists>out. devmgr_main launch calls None = Ret (None, 1, out))"
proof -
  let ?ps = "[''rom/ds18b20-server'', ''rom/tef6686hn-server'']" and ?st = "''[devmgr] starting'' @ nl"
  have ps: "map dr_driver g_device_table = ?ps" "length g_device_table = 2" by (simp_all add: g_device_table_def)
  have ok: "\<forall>r \<in> set g_device_table. path_ok (dr_driver r) \<and> (\<forall>h. launch (request h [dr_driver r]) = Some (im h (dr_driver r)))"
    using assms(5) by (simp add: g_device_table_def path_ok_def)
  obtain d' where a: "launch_all launch calls 0 g_device_table (d, 0, ?st) = Ret (d', 2, ?st @ launch_lines h ?ps)"
    "table_inv (sd_table d')" "sd_deleted d' = sd_deleted d" and l: "live (sd_table d') = started im calls 0 h ?ps (live (sd_table d))"
    using launch_all_ok[OF assms(1,2), of g_device_table launch im calls 0 0 ?st] assms(3,4) ok unfolding ps h_def by auto
  have n: "unat (h + 1) = unat h + 1" using assms(4) by (simp add: h_def unat_word_ariths)
  have two: "show_nat 2 = ''2''" by code_simp
  have "live (sd_table d') = (\<lambda>k. map_option (reaped (dc_evs (calls 0) @ dc_evs (calls 1))) (live (sd_table d) k))
      (h \<mapsto> reaped (dc_evs (calls 1)) (child 0 h ''rom/ds18b20-server''), h + 1 \<mapsto> child 1 (h + 1) ''rom/tef6686hn-server'')"
    unfolding l by (rule ext) (simp add: child_def option.map_comp comp_def reaped_append)
  moreover have "devmgr_main launch calls (Some d) = Ret (Some d', 0, ?st @
      ''[devmgr] launching rom/ds18b20-server (handle '' @ show_nat (unat h) @ '')'' @ nl @
      ''[devmgr] launching rom/tef6686hn-server (handle '' @ show_nat (unat h + 1) @ '')'' @ nl @
      ''[devmgr] 2 driver(s) launched'' @ nl)"
    unfolding devmgr_main_def Let_def option.case a by (simp add: n two)
  moreover have "\<exists>out. devmgr_main launch calls None = Ret (None, 1, out)" by (simp add: devmgr_main_def)
  ultimately show ?thesis
    using \<open>table_inv (sd_table d')\<close> \<open>sd_deleted d' = sd_deleted d\<close> by (intro exI[of _ d']) (simp only: append_assoc)
qed

theorem devmgr_starts_drivers_witness:
  "\<exists>launch calls d'. devmgr_main launch calls (Some spawnd_init) = Ret (Some d', 0,
      ''[devmgr] starting'' @ nl @
      ''[devmgr] launching rom/ds18b20-server (handle 1)'' @ nl @
      ''[devmgr] launching rom/tef6686hn-server (handle 2)'' @ nl @
      ''[devmgr] 2 driver(s) launched'' @ nl) \<and> dom (live (sd_table d')) = {1, 2}"
proof -
  define im where "im = (\<lambda>(h :: u32) (p :: string). \<lparr>im_task = 10, im_thread = 11, im_rm = 12, im_gate = 13\<rparr>)"
  define launch :: loader where "launch = (\<lambda>r. Some (im 0 (lr_path r)))"
  define calls where "calls = (\<lambda>i :: nat. \<lparr>dc_evs = [], dc_polls = [], dc_junk = []\<rparr>)"
  have l: "\<forall>r \<in> set g_device_table. \<forall>h. launch (request h [dr_driver r]) = Some (im h (dr_driver r))"
    by (simp add: launch_def im_def)
  have t: "sd_table spawnd_init = task_table_init" by (simp add: spawnd_init_def)
  have e: "live task_table_init = (\<lambda>_. None)"
  proof
    fix h
    have "tt_find task_table_init h \<noteq> Some i" for i
      unfolding tt_find_iff[OF table_inv_init] by (auto simp: task_table_init_def is_live_def empty_task_def)
    then show "live task_table_init h = None" by (auto simp: live_def)
  qed
  have n: "tt_next_handle task_table_init = 1" by (simp add: task_table_init_def)
  have s: "show_nat (unat (1 :: u32)) = ''1''" "show_nat (unat (1 :: u32) + 1) = ''2''" by code_simp+
  obtain d' where "devmgr_main launch calls (Some spawnd_init) = Ret (Some d', 0,
      ''[devmgr] starting'' @ nl @ ''[devmgr] launching rom/ds18b20-server (handle '' @ ''1'' @ '')'' @ nl @
      ''[devmgr] launching rom/tef6686hn-server (handle '' @ ''2'' @ '')'' @ nl @ ''[devmgr] 2 driver(s) launched'' @ nl)"
    "dom (live (sd_table d')) = {1, 2}"
    using devmgr_starts_drivers[of spawnd_init launch im calls, OF _ _ _ _ l] table_inv_init unfolding t e n s
    by (auto simp: TASK_MAX_def insert_commute)
  then show ?thesis by (intro exI[of _ launch] exI[of _ calls] exI[of _ d']) simp
qed

end
