(* ===== verification/Buses.thy ===== *)
theory Buses
  imports Prelude
begin

text \<open>
  The interfaces through which the device drivers reach their chips: the calls of an I2C device
  (\<^verbatim>\<open>pkg/i2c-driver/include/i2c_device_if.h\<close>), of an SPI device
  (\<^verbatim>\<open>pkg/spi-driver/include/spi_device_if.h\<close>) and memory-mapped registers. What is behind them is
  a parameter of the drivers: each call acts on a bus state and gives a return code and, where
  the device answers, the bytes it sent.
\<close>

record 'b i2c_bus =
  i2c_write :: "u8 list \<Rightarrow> 'b \<Rightarrow> 'b \<times> int"
  i2c_write_read :: "u8 list \<Rightarrow> u8 \<Rightarrow> 'b \<Rightarrow> 'b \<times> int \<times> u8 list"

record 'b spi_bus =
  spi_write :: "u8 list \<Rightarrow> 'b \<Rightarrow> 'b \<times> int"
  spi_transfer :: "u8 list \<Rightarrow> 'b \<Rightarrow> 'b \<times> int \<times> u8 list"

record 'b mmio =
  mm_read :: "nat \<Rightarrow> 'b \<Rightarrow> u32"
  mm_write :: "nat \<Rightarrow> u32 \<Rightarrow> 'b \<Rightarrow> 'b"

text \<open>
  An I2C chip with \<open>n\<close> registers that a write to address 0 sets and a read from address 0
  delivers, as the data sheets of the clock chips describe them; \<open>regs\<close> shows them.
\<close>

definition register_file :: "nat \<Rightarrow> 'b i2c_bus \<Rightarrow> ('b \<Rightarrow> u8 list) \<Rightarrow> bool" where
  "register_file n B regs \<longleftrightarrow>
     (\<forall>b. length (regs b) = n \<and> i2c_write_read B [0] (of_nat n) b = (b, 0, regs b) \<and>
       (\<forall>data. length data = n \<longrightarrow> (\<exists>b'. i2c_write B (0 # data) b = (b', 0) \<and> regs b' = data)))"

end
