(* ===== verification/At24c02.thy ===== *)
theory At24c02
  imports Buses
begin

text \<open>
  The driver of the AT24C02 serial EEPROM, \<^verbatim>\<open>pkg/at24c02/lib/at24c02.cc\<close>: 256 bytes in pages of 8,
  written page by page. The I2C bus behind the device capability is a parameter: its \<^verbatim>\<open>write\<close>
  and \<^verbatim>\<open>write_read\<close> calls on a bus state. What the chip does with a message, as documented in its
  data sheet, is the hypothesis \<open>eeprom_bus\<close>. Sleeps for the write cycle have no effect here.
\<close>

section \<open>The driver\<close>

definition Capacity :: u32 where "Capacity = 256"

definition Page_size :: u32 where "Page_size = 8"

text \<open>\<^verbatim>\<open>addr + len\<close> is computed in \<^verbatim>\<open>unsigned\<close>, which wraps.\<close>

definition at_clamp :: "u8 \<Rightarrow> u32 \<Rightarrow> u32" where
  "at_clamp addr len = (if ucast addr + len > Capacity then Capacity - ucast addr else len)"

text \<open>A buffer pointer is \<open>None\<close> when it is null; the result is the bus, the code and the bytes.\<close>

definition at_read :: "'b i2c_bus \<Rightarrow> u8 \<Rightarrow> bool \<Rightarrow> u32 \<Rightarrow> 'b \<Rightarrow> 'b \<times> int \<times> u8 list" where
  "at_read B addr buf len b =
     (if \<not> buf \<or> len = 0 then (b, err EINVAL, [])
      else let len = at_clamp addr len in i2c_write_read B [addr] (ucast len) b)"

definition at_read_byte :: "'b i2c_bus \<Rightarrow> u8 \<Rightarrow> 'b \<Rightarrow> 'b \<times> int \<times> u8 list" where
  "at_read_byte B addr b = at_read B addr True 1 b"

text \<open>\<open>data\<close> are the bytes from the pointer on; the message buffer has room for one page.\<close>

definition write_page :: "'b i2c_bus \<Rightarrow> u8 \<Rightarrow> u8 list \<Rightarrow> u32 \<Rightarrow> 'b \<Rightarrow> ('b \<times> int) outcome" where
  "write_page B addr data len b =
     (if len > Page_size then Fault
      else obind (mem_get data 0 (unat len)) (\<lambda>d. Ret (i2c_write B (addr # d) b)))"

definition at_write_byte :: "'b i2c_bus \<Rightarrow> u8 \<Rightarrow> u8 \<Rightarrow> 'b \<Rightarrow> ('b \<times> int) outcome" where
  "at_write_byte B addr data b = write_page B addr [data] 1 b"

definition page_chunk :: "u8 \<Rightarrow> u32 \<Rightarrow> u32 \<Rightarrow> u32" where
  "page_chunk cur_addr len written =
     (let page_off = ucast cur_addr mod Page_size;
          bytes_in_page = Page_size - page_off;
          chunk = len - written
      in if chunk > bytes_in_page then bytes_in_page else chunk)"

lemma unat_plus_le: "unat a + unat b \<le> unat (c :: u32) \<Longrightarrow> unat (a + b :: u32) = unat a + unat b"
proof -
  assume "unat a + unat b \<le> unat c"
  then have "unat a + unat b < 2 ^ 32" using order_le_less_trans[OF _ unsigned_less[of c, where 'a = nat]] by simp
  then show ?thesis by (simp add: unat_word_ariths)
qed

lemma unat_mod_8: "unat (x mod 8 :: u32) = unat x mod 8"
  by (simp add: unat_mod)

lemma unat_page_rest: "unat (Page_size - ucast (a :: u8) mod Page_size) = 8 - unat a mod 8"
proof -
  have "unat (ucast a mod Page_size :: u32) = unat a mod 8"
    using unsigned_less[of a, where 'a = nat] by (simp add: Page_size_def unat_mod_8 unsigned_ucast_eq take_bit_nat_eq_self)
  moreover have "ucast a mod Page_size \<le> Page_size"
    using calculation by (simp add: word_le_nat_alt Page_size_def)
  ultimately show ?thesis by (simp add: unat_sub Page_size_def)
qed

lemma unat_page_chunk:
  "written \<le> len \<Longrightarrow> unat (page_chunk a len written) = min (8 - unat a mod 8) (unat len - unat written)"
proof -
  assume l: "written \<le> len"
  have "unat (len - written) = unat len - unat written" using l by (rule unat_sub)
  then show ?thesis using unat_page_rest[of a] unfolding page_chunk_def Let_def
    by (auto simp: word_less_nat_alt min_def)
qed

function write_loop :: "'b i2c_bus \<Rightarrow> u8 \<Rightarrow> u8 list \<Rightarrow> u32 \<Rightarrow> u32 \<Rightarrow> 'b \<Rightarrow> ('b \<times> int) outcome" where
  "write_loop B addr data len written b =
     (if written < len
      then let cur_addr = ucast (ucast addr + written);
               chunk = page_chunk cur_addr len written
           in case write_page B cur_addr (drop (unat written) data) chunk b of
                Ret (b', r) \<Rightarrow> if r < 0 then Ret (b', r) else write_loop B addr data len (written + chunk) b'
              | Fault \<Rightarrow> Fault
              | Stuck \<Rightarrow> Stuck
      else Ret (b, 0))"
  by pat_completeness auto
termination
proof (relation "measure (\<lambda>(B, addr, data, len, written, b). unat len - unat written)", goal_cases)
  case (2 B addr data len written b c chunk x b' r)
  have c: "unat chunk = min (8 - unat c mod 8) (unat len - unat written)"
    using 2(1,3) by (simp add: unat_page_chunk)
  have "unat written < unat len" using 2(1) by (simp add: word_less_nat_alt)
  moreover have "unat (written + chunk) = unat written + unat chunk"
    using c calculation by (intro unat_plus_le[of _ _ len]) simp
  moreover have "0 < unat chunk" using c calculation(1) mod_less_divisor[of 8 "unat c"] by (simp add: min_def)
  ultimately show ?case by simp
qed simp

declare write_loop.simps [simp del]

definition at_write :: "'b i2c_bus \<Rightarrow> u8 \<Rightarrow> u8 list option \<Rightarrow> u32 \<Rightarrow> 'b \<Rightarrow> ('b \<times> int) outcome" where
  "at_write B addr data len b =
     (case data of
        None \<Rightarrow> Ret (b, err EINVAL)
      | Some d \<Rightarrow> if len = 0 then Ret (b, err EINVAL) else write_loop B addr d (at_clamp addr len) 0 b)"

section \<open>The chip\<close>

definition overwrite :: "nat \<Rightarrow> 'a list \<Rightarrow> 'a list \<Rightarrow> 'a list" where
  "overwrite a d m = take a m @ d @ drop (a + length d) m"

text \<open>
  The documented behaviour of the chip, seen through its contents \<open>mem\<close>: a write message that
  stays inside one page stores its bytes, a read message of at least one byte returns them.
\<close>

definition eeprom_bus :: "'b i2c_bus \<Rightarrow> ('b \<Rightarrow> u8 list) \<Rightarrow> bool" where
  "eeprom_bus B mem \<longleftrightarrow>
     (\<forall>b. length (mem b) = 256) \<and>
     (\<forall>b a d. d \<noteq> [] \<and> unat a mod 8 + length d \<le> 8 \<longrightarrow>
        0 \<le> snd (i2c_write B (a # d) b) \<and> mem (fst (i2c_write B (a # d) b)) = overwrite (unat a) d (mem b)) \<and>
     (\<forall>b a n. 0 < n \<and> unat a + unat n \<le> 256 \<longrightarrow>
        i2c_write_read B [a] n b = (b, 0, take (unat n) (drop (unat a) (mem b))))"

lemma overwrite_append:
  "a + length d + length e \<le> length m \<Longrightarrow> overwrite (a + length d) e (overwrite a d m) = overwrite a (d @ e) m"
  by (cases d) (auto simp: overwrite_def add_ac min_def)

lemma write_loop_stores:
  assumes "eeprom_bus B mem" and "unat addr + unat len \<le> 256" and "unat len \<le> length data" and "written \<le> len"
    and "mem b = overwrite (unat addr) (take (unat written) data) m" and "length m = 256"
  shows "\<exists>b'. write_loop B addr data len written b = Ret (b', 0) \<and> mem b' = overwrite (unat addr) (take (unat len) data) m"
  using assms(4,5)
proof (induction "unat len - unat written" arbitrary: written b rule: less_induct)
  case less
  show ?case
  proof (cases "written < len")
    case False
    then have "written = len" using less.prems(1) by simp
    then show ?thesis using less.prems(2) by (subst write_loop.simps) simp
  next
    case True
    then have lt: "unat written < unat len" by (simp add: word_less_nat_alt)
    define c where "c = (ucast (ucast addr + written) :: u8)"
    define k where "k = page_chunk c len written"
    have c: "unat c = unat addr + unat written"
    proof -
      have "unat (ucast addr + written :: u32) = unat addr + unat written"
        using lt assms(2) by (simp add: unat_word_ariths unsigned_ucast_eq take_bit_nat_eq_self)
      then show ?thesis using lt assms(2) by (simp add: c_def unsigned_ucast_eq take_bit_nat_eq_self)
    qed
    have k: "unat k = min (8 - unat c mod 8) (unat len - unat written)"
      using True by (simp add: k_def unat_page_chunk)
    have "unat c mod 8 < 8" by simp
    with k lt have k0: "0 < unat k" "unat k \<le> 8" "unat c mod 8 + unat k \<le> 8" "unat written + unat k \<le> unat len" by linarith+
    let ?d = "take (unat k) (drop (unat written) data)"
    have ld: "length ?d = unat k" using k0(4) assms(3) by simp
    have wp: "write_page B c (drop (unat written) data) k b = Ret (i2c_write B (c # ?d) b)"
      using k0(2,4) assms(3) by (simp add: write_page_def mem_get_def Page_size_def word_less_nat_alt)
    obtain b1 r where w: "i2c_write B (c # ?d) b = (b1, r)" by fastforce
    have "?d \<noteq> []" using ld k0(1) by auto
    then have chip: "0 \<le> r" "mem b1 = overwrite (unat c) ?d (mem b)"
      using assms(1) w ld k0(3) unfolding eeprom_bus_def by (metis fst_conv snd_conv)+
    have nw: "unat (written + k) = unat written + unat k"
      using k0(4) by (rule unat_plus_le)
    have "mem b1 = overwrite (unat addr) (take (unat written) data @ ?d) m"
      using chip(2) less.prems(2) c overwrite_append[of "unat addr" "take (unat written) data" ?d m] assms(2,3,6) ld lt k0(4) by simp
    also have "take (unat written) data @ ?d = take (unat (written + k)) data" by (simp add: nw take_add)
    finally have m1: "mem b1 = overwrite (unat addr) (take (unat (written + k)) data) m" .
    have "\<exists>b'. write_loop B addr data len (written + k) b1 = Ret (b', 0) \<and> mem b' = overwrite (unat addr) (take (unat len) data) m"
      using lt k0(1,4) nw m1 by (intro less.hyps) (simp_all add: word_le_nat_alt)
    then show ?thesis
      using True wp w chip(1) by (subst write_loop.simps) (simp add: Let_def c_def[symmetric] k_def[symmetric])
  qed
qed

lemma unat_clamp:
  assumes "unat addr + unat len < 2 ^ 32"
  shows "unat (at_clamp addr len) = min (unat len) (256 - unat addr)"
proof -
  have a: "unat (ucast addr :: u32) = unat addr" by (simp add: unsigned_ucast_eq take_bit_nat_eq_self order_less_trans[OF unsigned_less])
  have b: "unat addr < 256" using unsigned_less[of addr, where 'a = nat] by simp
  have "unat (ucast addr + len) = unat addr + unat len" using assms a by (simp add: unat_word_ariths)
  moreover have "unat (Capacity - ucast addr) = 256 - unat addr"
    using a b by (simp add: Capacity_def unat_sub word_le_nat_alt)
  ultimately show ?thesis using b by (auto simp: at_clamp_def Capacity_def word_less_nat_alt min_def)
qed

section \<open>Properties\<close>

text \<open>
  C30: on a chip that stores page writes, what is written through the driver is read back:
  writing any number of bytes at any address stores exactly the bytes that fit below the end of
  the chip, page boundary by page boundary and with no other byte changed, and reading the same
  range returns them. A read of the whole chip asks the bus for 0 bytes, since the
  length is passed in 8 bits.
\<close>

theorem eeprom_write_read_back:
  assumes "eeprom_bus B mem" and "unat addr + unat len < 2 ^ 32" and "0 < len" and "unat len \<le> length data"
    and "n = min (unat len) (256 - unat addr)"
  shows "\<exists>b'. at_write B addr (Some data) len b = Ret (b', 0) \<and>
    mem b' = overwrite (unat addr) (take n data) (mem b) \<and>
    at_read B addr True len b' = (if n < 256 then (b', 0, take n data) else i2c_write_read B [addr] 0 b')"
proof -
  let ?l = "at_clamp addr len"
  have l: "unat ?l = n" using unat_clamp[OF assms(2)] assms(5) by simp
  have a: "unat addr < 256" using unsigned_less[of addr, where 'a = nat] by simp
  have m: "length (mem b) = 256" for b using assms(1) by (simp add: eeprom_bus_def)
  have n: "unat addr + n \<le> 256" "n \<le> length data" "0 < n" using a assms(3-5) by (auto simp: word_less_nat_alt)
  have "mem b = overwrite (unat addr) (take (unat (0 :: u32)) data) (mem b)" by (simp add: overwrite_def)
  then obtain b' where w: "write_loop B addr data ?l 0 b = Ret (b', 0)" "mem b' = overwrite (unat addr) (take n data) (mem b)"
    using write_loop_stores[OF assms(1), of addr ?l data 0 b "mem b"] l m n by auto
  have u: "unat (ucast ?l :: u8) = (if n < 256 then n else 0)"
  proof (cases "n < 256")
    case True
    then show ?thesis using l by (simp add: unsigned_ucast_eq take_bit_eq_mod)
  next
    case False
    then have "n = 256" using n(1) by simp
    then show ?thesis using l by (simp add: unsigned_ucast_eq take_bit_eq_mod)
  qed
  have "take n (drop (unat addr) (mem b')) = take n data"
    using w(2) n m by (simp add: overwrite_def)
  moreover have "i2c_write_read B [addr] (ucast ?l) b' = (b', 0, take n (drop (unat addr) (mem b')))" if "n < 256"
  proof -
    have u': "unat (ucast ?l :: u8) = n" using u that by simp
    then have "0 < (ucast ?l :: u8)" using n(3) by (simp add: word_less_nat_alt)
    moreover have "unat addr + unat (ucast ?l :: u8) \<le> 256" using u' n(1) by simp
    ultimately have "i2c_write_read B [addr] (ucast ?l) b' = (b', 0, take (unat (ucast ?l :: u8)) (drop (unat addr) (mem b')))"
      using assms(1) unfolding eeprom_bus_def by blast
    then show ?thesis by (simp only: u')
  qed
  moreover have "(ucast ?l :: u8) = 0" if "\<not> n < 256" using u that by (simp add: word_unat_eq_iff)
  ultimately show ?thesis using w assms(3) by (auto simp: at_write_def at_read_def Let_def)
qed

text \<open>A chip that keeps its 256 bytes in a list, padded with zeros.\<close>

definition chip_mem :: "u8 list \<Rightarrow> u8 list" where
  "chip_mem m = take 256 (m @ replicate 256 0)"

definition ram_chip :: "u8 list i2c_bus" where
  "ram_chip = \<lparr>i2c_write = \<lambda>msg m. (overwrite (unat (hd msg)) (tl msg) (chip_mem m), 0),
     i2c_write_read = \<lambda>msg n m. (m, 0, take (unat n) (drop (unat (hd msg)) (chip_mem m)))\<rparr>"

lemma ram_chip_ok: "eeprom_bus ram_chip chip_mem"
proof -
  have l: "length (chip_mem m) = 256" for m by (simp add: chip_mem_def)
  have "chip_mem (overwrite (unat a) d (chip_mem m)) = overwrite (unat a) d (chip_mem m)"
    if "unat a mod 8 + length d \<le> 8" for a :: u8 and d m
  proof -
    have "unat a < 256" using unsigned_less[of a, where 'a = nat] by simp
    then have "unat a div 8 \<le> 31" by (simp add: less_Suc_eq_le[symmetric] less_mult_imp_div_less)
    then have "unat a + length d \<le> 256" using that div_mult_mod_eq[of "unat a" 8] by linarith
    then have "length (overwrite (unat a) d (chip_mem m)) = 256" by (simp add: overwrite_def l)
    then show ?thesis by (simp add: chip_mem_def[of "overwrite _ _ _"])
  qed
  then show ?thesis using l by (simp add: eeprom_bus_def ram_chip_def)
qed

theorem eeprom_write_read_back_witness:
  "\<exists>b'. at_write ram_chip 6 (Some [1, 2, 3, 4]) 4 [] = Ret (b', 0) \<and> at_read ram_chip 6 True 4 b' = (b', 0, [1, 2, 3, 4])"
proof -
  have "unat (6 :: u8) + unat (4 :: u32) < 2 ^ 32" "0 < (4 :: u32)" "unat (4 :: u32) \<le> length [1, 2, 3, 4 :: u8]"
    "(4 :: nat) = min (unat (4 :: u32)) (256 - unat (6 :: u8))" by simp_all
  from eeprom_write_read_back[OF ram_chip_ok this, of "[]"] show ?thesis by (simp del: unsigned_numeral) blast
qed

end
