(* ===== verification/Mcp2515.thy ===== *)
theory Mcp2515
  imports Buses
begin

text \<open>
  The driver of the MCP2515 CAN controller, \<^verbatim>\<open>pkg/mcp2515/lib/mcp2515.cc\<close>. The SPI device behind
  its capability is a parameter: \<^verbatim>\<open>write\<close> and \<^verbatim>\<open>transfer\<close> on a bus state, giving a return code
  and the bytes clocked in. Registers are read and written by short messages; a CAN frame
  is packed into the five header registers of a buffer and its data bytes.
\<close>

section \<open>Messages\<close>

datatype osc_freq = MHz8 | MHz16

datatype bit_rate = kbps_125 | kbps_250 | kbps_500 | kbps_1000

record can_frame =
  cf_id :: u32
  cf_extended :: bool
  cf_rtr :: bool
  cf_dlc :: u8
  cf_data :: "u8 list"

definition CMD_WRITE :: u8 where "CMD_WRITE = 0x02"
definition CMD_READ :: u8 where "CMD_READ = 0x03"
definition CMD_BITMOD :: u8 where "CMD_BITMOD = 0x05"
definition CMD_LOAD_TX0 :: u8 where "CMD_LOAD_TX0 = 0x40"
definition CMD_RTS_TX0 :: u8 where "CMD_RTS_TX0 = 0x81"
definition CMD_READ_RX0 :: u8 where "CMD_READ_RX0 = 0x90"
definition CMD_READ_RX1 :: u8 where "CMD_READ_RX1 = 0x94"
definition CMD_READ_STATUS :: u8 where "CMD_READ_STATUS = 0xA0"
definition CMD_RX_STATUS :: u8 where "CMD_RX_STATUS = 0xB0"
definition CMD_RESET :: u8 where "CMD_RESET = 0xC0"

definition REQOP_MASK :: u8 where "REQOP_MASK = 0xE0"
definition REQOP_NORMAL :: u8 where "REQOP_NORMAL = 0x00"
definition REQOP_LOOPBACK :: u8 where "REQOP_LOOPBACK = 0x40"
definition REQOP_LISTENONLY :: u8 where "REQOP_LISTENONLY = 0x60"
definition REQOP_CONFIG :: u8 where "REQOP_CONFIG = 0x80"

definition TXREQ :: u8 where "TXREQ = 0x08"
definition SIDL_EXIDE :: u8 where "SIDL_EXIDE = 0x08"
definition SIDL_SRTR :: u8 where "SIDL_SRTR = 0x10"

definition Poll_max :: nat where "Poll_max = 1000"

text \<open>The registers in the order the driver names them.\<close>

definition REG_TEC :: u8 where "REG_TEC = 0x1C"
definition REG_REC :: u8 where "REG_REC = 0x1D"
definition REG_CNF3 :: u8 where "REG_CNF3 = 0x28"
definition REG_CNF2 :: u8 where "REG_CNF2 = 0x29"
definition REG_CNF1 :: u8 where "REG_CNF1 = 0x2A"
definition REG_CANINTE :: u8 where "REG_CANINTE = 0x2B"
definition REG_CANINTF :: u8 where "REG_CANINTF = 0x2C"
definition REG_CANSTAT :: u8 where "REG_CANSTAT = 0x0E"
definition REG_CANCTRL :: u8 where "REG_CANCTRL = 0x0F"
definition REG_TXB0CTRL :: u8 where "REG_TXB0CTRL = 0x30"
definition REG_RXB0CTRL :: u8 where "REG_RXB0CTRL = 0x60"
definition REG_RXB1CTRL :: u8 where "REG_RXB1CTRL = 0x70"

definition bit_timing :: "osc_freq \<Rightarrow> bit_rate \<Rightarrow> u8 \<times> u8 \<times> u8" where
  "bit_timing osc rate =
     (case osc of
        MHz8 \<Rightarrow> (case rate of kbps_125 \<Rightarrow> (0x03, 0x91, 0x01) | kbps_250 \<Rightarrow> (0x01, 0x91, 0x01)
                   | kbps_500 \<Rightarrow> (0x00, 0x91, 0x01) | kbps_1000 \<Rightarrow> (0x00, 0x80, 0x00))
      | MHz16 \<Rightarrow> (case rate of kbps_125 \<Rightarrow> (0x07, 0x91, 0x01) | kbps_250 \<Rightarrow> (0x03, 0x91, 0x01)
                   | kbps_500 \<Rightarrow> (0x01, 0x91, 0x01) | kbps_1000 \<Rightarrow> (0x00, 0x91, 0x01)))"

section \<open>Register access\<close>

definition mcp_reset :: "'b spi_bus \<Rightarrow> 'b \<Rightarrow> 'b \<times> int" where
  "mcp_reset B b = (case spi_write B [CMD_RESET] b of (b', r) \<Rightarrow> (b', if r < 0 then r else 0))"

text \<open>The value is only stored when the transfer succeeded; the callers start with 0.\<close>

definition read_reg :: "'b spi_bus \<Rightarrow> u8 \<Rightarrow> 'b \<Rightarrow> 'b \<times> int \<times> u8" where
  "read_reg B addr b =
     (case spi_transfer B [CMD_READ, addr, 0] b of (b', r, rx) \<Rightarrow> (b', r, if r = 0 then rx ! 2 else 0))"

definition write_reg :: "'b spi_bus \<Rightarrow> u8 \<Rightarrow> u8 \<Rightarrow> 'b \<Rightarrow> 'b \<times> int" where
  "write_reg B addr val b = spi_write B [CMD_WRITE, addr, val] b"

definition bit_modify :: "'b spi_bus \<Rightarrow> u8 \<Rightarrow> u8 \<Rightarrow> u8 \<Rightarrow> 'b \<Rightarrow> 'b \<times> int" where
  "bit_modify B addr msk data b = spi_write B [CMD_BITMOD, addr, msk, data] b"

definition read_status :: "'b spi_bus \<Rightarrow> 'b \<Rightarrow> 'b \<times> int \<times> u8" where
  "read_status B b = (case spi_transfer B [CMD_READ_STATUS, 0] b of (b', r, rx) \<Rightarrow> (b', r, if r = 0 then rx ! 1 else 0))"

definition read_rx_status :: "'b spi_bus \<Rightarrow> 'b \<Rightarrow> 'b \<times> int \<times> u8" where
  "read_rx_status B b = (case spi_transfer B [CMD_RX_STATUS, 0] b of (b', r, rx) \<Rightarrow> (b', r, if r = 0 then rx ! 1 else 0))"

text \<open>Polling: the number of tries left.\<close>

fun mode_poll :: "'b spi_bus \<Rightarrow> u8 \<Rightarrow> nat \<Rightarrow> 'b \<Rightarrow> 'b \<times> int" where
  "mode_poll B reqop 0 b = (b, err EIO)"
| "mode_poll B reqop (Suc k) b =
     (case read_reg B REG_CANSTAT b of (b', r, stat) \<Rightarrow>
        if r < 0 then (b', r)
        else if stat AND REQOP_MASK = reqop AND REQOP_MASK then (b', 0)
        else mode_poll B reqop k b')"

definition set_mode :: "'b spi_bus \<Rightarrow> u8 \<Rightarrow> 'b \<Rightarrow> 'b \<times> int" where
  "set_mode B reqop b =
     (case bit_modify B REG_CANCTRL REQOP_MASK reqop b of (b', r) \<Rightarrow>
        if r < 0 then (b', r) else mode_poll B reqop Poll_max b')"

section \<open>Frames\<close>

text \<open>The five header registers SIDH, SIDL, EID8, EID0 and DLC.\<close>

definition frame_header :: "can_frame \<Rightarrow> u8 list" where
  "frame_header f =
     (let i = cf_id f in
      (if \<not> cf_extended f
       then [ucast (drop_bit 3 i AND 0xFF),
             ucast (push_bit 5 (i AND 0x07) OR (if cf_rtr f then ucast SIDL_SRTR else 0)), 0, 0]
       else [ucast (drop_bit 21 i AND 0xFF),
             ucast (push_bit 5 (drop_bit 18 i AND 0x07) OR ucast SIDL_EXIDE OR (drop_bit 16 i AND 0x03)),
             ucast (drop_bit 8 i AND 0xFF), ucast (i AND 0xFF)]) @
      [(if cf_extended f \<and> cf_rtr f then 0x40 else 0) OR (cf_dlc f AND 0x0F)])"

text \<open>The buffer has 14 bytes, 6 of them for the command and the header.\<close>

definition load_tx_buf :: "'b spi_bus \<Rightarrow> can_frame \<Rightarrow> 'b \<Rightarrow> ('b \<times> int) outcome" where
  "load_tx_buf B f b =
     (let n = unat (cf_dlc f)
      in if n > 8 \<or> n > length (cf_data f) then Fault
         else Ret (spi_write B (CMD_LOAD_TX0 # frame_header f @ take n (cf_data f)) b))"

text \<open>Decoding of the 14 bytes clocked in, into a frame that already has some contents.\<close>

definition decode_frame :: "u8 list \<Rightarrow> can_frame \<Rightarrow> can_frame" where
  "decode_frame rx f =
     (let sidh = rx ! 1; sidl = rx ! 2; eid8 = rx ! 3; eid0 = rx ! 4; dlc = rx ! 5;
          ext = (sidl AND SIDL_EXIDE \<noteq> 0);
          n = (if dlc AND 0x0F > 8 then 8 else dlc AND 0x0F);
          sid = drop_bit 5 sidl AND 0x07;
          i = (if \<not> ext then push_bit 3 (ucast sidh) OR ucast sid
               else push_bit 21 (ucast sidh) OR push_bit 18 (ucast sid) OR push_bit 16 (ucast (sidl AND 0x03)) OR
                    push_bit 8 (ucast eid8) OR ucast eid0)
      in \<lparr>cf_id = i, cf_extended = ext, cf_rtr = (dlc AND 0x40 \<noteq> 0), cf_dlc = n,
          cf_data = take (unat n) (drop 6 rx) @ drop (unat n) (cf_data f)\<rparr>)"

definition read_rx_buf :: "'b spi_bus \<Rightarrow> u8 \<Rightarrow> can_frame \<Rightarrow> 'b \<Rightarrow> 'b \<times> int \<times> can_frame" where
  "read_rx_buf B buf_idx f b =
     (case spi_transfer B ((if buf_idx = 0 then CMD_READ_RX0 else CMD_READ_RX1) # replicate 13 0) b of (b', r, rx) \<Rightarrow>
        if r < 0 then (b', r, f) else (b', 0, decode_frame rx f))"

section \<open>Operations\<close>

text \<open>The register writes of \<^verbatim>\<open>init\<close>, each checked before the next.\<close>

fun write_regs :: "'b spi_bus \<Rightarrow> (u8 \<times> u8) list \<Rightarrow> 'b \<Rightarrow> 'b \<times> int" where
  "write_regs B [] b = (b, 0)"
| "write_regs B ((a, v) # rs) b = (case write_reg B a v b of (b', r) \<Rightarrow> if r < 0 then (b', r) else write_regs B rs b')"

definition mcp_init :: "'b spi_bus \<Rightarrow> osc_freq \<Rightarrow> bit_rate \<Rightarrow> 'b \<Rightarrow> 'b \<times> int" where
  "mcp_init B osc rate b =
     (case mcp_reset B b of (b1, r1) \<Rightarrow>
      if r1 < 0 then (b1, r1)
      else case read_reg B REG_CANSTAT b1 of (b2, r2, stat) \<Rightarrow>
           if r2 < 0 then (b2, r2)
           else if stat AND REQOP_MASK \<noteq> REQOP_CONFIG then (b2, err EIO)
           else case bit_timing osc rate of (cnf1, cnf2, cnf3) \<Rightarrow>
                case write_regs B [(REG_CNF1, cnf1), (REG_CNF2, cnf2), (REG_CNF3, cnf3), (REG_RXB0CTRL, 0x60 OR 0x04),
                    (REG_RXB1CTRL, 0x60), (REG_CANINTE, 0)] b2 of (b3, r3) \<Rightarrow>
                  if r3 < 0 then (b3, r3) else set_mode B REQOP_NORMAL b3)"

definition set_mode_normal :: "'b spi_bus \<Rightarrow> 'b \<Rightarrow> 'b \<times> int" where
  "set_mode_normal B b = set_mode B REQOP_NORMAL b"

definition set_mode_loopback :: "'b spi_bus \<Rightarrow> 'b \<Rightarrow> 'b \<times> int" where
  "set_mode_loopback B b = set_mode B REQOP_LOOPBACK b"

definition set_mode_listen_only :: "'b spi_bus \<Rightarrow> 'b \<Rightarrow> 'b \<times> int" where
  "set_mode_listen_only B b = set_mode B REQOP_LISTENONLY b"

fun send_poll :: "'b spi_bus \<Rightarrow> nat \<Rightarrow> 'b \<Rightarrow> 'b \<times> int" where
  "send_poll B 0 b = (b, err EIO)"
| "send_poll B (Suc k) b =
     (case read_reg B REG_TXB0CTRL b of (b', r, ctrl) \<Rightarrow>
        if r < 0 then (b', r) else if ctrl AND TXREQ = 0 then (b', 0) else send_poll B k b')"

definition mcp_send :: "'b spi_bus \<Rightarrow> can_frame \<Rightarrow> 'b \<Rightarrow> ('b \<times> int) outcome" where
  "mcp_send B f b =
     (if cf_dlc f > 8 then Ret (b, err EINVAL)
      else obind (load_tx_buf B f b) (\<lambda>(b1, r1).
        if r1 < 0 then Ret (b1, r1)
        else case spi_write B [CMD_RTS_TX0] b1 of (b2, r2) \<Rightarrow>
             if r2 < 0 then Ret (b2, r2) else Ret (send_poll B Poll_max b2)))"

definition recv_from :: "'b spi_bus \<Rightarrow> u8 \<Rightarrow> u8 \<Rightarrow> can_frame \<Rightarrow> 'b \<Rightarrow> 'b \<times> int \<times> can_frame" where
  "recv_from B idx flag f b =
     (case read_rx_buf B idx f b of (b1, r1, f1) \<Rightarrow>
        if r1 < 0 then (b1, r1, f1)
        else case bit_modify B REG_CANINTF flag 0 b1 of (b2, r2) \<Rightarrow> (b2, r2, f1))"

definition mcp_recv :: "'b spi_bus \<Rightarrow> can_frame \<Rightarrow> 'b \<Rightarrow> 'b \<times> int \<times> can_frame" where
  "mcp_recv B f b =
     (case read_rx_status B b of (b1, r, rxst) \<Rightarrow>
        if r < 0 then (b1, r, f)
        else if rxst AND 0x40 \<noteq> 0 then recv_from B 0 0x01 f b1
        else if rxst AND 0x80 \<noteq> 0 then recv_from B 1 0x02 f b1
        else (b1, err ENOENT, f))"

definition rx_pending :: "'b spi_bus \<Rightarrow> 'b \<Rightarrow> 'b \<times> bool" where
  "rx_pending B b = (case read_rx_status B b of (b', r, rxst) \<Rightarrow> (b', if r < 0 then False else rxst AND 0xC0 \<noteq> 0))"

definition get_error_counters :: "'b spi_bus \<Rightarrow> 'b \<Rightarrow> 'b \<times> int \<times> u8 \<times> u8" where
  "get_error_counters B b =
     (case read_reg B REG_TEC b of (b1, r1, tec) \<Rightarrow>
        if r1 < 0 then (b1, r1, tec, 0)
        else case read_reg B REG_REC b1 of (b2, r2, rec) \<Rightarrow> (b2, r2, tec, rec))"

section \<open>Identifiers survive the registers\<close>

lemma high_bits: "i < 2 ^ k \<Longrightarrow> k < 32 \<Longrightarrow> k \<le> n \<Longrightarrow> \<not> bit i n" for i :: u32
proof -
  assume "i < 2 ^ k" "k < 32" and n: "k \<le> n"
  then have "take_bit k i = i" using take_bit_self_iff[of k i] by simp
  then show ?thesis using bit_take_bit_iff[of k i n] n by simp
qed

lemma bit_power: "n < 32 \<Longrightarrow> bit (2 ^ n :: u32) k \<longleftrightarrow> k = n" "m < 8 \<Longrightarrow> bit (2 ^ m :: u8) k \<longleftrightarrow> k = m"
  by (auto simp only: bit_exp_iff possible_bit_word len_num0 len_num1 len_of_numeral_defs)

lemma bit_literals:
  "bit (0x10 :: u32) k \<longleftrightarrow> k = 4" "bit (0x08 :: u32) k \<longleftrightarrow> k = 3" "bit (0x08 :: u8) k \<longleftrightarrow> k = 3" "bit (0x40 :: u8) k \<longleftrightarrow> k = 6"
  using bit_power(1)[of 4 k] bit_power(1)[of 3 k] bit_power(2)[of 3 k] bit_power(2)[of 6 k] by (simp_all del: bit_numeral_word_iff)

lemma and_literals:
  "x AND 0xFF = take_bit 8 x" "x AND 0x07 = take_bit 3 x" "x AND 0x03 = take_bit 2 x"
  "y AND 0x07 = take_bit 3 y" "y AND 0x03 = take_bit 2 y" "y AND 0x0F = take_bit 4 y" for x :: u32 and y :: u8
  by (simp_all add: take_bit_eq_mask mask_eq_exp_minus_1)

text \<open>The fields of SIDL: three identifier bits, one flag, two more identifier bits.\<close>

lemma sidl_fields:
  fixes x y f :: u32
  assumes "\<And>k. bit f k \<Longrightarrow> 2 \<le> k \<and> k < 5"
  defines "s \<equiv> ucast (push_bit 5 (take_bit 3 x) OR f OR take_bit 2 y) :: u8"
  shows "ucast (take_bit 3 (drop_bit 5 s)) = take_bit 3 x" "ucast (take_bit 2 s) = take_bit 2 y" "bit s 3 = bit f 3"
proof -
  have f: "\<not> bit f (k + 5)" "k < 2 \<Longrightarrow> \<not> bit f k" for k using assms(1) by fastforce+
  show "ucast (take_bit 3 (drop_bit 5 s)) = take_bit 3 x"
    unfolding s_def by (rule bit_word_eqI) (use f in \<open>auto simp: bit_simps add.commute\<close>)
  show "ucast (take_bit 2 s) = take_bit 2 y"
    unfolding s_def by (rule bit_word_eqI) (use f in \<open>auto simp: bit_simps\<close>)
  show "bit s 3 = bit f 3" unfolding s_def by (auto simp: bit_simps)
qed

lemma ucast_byte: "ucast (ucast (take_bit 8 x) :: u8) = take_bit 8 (x :: u32)"
  by (rule bit_word_eqI) (auto simp: bit_simps)

lemma join_std: "i < 2 ^ 11 \<Longrightarrow> push_bit 3 (take_bit 8 (drop_bit 3 i)) OR take_bit 3 i = i" for i :: u32
proof (rule bit_word_eqI, goal_cases)
  case (1 n)
  have "\<not> bit i n" if "11 \<le> n" using high_bits[OF 1(1) _ that] by simp
  with 1(2) show ?case by (cases "n < 3"; cases "n < 11") (auto simp: bit_simps)
qed

lemma join_ext:
  "i < 2 ^ 29 \<Longrightarrow> push_bit 21 (take_bit 8 (drop_bit 21 i)) OR push_bit 18 (take_bit 3 (drop_bit 18 i)) OR
     push_bit 16 (take_bit 2 (drop_bit 16 i)) OR push_bit 8 (take_bit 8 (drop_bit 8 i)) OR take_bit 8 i = i" for i :: u32
proof (rule bit_word_eqI, goal_cases)
  case (1 n)
  have h: "\<not> bit i n" if "29 \<le> n" using high_bits[OF 1(1) _ that] by simp
  consider "n < 8" | "8 \<le> n" "n < 16" | "16 \<le> n" "n < 18" | "18 \<le> n" "n < 21" | "21 \<le> n" "n < 29" | "29 \<le> n" by linarith
  then show ?case using 1(2) h by cases (auto simp: bit_simps)
qed

definition frame_ok :: "can_frame \<Rightarrow> bool" where
  "frame_ok f \<longleftrightarrow> cf_dlc f \<le> 8 \<and> length (cf_data f) = 8 \<and> cf_id f < (if cf_extended f then 2 ^ 29 else 2 ^ 11)"

lemma and_flag: "x AND 0x08 \<noteq> 0 \<longleftrightarrow> bit x 3" "x AND 0x40 \<noteq> 0 \<longleftrightarrow> bit x 6" for x :: u8
  using and_exp_eq_0_iff_not_bit[of x 3] and_exp_eq_0_iff_not_bit[of x 6] by simp_all

lemma dlc_fields:
  fixes d :: u8 and r :: bool
  assumes "d \<le> 8"
  defines "v \<equiv> (if r then 0x40 else 0) OR (d AND 0x0F)"
  shows "v AND 0x0F = d" "bit v 6 = r"
proof -
  have t: "take_bit 4 d = d"
    using assms(1) by (intro take_bit_self_iff[THEN iffD2]) (auto simp: word_less_nat_alt word_le_nat_alt)
  have "v = (if r then 0x40 else 0) OR d" by (simp only: v_def and_literals t)
  then have v: "bit v k \<longleftrightarrow> r \<and> k = 6 \<or> bit d k" for k using bit_literals(4)[of k] by (simp add: bit_or_iff del: bit_numeral_word_iff)
  have d: "\<not> bit d k" if "4 \<le> k" for k using that bit_take_bit_iff[of 4 d k] t by simp
  have d': "k < 4" if "bit d k" for k using d[of k] that not_le by blast
  have "take_bit 4 v = d" by (rule bit_word_eqI) (use v d' in \<open>auto simp: bit_take_bit_iff\<close>)
  then show "v AND 0x0F = d" by (simp only: and_literals)
  show "bit v 6 = r" using v[of 6] d[of 6] by simp
qed

lemma header_fields:
  assumes "frame_ok f"
  shows "\<exists>sidh sidl eid8 eid0. frame_header f = [sidh, sidl, eid8, eid0, (if cf_extended f \<and> cf_rtr f then 0x40 else 0) OR (cf_dlc f AND 0x0F)] \<and>
    (sidl AND SIDL_EXIDE \<noteq> 0 \<longleftrightarrow> cf_extended f) \<and>
    (if \<not> cf_extended f then push_bit 3 (ucast sidh) OR ucast (drop_bit 5 sidl AND 0x07)
     else push_bit 21 (ucast sidh) OR push_bit 18 (ucast (drop_bit 5 sidl AND 0x07)) OR push_bit 16 (ucast (sidl AND 0x03)) OR
       push_bit 8 (ucast eid8) OR ucast eid0) = cf_id f"
proof (cases "cf_extended f")
  case False
  let ?i = "cf_id f" and ?r = "if cf_rtr f then 0x10 else 0 :: u32"
  let ?s = "ucast (push_bit 5 (take_bit 3 ?i) OR ?r OR take_bit 2 0) :: u8"
  have r: "bit ?r k \<longleftrightarrow> cf_rtr f \<and> k = 4" for k using bit_literals(1)[of k] by simp
  note s = sidl_fields[of ?r ?i 0]
  have "frame_header f = [ucast (take_bit 8 (drop_bit 3 ?i)), ?s, 0, 0, (if cf_extended f \<and> cf_rtr f then 0x40 else 0) OR (cf_dlc f AND 0x0F)]"
    using False by (simp add: frame_header_def SIDL_SRTR_def and_literals Let_def)
  moreover have "\<not> bit ?s 3" using s(3) r by simp
  moreover have "push_bit 3 (ucast (ucast (take_bit 8 (drop_bit 3 ?i)) :: u8)) OR ucast (take_bit 3 (drop_bit 5 ?s)) = ?i"
    using s(1) r join_std[of ?i] assms False by (simp add: ucast_byte frame_ok_def)
  ultimately show ?thesis
    using False by (intro exI[of _ "ucast (take_bit 8 (drop_bit 3 ?i))"] exI[of _ ?s] exI[of _ 0]) (simp add: and_flag SIDL_EXIDE_def and_literals)
next
  case True
  let ?i = "cf_id f"
  let ?s = "ucast (push_bit 5 (take_bit 3 (drop_bit 18 ?i)) OR 0x08 OR take_bit 2 (drop_bit 16 ?i)) :: u8"
  note s = sidl_fields[of "0x08" "drop_bit 18 ?i" "drop_bit 16 ?i"]
  have b: "bit (0x08 :: u32) k \<longleftrightarrow> k = 3" for k by (rule bit_literals(2))
  have "frame_header f = [ucast (take_bit 8 (drop_bit 21 ?i)), ?s, ucast (take_bit 8 (drop_bit 8 ?i)), ucast (take_bit 8 ?i),
      (if cf_extended f \<and> cf_rtr f then 0x40 else 0) OR (cf_dlc f AND 0x0F)]"
    using True by (simp add: frame_header_def SIDL_EXIDE_def and_literals Let_def)
  moreover have "bit ?s 3" using s(3) b by (simp del: bit_numeral_word_iff)
  moreover have "push_bit 21 (ucast (ucast (take_bit 8 (drop_bit 21 ?i)) :: u8)) OR push_bit 18 (ucast (take_bit 3 (drop_bit 5 ?s))) OR
      push_bit 16 (ucast (take_bit 2 ?s)) OR push_bit 8 (ucast (ucast (take_bit 8 (drop_bit 8 ?i)) :: u8)) OR ucast (ucast (take_bit 8 ?i) :: u8) = ?i"
    using s(1,2) b join_ext[of ?i] assms True by (simp add: ucast_byte frame_ok_def del: bit_numeral_word_iff)
  ultimately show ?thesis
    using True
    by (intro exI[of _ "ucast (take_bit 8 (drop_bit 21 ?i))"] exI[of _ ?s] exI[of _ "ucast (take_bit 8 (drop_bit 8 ?i))"] exI[of _ "ucast (take_bit 8 ?i)"])
      (simp add: and_flag SIDL_EXIDE_def and_literals)
qed

lemma decode_frame_regs:
  "decode_frame (z # [sidh, sidl, eid8, eid0, v] @ ds) g =
     \<lparr>cf_id = (if \<not> (sidl AND SIDL_EXIDE \<noteq> 0) then push_bit 3 (ucast sidh) OR ucast (drop_bit 5 sidl AND 0x07)
        else push_bit 21 (ucast sidh) OR push_bit 18 (ucast (drop_bit 5 sidl AND 0x07)) OR push_bit 16 (ucast (sidl AND 0x03)) OR
          push_bit 8 (ucast eid8) OR ucast eid0),
      cf_extended = (sidl AND SIDL_EXIDE \<noteq> 0), cf_rtr = (v AND 0x40 \<noteq> 0), cf_dlc = (if v AND 0x0F > 8 then 8 else v AND 0x0F),
      cf_data = take (unat (if v AND 0x0F > 8 then 8 else v AND 0x0F)) ds @
                drop (unat (if v AND 0x0F > 8 then 8 else v AND 0x0F)) (cf_data g)\<rparr>"
  unfolding decode_frame_def Let_def
  by (simp only: append_Cons append_Nil nth_Cons_0 nth_Cons_numeral drop_Cons_numeral drop0 nth_Cons_Suc One_nat_def
        diff_Suc_1 numeral_eq_one_iff if_False if_True Num.arith_simps pred_numeral_simps numeral_2_eq_2 numeral_eq_Suc BitM.simps drop_Suc_Cons)

section \<open>Properties\<close>

text \<open>
  C31: the transmit path writes a frame into registers from which the receive path recovers it:
  identifier, frame format, length and the data bytes of the length, for every standard and extended
  identifier. The remote-request flag only survives in extended frames: a standard remote frame
  comes back as a data frame. Whatever the frame, sending it never writes behind the message
  buffer.
\<close>

theorem can_frame_roundtrip:
  assumes "frame_ok f" and "length (cf_data g) = 8"
    and "regs = frame_header f @ take (unat (cf_dlc f)) (cf_data f)"
    and "spi_transfer B ((if idx = 0 then CMD_READ_RX0 else CMD_READ_RX1) # replicate 13 0) b1 = (b2, 0, z # regs @ pad)"
  shows "load_tx_buf B f b = Ret (spi_write B (CMD_LOAD_TX0 # regs) b) \<and>
    read_rx_buf B idx g b1 = (b2, 0, f\<lparr>cf_rtr := cf_extended f \<and> cf_rtr f,
      cf_data := take (unat (cf_dlc f)) (cf_data f) @ drop (unat (cf_dlc f)) (cf_data g)\<rparr>) \<and>
    (length (cf_data h) = 8 \<longrightarrow> mcp_send B h b \<noteq> Fault)"
proof -
  let ?n = "unat (cf_dlc f)" and ?v = "(if cf_extended f \<and> cf_rtr f then 0x40 else 0) OR (cf_dlc f AND 0x0F)"
  have n: "?n \<le> 8" using assms(1) by (simp add: frame_ok_def word_le_nat_alt)
  obtain sidh sidl eid8 eid0 where hd: "frame_header f = [sidh, sidl, eid8, eid0, ?v]"
    and ext: "sidl AND SIDL_EXIDE \<noteq> 0 \<longleftrightarrow> cf_extended f"
    and i: "(if \<not> cf_extended f then push_bit 3 (ucast sidh) OR ucast (drop_bit 5 sidl AND 0x07)
     else push_bit 21 (ucast sidh) OR push_bit 18 (ucast (drop_bit 5 sidl AND 0x07)) OR push_bit 16 (ucast (sidl AND 0x03)) OR
       push_bit 8 (ucast eid8) OR ucast eid0) = cf_id f"
    using header_fields[OF assms(1)] by blast
  have v: "?v AND 0x0F = cf_dlc f" "?v AND 0x40 \<noteq> 0 \<longleftrightarrow> cf_extended f \<and> cf_rtr f"
    using dlc_fields[of "cf_dlc f" "cf_extended f \<and> cf_rtr f"] assms(1) by (simp_all only: frame_ok_def and_flag)
  have le: "\<not> cf_dlc f > 8" using assms(1) by (simp add: frame_ok_def not_less)
  have "decode_frame (z # regs @ pad) g = f\<lparr>cf_rtr := cf_extended f \<and> cf_rtr f, cf_data := take ?n (cf_data f) @ drop ?n (cf_data g)\<rparr>"
    using n assms(1) unfolding assms(3) hd append_assoc decode_frame_regs
    by (simp only: v ext i le if_False) (simp add: frame_ok_def)
  moreover have "mcp_send B h b \<noteq> Fault" if "length (cf_data h) = 8"
    using that by (auto simp: mcp_send_def load_tx_buf_def Let_def word_less_nat_alt obind_Ret_iff split: prod.splits)
  ultimately show ?thesis
    using assms(1,3,4) n by (auto simp: load_tx_buf_def read_rx_buf_def Let_def frame_ok_def)
qed

text \<open>A controller whose receive buffer holds what was last loaded for transmission.\<close>

definition loop_chip :: "u8 list spi_bus" where
  "loop_chip = \<lparr>spi_write = (\<lambda>bs b. (if hd bs = CMD_LOAD_TX0 then tl bs else b, 0)), spi_transfer = (\<lambda>bs b. (b, 0, 0 # b @ [0]))\<rparr>"

theorem can_frame_roundtrip_witness:
  "let f = \<lparr>cf_id = 0x1ABCDEF1, cf_extended = True, cf_rtr = True, cf_dlc = 2, cf_data = [1, 2, 3, 4, 5, 6, 7, 8]\<rparr>;
       g = \<lparr>cf_id = 0, cf_extended = False, cf_rtr = False, cf_dlc = 0, cf_data = [9, 9, 9, 9, 9, 9, 9, 9]\<rparr>;
       regs = frame_header f @ take (unat (cf_dlc f)) (cf_data f)
   in frame_ok f \<and> load_tx_buf loop_chip f [] = Ret (regs, 0) \<and>
      read_rx_buf loop_chip 1 g regs = (regs, 0, f\<lparr>cf_data := [1, 2, 9, 9, 9, 9, 9, 9]\<rparr>)"
proof -
  let ?f = "\<lparr>cf_id = 0x1ABCDEF1, cf_extended = True, cf_rtr = True, cf_dlc = 2, cf_data = [1, 2, 3, 4, 5, 6, 7, 8]\<rparr>"
  let ?g = "\<lparr>cf_id = 0, cf_extended = False, cf_rtr = False, cf_dlc = 0, cf_data = [9, 9, 9, 9, 9, 9, 9, 9]\<rparr>"
  let ?r = "frame_header ?f @ take (unat (cf_dlc ?f)) (cf_data ?f)"
  have ok: "frame_ok ?f" by (simp add: frame_ok_def)
  have e: "cf_extended ?f \<and> cf_rtr ?f" "take (unat (cf_dlc ?f)) (cf_data ?f) @ drop (unat (cf_dlc ?f)) (cf_data ?g) = [1, 2, 9, 9, 9, 9, 9, 9]"
    by simp_all
  have "spi_transfer loop_chip ((if (1 :: u8) = 0 then CMD_READ_RX0 else CMD_READ_RX1) # replicate 13 0) ?r = (?r, 0, 0 # ?r @ [0])"
    "spi_write loop_chip (CMD_LOAD_TX0 # ?r) [] = (?r, 0)" by (simp_all add: loop_chip_def)
  with can_frame_roundtrip[where b = "[]" and h = ?f and g = ?g, OF ok _ refl this(1)] ok e show ?thesis by (simp add: Let_def)
qed

end
