(* ===== verification/Rtc_Chips.thy ===== *)
theory Rtc_Chips
  imports Calendar Buses
begin

text \<open>
  The clock chips of the real-time clock server: DS3231 (\<^verbatim>\<open>pkg/rtc/server/src/ds3231.cc\<close>),
  PCF85063A (\<^verbatim>\<open>pcf85063a.cc\<close>) and PL031 (\<^verbatim>\<open>pl031.cc\<close>), with the decimal coding of registers
  (\<^verbatim>\<open>bcd.h\<close>). A driver turns the offset between real time and the kernel's clock into registers
  and back. The kernel's clock at a call is its argument \<open>now\<close>; a chip is read as if its own
  clock had not moved since it was set.
\<close>

section \<open>Decimal coding\<close>

definition bcd2bin :: "u8 \<Rightarrow> u8" where
  "bcd2bin value = drop_bit 4 value * 10 + (value AND 0x0f)"

definition bin2bcd :: "u8 \<Rightarrow> u8" where
  "bin2bcd value = push_bit 4 (value div 10 mod 10) OR (value mod 10)"

text \<open>\<^verbatim>\<open>time_t\<close> has 32 bits; the clock counts nanoseconds.\<close>

definition time_t :: "u64 \<Rightarrow> int" where
  "time_t ns = sint (ucast (ns div 1000000000) :: u32)"

definition tm_ns :: "tm \<Rightarrow> u64" where
  "tm_ns t = word_of_int (timegm t) * 1000000000"

text \<open>A driver object: its capability (\<open>None\<close> when invalid), the bus, and what the stack holds.\<close>

record 'b rtc_dev =
  rd_cap :: "'b i2c_bus option"
  rd_bus :: 'b
  rd_junk :: "u8 list"

text \<open>A local register array after a read that delivered \<open>bs\<close>.\<close>

definition filled :: "nat \<Rightarrow> u8 list \<Rightarrow> u8 list \<Rightarrow> u8 list" where
  "filled n junk bs = take n (bs @ drop (length bs) junk)"

section \<open>DS3231\<close>

definition ds_seconds :: "u8 list \<Rightarrow> int" where
  "ds_seconds data = uint (bcd2bin (data ! 0))"

definition ds_minutes :: "u8 list \<Rightarrow> int" where
  "ds_minutes data = uint (bcd2bin (data ! 1))"

definition ds_hours :: "u8 list \<Rightarrow> int" where
  "ds_hours data =
     (let value = data ! 2
      in uint (value AND 0x0f) + (if value AND 0x10 \<noteq> 0 then 10 else 0) +
         (if value AND 0x20 \<noteq> 0 then if value AND 0x40 \<noteq> 0 then 12 else 20 else 0))"

definition ds_mday :: "u8 list \<Rightarrow> int" where
  "ds_mday data = uint (bcd2bin (data ! 4 AND 0x3f))"

definition ds_month :: "u8 list \<Rightarrow> int" where
  "ds_month data = uint (bcd2bin (data ! 5 AND 0x1f)) - 1"

definition ds_year :: "u8 list \<Rightarrow> int" where
  "ds_year data = uint (bcd2bin (data ! 6)) + (if data ! 5 AND 0x80 \<noteq> 0 then 100 else 0) + 100"

definition set_seconds :: "int \<Rightarrow> u8 list \<Rightarrow> u8 list" where
  "set_seconds sec data = data[0 := bin2bcd (word_of_int sec)]"

definition set_minutes :: "int \<Rightarrow> u8 list \<Rightarrow> u8 list" where
  "set_minutes mi data = data[1 := bin2bcd (word_of_int mi)]"

definition set_hours :: "int \<Rightarrow> u8 list \<Rightarrow> u8 list" where
  "set_hours hours data =
     data[2 := word_of_int (trem hours 10) OR
       (if 10 \<le> hours \<and> hours \<le> 19 then 0x10 else if 20 \<le> hours then 0x20 else 0)]"

definition set_wday :: "int \<Rightarrow> u8 list \<Rightarrow> u8 list" where
  "set_wday wday data = data[3 := word_of_int wday]"

definition set_mday :: "int \<Rightarrow> u8 list \<Rightarrow> u8 list" where
  "set_mday mday data = data[4 := bin2bcd (word_of_int mday)]"

definition set_month :: "int \<Rightarrow> u8 list \<Rightarrow> u8 list" where
  "set_month month data = data[5 := (data ! 5 AND 0xc0) OR bin2bcd (word_of_int (month + 1))]"

definition set_year :: "int \<Rightarrow> u8 list \<Rightarrow> u8 list" where
  "set_year year data =
     (let y = year - 100
      in data[6 := bin2bcd (word_of_int (trem y 100)),
              5 := (if y > 100 then data ! 5 OR 0x80 else data ! 5 AND 0x7f)])"

definition ds_raw :: "tm \<Rightarrow> u8 list" where
  "ds_raw t = set_seconds (tm_sec t) (set_minutes (tm_min t) (set_hours (tm_hour t) (set_wday (tm_wday t)
     (set_mday (tm_mday t) (set_month (tm_mon t) (set_year (tm_year t) (replicate 7 0)))))))"

definition ds_tm :: "u8 list \<Rightarrow> tm" where
  "ds_tm data = \<lparr>tm_sec = ds_seconds data, tm_min = ds_minutes data, tm_hour = ds_hours data, tm_mday = ds_mday data,
     tm_mon = ds_month data, tm_year = ds_year data, tm_wday = 0\<rparr>"

definition ds_set_time :: "u64 \<Rightarrow> u64 \<Rightarrow> 'b rtc_dev \<Rightarrow> 'b rtc_dev \<times> int" where
  "ds_set_time now offset_nsec c =
     (let data = ds_raw (gmtime (time_t (offset_nsec + now)))
      in case rd_cap c of
           None \<Rightarrow> (c, err ENODEV)
         | Some B \<Rightarrow> (case i2c_write B (0 # data) (rd_bus c) of (b, e) \<Rightarrow> (c\<lparr>rd_bus := b\<rparr>, e)))"

definition ds_get_time :: "u64 \<Rightarrow> 'b rtc_dev \<Rightarrow> 'b rtc_dev \<times> int \<times> u64 option" where
  "ds_get_time now c =
     (case rd_cap c of
        None \<Rightarrow> (c, err ENODEV, None)
      | Some B \<Rightarrow> (case i2c_write_read B [0] 7 (rd_bus c) of (b, e, bs) \<Rightarrow>
          if e \<noteq> 0 then (c\<lparr>rd_bus := b\<rparr>, e, None)
          else (c\<lparr>rd_bus := b\<rparr>, 0, Some (tm_ns (ds_tm (filled 7 (rd_junk c) bs)) - now))))"

text \<open>\<open>env\<close>: the capability the environment holds under the chip's name.\<close>

definition ds_probe :: "'b i2c_bus option \<Rightarrow> u64 \<Rightarrow> 'b rtc_dev \<Rightarrow> 'b rtc_dev \<times> bool" where
  "ds_probe env now c =
     (let c1 = c\<lparr>rd_cap := env\<rparr>
      in if env = None then (c1, False) else case ds_get_time now c1 of (c2, e, _) \<Rightarrow> (c2, e = 0))"

section \<open>PCF85063A\<close>

definition raw2tm :: "u8 list \<Rightarrow> tm" where
  "raw2tm data =
     \<lparr>tm_sec = uint (bcd2bin (data ! 4 AND 0x7f)), tm_min = uint (bcd2bin (data ! 5 AND 0x7f)),
      tm_hour = (if data ! 0 AND 0x02 \<noteq> 0
                 then uint (bcd2bin (data ! 6 AND 0x1f)) mod 12 + (if data ! 6 AND 0x20 \<noteq> 0 then 12 else 0)
                 else uint (bcd2bin (data ! 6 AND 0x3f))),
      tm_mday = uint (bcd2bin (data ! 7 AND 0x3f)), tm_mon = uint (bcd2bin (data ! 9 AND 0x1f)) - 1,
      tm_year = uint (bcd2bin (data ! 10)) + 100, tm_wday = uint (bcd2bin (data ! 8 AND 0x07))\<rparr>"

text \<open>Clear the bits of a mask and set them from a value; the other bits stay.\<close>

definition put_bits :: "u8 \<Rightarrow> u8 \<Rightarrow> u8 \<Rightarrow> u8" where
  "put_bits bits v old = (old AND NOT bits) OR (bits AND v)"

definition hour_bits :: "bool \<Rightarrow> int \<Rightarrow> u8" where
  "hour_bits twelve hour =
     (if twelve
      then let hr = word_of_int hour :: u8; pmbit = (if hr div 12 \<noteq> 0 then 0x20 else 0);
               hr12 = (if hr mod 12 = 0 then 12 else hr mod 12)
           in pmbit OR bin2bcd hr12
      else bin2bcd (word_of_int hour))"

definition tm2raw :: "tm \<Rightarrow> u8 list \<Rightarrow> u8 list" where
  "tm2raw t data =
     data[4 := 0x7f AND bin2bcd (word_of_int (tm_sec t)),
          5 := put_bits 0x7f (bin2bcd (word_of_int (tm_min t))) (data ! 5),
          6 := put_bits 0x3f (hour_bits (data ! 0 AND 0x02 \<noteq> 0) (tm_hour t)) (data ! 6),
          7 := put_bits 0x3f (bin2bcd (word_of_int (tm_mday t))) (data ! 7),
          8 := put_bits 0x07 (bin2bcd (word_of_int (tm_wday t))) (data ! 8),
          9 := put_bits 0x1f (bin2bcd (word_of_int (tm_mon t + 1))) (data ! 9),
          10 := bin2bcd (word_of_int (tm_year t - 100))]"

definition read_data :: "'b i2c_bus \<Rightarrow> 'b rtc_dev \<Rightarrow> 'b rtc_dev \<times> int \<times> u8 list" where
  "read_data B c =
     (case i2c_write_read B [0] 11 (rd_bus c) of (b, e, bs) \<Rightarrow> (c\<lparr>rd_bus := b\<rparr>, e, filled 11 (rd_junk c) bs))"

definition write_data :: "'b i2c_bus \<Rightarrow> u8 list \<Rightarrow> 'b rtc_dev \<Rightarrow> 'b rtc_dev \<times> int" where
  "write_data B data c = (case i2c_write B (0 # data) (rd_bus c) of (b, e) \<Rightarrow> (c\<lparr>rd_bus := b\<rparr>, e))"

definition pcf_get_time :: "u64 \<Rightarrow> 'b rtc_dev \<Rightarrow> 'b rtc_dev \<times> int \<times> u64 option" where
  "pcf_get_time now c =
     (case rd_cap c of
        None \<Rightarrow> (c, err ENODEV, None)
      | Some B \<Rightarrow> (case read_data B c of (c1, e, data) \<Rightarrow>
          if e \<noteq> 0 then (c1, e, None) else (c1, 0, Some (tm_ns (raw2tm data) - now))))"

definition pcf_set_time :: "u64 \<Rightarrow> u64 \<Rightarrow> 'b rtc_dev \<Rightarrow> 'b rtc_dev \<times> int" where
  "pcf_set_time now offset_nsec c =
     (case rd_cap c of
        None \<Rightarrow> (c, err ENODEV)
      | Some B \<Rightarrow> (case read_data B c of (c1, e, data) \<Rightarrow>
          if e \<noteq> 0 then (c1, e)
          else write_data B (tm2raw (gmtime (time_t (now + offset_nsec))) data) c1))"

definition pcf_probe :: "'b i2c_bus option \<Rightarrow> u64 \<Rightarrow> 'b rtc_dev \<Rightarrow> 'b rtc_dev \<times> bool" where
  "pcf_probe env now c =
     (let c1 = c\<lparr>rd_cap := env\<rparr>
      in if env = None then (c1, False) else case pcf_get_time now c1 of (c2, e, _) \<Rightarrow> (c2, e = 0))"

section \<open>PL031\<close>

text \<open>Register 0 is the counter, register 2 the load register; both count seconds.\<close>

definition pl_set_time :: "u64 \<Rightarrow> u64 \<Rightarrow> 'r mmio \<times> 'r \<Rightarrow> ('r mmio \<times> 'r) \<times> int" where
  "pl_set_time now nsec_offset_1970 c =
     (case c of (R, r) \<Rightarrow> ((R, mm_write R 2 (ucast ((nsec_offset_1970 + now) div 1000000000)) r), 0))"

definition pl_get_time :: "u64 \<Rightarrow> 'r mmio \<times> 'r \<Rightarrow> ('r mmio \<times> 'r) \<times> int \<times> u64 option" where
  "pl_get_time now c = (case c of (R, r) \<Rightarrow> (c, 0, Some (ucast (mm_read R 0 r) * 1000000000 - now)))"

section \<open>Registers and times\<close>

text \<open>Every value a field can take is checked.\<close>

lemma int_upto_all: "list_all P [0..hi] \<Longrightarrow> 0 \<le> x \<Longrightarrow> x \<le> hi \<Longrightarrow> P (x :: int)"
  by (simp add: list_all_iff)

lemma bcd_field:
  assumes "0 \<le> x" "x \<le> 99"
  shows "uint (bcd2bin (bin2bcd (word_of_int x))) = x"
  by (rule int_upto_all[OF _ assms]) code_simp

lemma ds_hour_field:
  assumes "0 \<le> x" "x \<le> 23"
  shows "ds_hours [a, b, word_of_int (trem x 10) OR (if 10 \<le> x \<and> x \<le> 19 then 0x10 else if 20 \<le> x then 0x20 else 0), d, e, f, g] = x"
proof -
  have "(let value = word_of_int (trem x 10) OR (if 10 \<le> x \<and> x \<le> 19 then 0x10 else if 20 \<le> x then 0x20 else 0) :: u8
     in uint (value AND 0x0f) + (if value AND 0x10 \<noteq> 0 then 10 else 0) +
         (if value AND 0x20 \<noteq> 0 then if value AND 0x40 \<noteq> 0 then 12 else 20 else 0)) = x"
    by (rule int_upto_all[OF _ assms]) code_simp
  then show ?thesis by (simp add: ds_hours_def)
qed

lemma ds_mday_field:
  assumes "0 \<le> x" "x \<le> 31"
  shows "uint (bcd2bin (bin2bcd (word_of_int x) AND 0x3f)) = x"
  by (rule int_upto_all[OF _ assms]) code_simp

lemma ds_month_field:
  assumes "0 \<le> x" "x \<le> 11" and "v = (if c then 0x80 else 0) AND 0xc0 OR bin2bcd (word_of_int (x + 1))"
  shows "uint (bcd2bin (v AND 0x1f)) - 1 = x" "v AND 0x80 \<noteq> 0 \<longleftrightarrow> c"
proof -
  have "list_all (\<lambda>c. uint (bcd2bin (((if c then 0x80 else 0) AND 0xc0 OR bin2bcd (word_of_int (x + 1))) AND 0x1f)) - 1 = x \<and>
     (((if c then 0x80 else 0) AND 0xc0 OR bin2bcd (word_of_int (x + 1))) AND 0x80 \<noteq> 0 \<longleftrightarrow> c)) [False, True]"
    by (rule int_upto_all[OF _ assms(1,2)]) code_simp
  then show "uint (bcd2bin (v AND 0x1f)) - 1 = x" "v AND 0x80 \<noteq> 0 \<longleftrightarrow> c"
    unfolding assms(3) by (cases c; simp)+
qed

lemma ds_raw_bytes:
  "ds_raw t = [bin2bcd (word_of_int (tm_sec t)), bin2bcd (word_of_int (tm_min t)),
     word_of_int (trem (tm_hour t) 10) OR
       (if 10 \<le> tm_hour t \<and> tm_hour t \<le> 19 then 0x10 else if 20 \<le> tm_hour t then 0x20 else 0),
     word_of_int (tm_wday t), bin2bcd (word_of_int (tm_mday t)),
     (if tm_year t > 200 then 0x80 else 0) AND 0xc0 OR bin2bcd (word_of_int (tm_mon t + 1)),
     bin2bcd (word_of_int (trem (tm_year t - 100) 100))]"
  by (simp add: ds_raw_def set_seconds_def set_minutes_def set_hours_def set_wday_def set_mday_def set_month_def set_year_def
      Let_def numeral_eq_Suc)

lemma ds_year_field:
  assumes "100 \<le> y" "y \<le> 299"
  shows "uint (bcd2bin (bin2bcd (word_of_int (trem (y - 100) 100)))) + (if y > 200 then 100 else 0) + 100 = (if y = 200 then 100 else y)"
proof -
  have "trem (y - 100) 100 = (if y < 200 then y - 100 else y - 200)"
  proof (cases "y < 200")
    case True
    then show ?thesis using assms by (simp add: trem_def tdiv_def)
  next
    case False
    then have "(y - 100) div 100 = 1" using assms by (simp add: int_div_pos_eq[of _ _ 1 "y - 200"])
    then show ?thesis using assms False by (simp add: trem_def tdiv_def)
  qed
  moreover have "uint (bcd2bin (bin2bcd (word_of_int (if y < 200 then y - 100 else y - 200)))) = (if y < 200 then y - 100 else y - 200)"
    using assms by (intro bcd_field) auto
  ultimately show ?thesis by auto
qed

text \<open>The registers keep every field but the week day; of the years 2000 to 2199, 2100 comes back as 2000.\<close>

lemma ds_registers:
  assumes "tm_ok t" and "100 \<le> tm_year t" "tm_year t \<le> 299"
  shows "ds_tm (ds_raw t) = t\<lparr>tm_wday := 0, tm_year := (if tm_year t = 200 then 100 else tm_year t)\<rparr>"
proof -
  have b: "0 \<le> tm_sec t" "tm_sec t \<le> 99" "0 \<le> tm_min t" "tm_min t \<le> 99" "0 \<le> tm_hour t" "tm_hour t \<le> 23"
    "0 \<le> tm_mday t" "tm_mday t \<le> 31" "0 \<le> tm_mon t" "tm_mon t \<le> 11"
    using assms(1) by (simp_all add: tm_ok_def)
  show ?thesis
    unfolding ds_tm_def ds_raw_bytes
    using bcd_field[OF b(1,2)] bcd_field[OF b(3,4)] ds_hour_field[OF b(5,6)] ds_mday_field[OF b(7,8)]
      ds_month_field[OF b(9,10) refl, of "tm_year t > 200"] ds_year_field[OF assms(2,3)]
    by (simp add: ds_seconds_def ds_minutes_def ds_mday_def ds_month_def ds_year_def)
qed

lemma put_bits_and: "m' AND bits = m' \<Longrightarrow> put_bits bits v old AND m' = v AND m'"
  unfolding put_bits_def by (rule bit_word_eqI) (auto simp: bit_simps dest: arg_cong[where f = "\<lambda>w. bit w _"])

lemma pcf_fields:
  "0 \<le> x \<Longrightarrow> x \<le> 59 \<Longrightarrow> uint (bcd2bin (bin2bcd (word_of_int x) AND 0x7f)) = x"
  "0 \<le> x \<Longrightarrow> x \<le> 31 \<Longrightarrow> uint (bcd2bin (bin2bcd (word_of_int x) AND 0x3f)) = x"
  "0 \<le> x \<Longrightarrow> x \<le> 6 \<Longrightarrow> uint (bcd2bin (bin2bcd (word_of_int x) AND 0x07)) = x"
  "0 \<le> x \<Longrightarrow> x \<le> 11 \<Longrightarrow> uint (bcd2bin (bin2bcd (word_of_int (x + 1)) AND 0x1f)) - 1 = x"
proof -
  have "list_all (\<lambda>x. uint (bcd2bin (bin2bcd (word_of_int x) AND 0x7f)) = x) [0..59]"
    "list_all (\<lambda>x. uint (bcd2bin (bin2bcd (word_of_int x) AND 0x3f)) = x) [0..31]"
    "list_all (\<lambda>x. uint (bcd2bin (bin2bcd (word_of_int x) AND 0x07)) = x) [0..6]"
    "list_all (\<lambda>x. uint (bcd2bin (bin2bcd (word_of_int (x + 1)) AND 0x1f)) - 1 = x) [0..11]"
    by code_simp+
  note this[THEN int_upto_all]
  then show "0 \<le> x \<Longrightarrow> x \<le> 59 \<Longrightarrow> uint (bcd2bin (bin2bcd (word_of_int x) AND 0x7f)) = x"
    "0 \<le> x \<Longrightarrow> x \<le> 31 \<Longrightarrow> uint (bcd2bin (bin2bcd (word_of_int x) AND 0x3f)) = x"
    "0 \<le> x \<Longrightarrow> x \<le> 6 \<Longrightarrow> uint (bcd2bin (bin2bcd (word_of_int x) AND 0x07)) = x"
    "0 \<le> x \<Longrightarrow> x \<le> 11 \<Longrightarrow> uint (bcd2bin (bin2bcd (word_of_int (x + 1)) AND 0x1f)) - 1 = x"
    by blast+
qed

lemma pcf_hour_field:
  assumes "0 \<le> x" "x \<le> 23"
  shows "(if twelve
     then uint (bcd2bin (hour_bits twelve x AND 0x1f)) mod 12 + (if hour_bits twelve x AND 0x20 \<noteq> 0 then 12 else 0)
     else uint (bcd2bin (hour_bits twelve x AND 0x3f))) = x"
proof -
  have "list_all (\<lambda>twelve. (if twelve
     then uint (bcd2bin (hour_bits twelve x AND 0x1f)) mod 12 + (if hour_bits twelve x AND 0x20 \<noteq> 0 then 12 else 0)
     else uint (bcd2bin (hour_bits twelve x AND 0x3f))) = x) [False, True]"
    by (rule int_upto_all[OF _ assms]) code_simp
  then show ?thesis by (cases twelve) simp_all
qed

text \<open>The registers keep every field for the years 2000 to 2099, in the 12 hour and in the 24 hour mode.\<close>

lemma pcf_registers:
  assumes "tm_ok t" and "100 \<le> tm_year t" "tm_year t \<le> 199" and "length data = 11"
  shows "raw2tm (tm2raw t data) = t" "length (tm2raw t data) = 11"
proof -
  have b: "0 \<le> tm_sec t" "tm_sec t \<le> 59" "0 \<le> tm_min t" "tm_min t \<le> 59" "0 \<le> tm_hour t" "tm_hour t \<le> 23"
    "0 \<le> tm_mday t" "tm_mday t \<le> 31" "0 \<le> tm_mon t" "tm_mon t \<le> 11" "0 \<le> tm_wday t" "tm_wday t \<le> 6"
    using assms(1) by (simp_all add: tm_ok_def)
  have y: "uint (bcd2bin (bin2bcd (word_of_int (tm_year t - 100)))) = tm_year t - 100"
    using assms(2,3) by (intro bcd_field) simp_all
  have s: "(0x7f AND v) AND 0x7f = v AND 0x7f" for v :: u8 by (simp add: and.commute and.left_commute)
  have m: "put_bits 0x7f v old AND 0x7f = v AND 0x7f" "put_bits 0x3f v old AND 0x3f = v AND 0x3f" "put_bits 0x3f v old AND 0x1f = v AND 0x1f"
    "put_bits 0x3f v old AND 0x20 = v AND 0x20" "put_bits 0x07 v old AND 0x07 = v AND 0x07" "put_bits 0x1f v old AND 0x1f = v AND 0x1f" for v old
    by (intro put_bits_and; simp)+
  show "length (tm2raw t data) = 11" using assms(4) by (simp add: tm2raw_def)
  have len: "k < length data" if "k < 11" for k using that assms(4) by simp
  have n: "tm2raw t data ! 0 = data ! 0" "tm2raw t data ! 4 = 0x7f AND bin2bcd (word_of_int (tm_sec t))"
    "tm2raw t data ! 5 = put_bits 0x7f (bin2bcd (word_of_int (tm_min t))) (data ! 5)"
    "tm2raw t data ! 6 = put_bits 0x3f (hour_bits (data ! 0 AND 0x02 \<noteq> 0) (tm_hour t)) (data ! 6)"
    "tm2raw t data ! 7 = put_bits 0x3f (bin2bcd (word_of_int (tm_mday t))) (data ! 7)"
    "tm2raw t data ! 8 = put_bits 0x07 (bin2bcd (word_of_int (tm_wday t))) (data ! 8)"
    "tm2raw t data ! 9 = put_bits 0x1f (bin2bcd (word_of_int (tm_mon t + 1))) (data ! 9)"
    "tm2raw t data ! 10 = bin2bcd (word_of_int (tm_year t - 100))"
    by (simp_all only: tm2raw_def) (simp_all add: len)
  show "raw2tm (tm2raw t data) = t"
    unfolding raw2tm_def n s m pcf_fields(1)[OF b(1,2)] pcf_fields(1)[OF b(3,4)] pcf_fields(2)[OF b(7,8)]
      pcf_fields(3)[OF b(11,12)] pcf_fields(4)[OF b(9,10)] y pcf_hour_field[OF b(5,6)] by simp
qed

section \<open>The contract of a clock chip\<close>

text \<open>A real time in nanoseconds whose second the chips can keep: from the year 2000 until \<^verbatim>\<open>time_t\<close> ends.\<close>

definition in_era :: "u64 \<Rightarrow> bool" where
  "in_era ns \<longleftrightarrow> 946684800 \<le> unat ns div 1000000000 \<and> unat ns div 1000000000 < 2 ^ 31"

definition full_second :: "u64 \<Rightarrow> u64" where
  "full_second ns = ns div 1000000000 * 1000000000"

text \<open>
  Setting the time in a chip that works and reading it at any later value of the kernel's clock
  gives the offset that shows the time that was set, without its fraction of a second.
\<close>

locale rtc_chip =
  fixes works :: "'c \<Rightarrow> bool"
    and set_time :: "u64 \<Rightarrow> u64 \<Rightarrow> 'c \<Rightarrow> 'c \<times> int"
    and get_time :: "u64 \<Rightarrow> 'c \<Rightarrow> 'c \<times> int \<times> u64 option"
  assumes set_get: "works c \<Longrightarrow> in_era (off + now) \<Longrightarrow>
    \<exists>c'. set_time now off c = (c', 0) \<and> works c' \<and> (\<forall>now'. get_time now' c' = (c', 0, Some (full_second (off + now) - now')))"

lemma time_t_era: "in_era ns \<Longrightarrow> time_t ns = int (unat ns div 1000000000)"
proof -
  assume e: "in_era ns"
  let ?n = "unat ns div 1000000000"
  have n: "?n < 2 ^ 31" using e by (simp add: in_era_def)
  have "unat (ns div 1000000000) = ?n" by (simp add: unat_div)
  then have "unat (ucast (ns div 1000000000) :: u32) = ?n"
    using n by (simp add: unsigned_ucast_eq take_bit_nat_eq_self)
  then show ?thesis using n sint_small[of "ucast (ns div 1000000000) :: u32"] by (simp add: time_t_def)
qed

lemma tm_ns_gmtime:
  assumes "in_era ns" and "tm_secs t = tm_secs (gmtime (time_t ns))"
  shows "tm_ns t = full_second ns"
proof -
  let ?n = "unat ns div 1000000000"
  have "tm_secs t = int ?n" using assms by (simp add: tm_secs_gmtime time_t_era)
  then have "timegm t = int ?n" using assms(1) by (simp add: timegm_def in_era_def)
  moreover have "word_of_int (int ?n) = ns div 1000000000" by (simp add: word_arith_nat_div)
  ultimately show ?thesis by (simp add: tm_ns_def full_second_def)
qed

lemma era_tm:
  assumes "in_era ns"
  shows "tm_ok (gmtime (time_t ns))" "100 \<le> tm_year (gmtime (time_t ns))" "tm_year (gmtime (time_t ns)) \<le> 138"
  using assms gmtime_ok gmtime_year[of "time_t ns"] by (auto simp: time_t_era in_era_def)

text \<open>What the chips and their buses do, from the data sheets.\<close>

definition ds_works :: "'b rtc_dev \<Rightarrow> bool" where
  "ds_works c \<longleftrightarrow> (\<exists>B regs. rd_cap c = Some B \<and> register_file 7 B regs)"

definition pcf_works :: "'b rtc_dev \<Rightarrow> bool" where
  "pcf_works c \<longleftrightarrow> (\<exists>B regs. rd_cap c = Some B \<and> register_file 11 B regs)"

definition pl_works :: "'r mmio \<times> 'r \<Rightarrow> bool" where
  "pl_works c \<longleftrightarrow> (\<forall>v r. mm_read (fst c) 0 (mm_write (fst c) 2 v r) = v)"

lemma filled_exact: "length bs = n \<Longrightarrow> filled n junk bs = bs"
  by (simp add: filled_def)

interpretation ds3231: rtc_chip ds_works ds_set_time ds_get_time
proof
  fix c :: "'b rtc_dev" and off now assume w: "ds_works c" and e: "in_era (off + now)"
  let ?t = "gmtime (time_t (off + now))"
  obtain B regs where B: "rd_cap c = Some B" "register_file 7 B regs" using w by (auto simp: ds_works_def)
  have l: "length (ds_raw ?t) = 7" by (simp add: ds_raw_bytes)
  obtain b where b: "i2c_write B (0 # ds_raw ?t) (rd_bus c) = (b, 0)" "regs b = ds_raw ?t"
    using B(2) l unfolding register_file_def by blast
  have r: "i2c_write_read B [0] 7 b = (b, 0, ds_raw ?t)" using B(2) b(2) by (simp add: register_file_def)
  have "ds_tm (ds_raw ?t) = ?t\<lparr>tm_wday := 0\<rparr>" using ds_registers[of ?t] era_tm[OF e] by simp
  then have "tm_ns (ds_tm (ds_raw ?t)) = full_second (off + now)" by (intro tm_ns_gmtime[OF e]) (simp add: tm_secs_def)
  then show "\<exists>c'. ds_set_time now off c = (c', 0) \<and> ds_works c' \<and> (\<forall>now'. ds_get_time now' c' = (c', 0, Some (full_second (off + now) - now')))"
    using B b r l by (intro exI[of _ "c\<lparr>rd_bus := b\<rparr>"]) (auto simp: ds_set_time_def ds_get_time_def ds_works_def filled_exact)
qed

interpretation pcf85063a: rtc_chip pcf_works pcf_set_time pcf_get_time
proof
  fix c :: "'b rtc_dev" and off now assume w: "pcf_works c" and e: "in_era (off + now)"
  let ?t = "gmtime (time_t (off + now))"
  obtain B regs where B: "rd_cap c = Some B" "register_file 11 B regs" using w by (auto simp: pcf_works_def)
  define data where "data = tm2raw ?t (regs (rd_bus c))"
  have l: "length (regs (rd_bus c)) = 11" "i2c_write_read B [0] 11 (rd_bus c) = (rd_bus c, 0, regs (rd_bus c))"
    using B(2) by (simp_all add: register_file_def)
  have d: "raw2tm data = ?t" "length data = 11" using pcf_registers[OF _ _ _ l(1), of ?t] era_tm[OF e] by (simp_all add: data_def)
  obtain b where b: "i2c_write B (0 # data) (rd_bus c) = (b, 0)" "regs b = data"
    using B(2) d(2) unfolding register_file_def by blast
  have r: "i2c_write_read B [0] 11 b = (b, 0, data)" using B(2) b(2) by (simp add: register_file_def)
  have "tm_ns (raw2tm data) = full_second (off + now)" by (intro tm_ns_gmtime[OF e]) (simp add: d)
  then show "\<exists>c'. pcf_set_time now off c = (c', 0) \<and> pcf_works c' \<and> (\<forall>now'. pcf_get_time now' c' = (c', 0, Some (full_second (off + now) - now')))"
    using B b r l d(2) by (intro exI[of _ "c\<lparr>rd_bus := b\<rparr>"])
      (auto simp: pcf_set_time_def pcf_get_time_def pcf_works_def read_data_def write_data_def filled_exact add.commute[of now] data_def[symmetric])
qed

interpretation pl031: rtc_chip pl_works pl_set_time pl_get_time
proof
  fix c :: "'r mmio \<times> 'r" and off now assume w: "pl_works c" and e: "in_era (off + now)"
  let ?s = "(off + now) div 1000000000"
  have "?s < 2 ^ 32" using e by (simp add: in_era_def unat_div word_less_nat_alt)
  then have "take_bit 32 ?s = ?s" by (subst take_bit_self_iff) simp_all
  moreover have "ucast (ucast x :: u32) = take_bit 32 x" for x :: u64 by (rule bit_word_eqI) (auto simp: bit_simps)
  ultimately have "ucast (ucast ?s :: u32) = ?s" by metis
  then show "\<exists>c'. pl_set_time now off c = (c', 0) \<and> pl_works c' \<and> (\<forall>now'. pl_get_time now' c' = (c', 0, Some (full_second (off + now) - now')))"
    using w by (cases c) (simp add: pl_set_time_def pl_get_time_def pl_works_def full_second_def)
qed

section \<open>Properties\<close>

text \<open>
  C34: the registers of the clock chips keep a time. Whatever the date and time of day, the DS3231
  registers written for it read back as the same time for the years 2000 to 2199, except 2100,
  which comes back as 2000; the PCF85063A registers read back as the same time for the years 2000
  to 2099, whether the chip is in its 12 hour or its 24 hour mode and whatever its other bits are.
\<close>

theorem clock_registers_roundtrip:
  assumes "tm_ok t" and "100 \<le> tm_year t"
  shows "(tm_year t \<le> 299 \<longrightarrow> ds_tm (ds_raw t) = t\<lparr>tm_wday := 0, tm_year := (if tm_year t = 200 then 100 else tm_year t)\<rparr>) \<and>
    (tm_year t \<le> 199 \<longrightarrow> length data = 11 \<longrightarrow> raw2tm (tm2raw t data) = t)"
  using ds_registers[OF assms] pcf_registers(1)[OF assms] by blast

theorem clock_registers_roundtrip_witness:
  "let t = \<lparr>tm_sec = 59, tm_min = 7, tm_hour = 12, tm_mday = 29, tm_mon = 1, tm_year = 124, tm_wday = 4\<rparr>
   in tm_ok t \<and> ds_tm (ds_raw t) = t\<lparr>tm_wday := 0\<rparr> \<and> raw2tm (tm2raw t (2 # replicate 10 0xff)) = t"
  using clock_registers_roundtrip[of "\<lparr>tm_sec = 59, tm_min = 7, tm_hour = 12, tm_mday = 29, tm_mon = 1, tm_year = 124, tm_wday = 4\<rparr>" "2 # replicate 10 0xff"]
  by (simp add: tm_ok_def)

end
