(* ===== verification/Rtc.thy ===== *)
theory Rtc
  imports Rtc_Chips Shell_Sys
begin

text \<open>
  The real-time clock server, \<^verbatim>\<open>pkg/rtc/server/src/main.cc\<close>: it keeps the offset between real time
  and the kernel's clock (class \<^verbatim>\<open>Clock\<close>), reads it from the chip at start and after a suspend,
  writes it back when a client sets the time, and tells the clients that asked for it through
  their interrupts (class \<^verbatim>\<open>Rtc_svr\<close>); with the clock of the C library that starts from the offset
  (\<^verbatim>\<open>pkg/rtc/lib/libc_backend/gettime.cc\<close>). The chip is one of those of \<^verbatim>\<open>Rtc_Chips\<close>, called through
  the virtual methods of \<^verbatim>\<open>struct Rtc\<close>.
\<close>

section \<open>Chips\<close>

datatype ('b, 'r) rtc = DS3231 "'b rtc_dev" | PCF85063A "'b rtc_dev" | PL031 "'r mmio \<times> 'r"

fun rtc_set_time :: "u64 \<Rightarrow> u64 \<Rightarrow> ('b, 'r) rtc \<Rightarrow> ('b, 'r) rtc \<times> int" where
  "rtc_set_time now off (DS3231 c) = (case ds_set_time now off c of (c', e) \<Rightarrow> (DS3231 c', e))"
| "rtc_set_time now off (PCF85063A c) = (case pcf_set_time now off c of (c', e) \<Rightarrow> (PCF85063A c', e))"
| "rtc_set_time now off (PL031 c) = (case pl_set_time now off c of (c', e) \<Rightarrow> (PL031 c', e))"

fun rtc_get_time :: "u64 \<Rightarrow> ('b, 'r) rtc \<Rightarrow> ('b, 'r) rtc \<times> int \<times> u64 option" where
  "rtc_get_time now (DS3231 c) = (case ds_get_time now c of (c', r) \<Rightarrow> (DS3231 c', r))"
| "rtc_get_time now (PCF85063A c) = (case pcf_get_time now c of (c', r) \<Rightarrow> (PCF85063A c', r))"
| "rtc_get_time now (PL031 c) = (case pl_get_time now c of (c', r) \<Rightarrow> (PL031 c', r))"

text \<open>The first chip of the list whose probe succeeds; every probe may change its driver object.\<close>

fun find_rtc :: "('c \<Rightarrow> 'c \<times> bool) \<Rightarrow> 'c list \<Rightarrow> 'c option" where
  "find_rtc probe [] = None"
| "find_rtc probe (c # cs) = (case probe c of (c', ok) \<Rightarrow> if ok then Some c' else find_rtc probe cs)"

section \<open>The server\<close>

text \<open>Calls to the inhibitor of the virtual bus.\<close>

datatype vbus_call = Acquire_suspend | Acquire_wakeup | Release_suspend

record 'c rtc_server =
  rs_offset_1970 :: u64
  rs_valid :: bool
  rs_rtc :: 'c
  rs_client_irqs :: "cap list"
  rs_triggered :: "cap list"
  rs_vbus :: "vbus_call list"

text \<open>
  \<open>gone\<close> says which interrupts no longer exist when they are triggered: these are dropped.
\<close>

definition notify_clients :: "(cap \<Rightarrow> bool) \<Rightarrow> 'c rtc_server \<Rightarrow> 'c rtc_server" where
  "notify_clients gone s = s\<lparr>rs_triggered := rs_triggered s @ rs_client_irqs s,
     rs_client_irqs := filter (\<lambda>c. \<not> gone c) (rs_client_irqs s)\<rparr>"

text \<open>
  \<open>get\<close> and \<open>put\<close> are the virtual methods of the chip at the kernel time of the call; \<open>junk\<close> is the
  uninitialised local variable, which is read when the chip reports no error but no time.
\<close>

definition update_clock ::
  "('c \<Rightarrow> 'c \<times> int \<times> u64 option) \<Rightarrow> u64 \<Rightarrow> (cap \<Rightarrow> bool) \<Rightarrow> 'c rtc_server \<Rightarrow> 'c rtc_server" where
  "update_clock get junk gone s =
     (case get (rs_rtc s) of (c, e, off) \<Rightarrow>
        let s1 = s\<lparr>rs_rtc := c, rs_valid := False\<rparr>
        in if e < 0 then s1
           else notify_clients gone (s1\<lparr>rs_offset_1970 := (case off of Some x \<Rightarrow> x | None \<Rightarrow> junk), rs_valid := True\<rparr>))"

definition set_offset_1970 ::
  "(u64 \<Rightarrow> 'c \<Rightarrow> 'c \<times> int) \<Rightarrow> (cap \<Rightarrow> bool) \<Rightarrow> u64 \<Rightarrow> 'c rtc_server \<Rightarrow> 'c rtc_server" where
  "set_offset_1970 put gone off s =
     (case put off (rs_rtc s) of (c, e) \<Rightarrow>
        notify_clients gone (s\<lparr>rs_offset_1970 := off, rs_rtc := c, rs_valid := (if e < 0 then False else rs_valid s)\<rparr>))"

text \<open>The construction of the server around a chip that was found: no client is bound yet.\<close>

definition rtc_start :: "('c \<Rightarrow> 'c \<times> int \<times> u64 option) \<Rightarrow> u64 \<Rightarrow> 'c \<Rightarrow> 'c rtc_server" where
  "rtc_start get junk c =
     (let s = update_clock get junk (\<lambda>_. False)
        \<lparr>rs_offset_1970 = 0, rs_valid = False, rs_rtc = c, rs_client_irqs = [], rs_triggered = [], rs_vbus = []\<rparr>
      in s\<lparr>rs_vbus := rs_vbus s @ [Acquire_suspend, Acquire_wakeup]\<rparr>)"

definition op_get_timer_offset :: "'c rtc_server \<Rightarrow> u64 \<times> int" where
  "op_get_timer_offset s = (rs_offset_1970 s, if rs_valid s then 0 else 1)"

definition op_set_timer_offset ::
  "(u64 \<Rightarrow> 'c \<Rightarrow> 'c \<times> int) \<Rightarrow> (cap \<Rightarrow> bool) \<Rightarrow> u64 \<Rightarrow> 'c rtc_server \<Rightarrow> 'c rtc_server \<times> int" where
  "op_set_timer_offset put gone off s =
     (let s' = set_offset_1970 put gone off s in (s', if rs_valid s' then 0 else 1))"

text \<open>
  What the kernel answers while a client binds its interrupt: whether a capability came with the
  message, whether the receive slot is valid and holds an object, the slot allocated for the weak
  copy, and whether the mapping succeeds.
\<close>

record bind_env =
  be_received :: bool
  be_slot_valid :: bool
  be_cap_valid :: bool
  be_new :: "cap option"
  be_map_ok :: bool

definition op_bind :: "bind_env \<Rightarrow> u32 \<Rightarrow> 'c rtc_server \<Rightarrow> 'c rtc_server \<times> int" where
  "op_bind K irqnum s =
     (if irqnum \<noteq> 0 then (s, err ERANGE)
      else if \<not> be_received K \<or> \<not> be_slot_valid K \<or> \<not> be_cap_valid K then (s, err EINVAL)
      else case be_new K of
        None \<Rightarrow> (s, err ENOMEM)
      | Some c \<Rightarrow> if \<not> be_map_ok K then (s, err EINVAL) else (s\<lparr>rs_client_irqs := rs_client_irqs s @ [c]\<rparr>, 0))"

text \<open>\<open>same\<close>: the kernel's comparison of a stored capability with the one received.\<close>

definition op_unbind :: "bind_env \<Rightarrow> (cap \<Rightarrow> bool) \<Rightarrow> 'c rtc_server \<Rightarrow> 'c rtc_server \<times> int" where
  "op_unbind K same s =
     (if \<not> be_received K \<or> \<not> be_slot_valid K then (s, err EINVAL)
      else (s\<lparr>rs_client_irqs := filter (\<lambda>c. \<not> same c) (rs_client_irqs s)\<rparr>, 0))"

text \<open>Power management events; a wakeup carries what the chip and the clients do meanwhile.\<close>

datatype 'c vbus_event =
    Other_event
  | Suspend_event
  | Wakeup_event "'c \<Rightarrow> 'c \<times> int \<times> u64 option" u64 "cap \<Rightarrow> bool"

fun handle_event :: "'c vbus_event \<Rightarrow> 'c rtc_server \<Rightarrow> 'c rtc_server" where
  "handle_event Other_event s = s"
| "handle_event Suspend_event s = s\<lparr>rs_vbus := rs_vbus s @ [Release_suspend]\<rparr>"
| "handle_event (Wakeup_event get junk gone) s = update_clock get junk gone (s\<lparr>rs_vbus := rs_vbus s @ [Acquire_suspend]\<rparr>)"

definition handle_irq :: "'c vbus_event list \<Rightarrow> 'c rtc_server \<Rightarrow> 'c rtc_server" where
  "handle_irq es s = fold handle_event es s"

section \<open>The clock of the C library\<close>

text \<open>The offset a process keeps from its start on; \<open>None\<close> when it has no capability to the server.\<close>

definition Rtc_be :: "'c rtc_server option \<Rightarrow> u64" where
  "Rtc_be rtc = (case rtc of None \<Rightarrow> 0 | Some s \<Rightarrow> fst (op_get_timer_offset s))"

definition rt_clock_gettime :: "u64 \<Rightarrow> u64 \<Rightarrow> nat \<times> nat" where
  "rt_clock_gettime offset timer =
     (let now = offset + timer in (unat (now div 1000000000), unat (now mod 1000000000)))"

section \<open>A server on a chip\<close>

lemma notify_simps [simp]:
  "rs_offset_1970 (notify_clients gone s) = rs_offset_1970 s" "rs_valid (notify_clients gone s) = rs_valid s"
  "rs_rtc (notify_clients gone s) = rs_rtc s" "rs_triggered (notify_clients gone s) = rs_triggered s @ rs_client_irqs s"
  "rs_client_irqs (notify_clients gone s) = filter (\<lambda>c. \<not> gone c) (rs_client_irqs s)" "rs_vbus (notify_clients gone s) = rs_vbus s"
  by (simp_all add: notify_clients_def)

text \<open>What every chip with the contract gives the server; the statements do not depend on which it is.\<close>

context rtc_chip
begin

lemma set_then_wakeup:
  assumes "works (rs_rtc s)" and "in_era (off + now)" and "rs_valid s"
  obtains s' where "op_set_timer_offset (set_time now) gone off s = (s', 0)" and "op_get_timer_offset s' = (off, 0)"
    and "rs_triggered s' = rs_triggered s @ rs_client_irqs s" and "works (rs_rtc s')"
    and "\<And>now' junk gone'. op_get_timer_offset (handle_irq [Suspend_event, Wakeup_event (get_time now') junk gone'] s') =
      (full_second (off + now) - now', 0)"
    and "\<And>now' junk gone'. rs_triggered (handle_irq [Suspend_event, Wakeup_event (get_time now') junk gone'] s') =
      rs_triggered s' @ rs_client_irqs s'"
proof -
  obtain c' where c: "set_time now off (rs_rtc s) = (c', 0)" "works c'"
    "\<And>now'. get_time now' c' = (c', 0, Some (full_second (off + now) - now'))"
    using set_get[OF assms(1,2)] by blast
  show thesis
    by (rule that[of "fst (op_set_timer_offset (set_time now) gone off s)"])
      (simp_all add: op_set_timer_offset_def set_offset_1970_def op_get_timer_offset_def handle_irq_def update_clock_def Let_def c assms(3))
qed

end

fun rtc_works :: "('b, 'r) rtc \<Rightarrow> bool" where
  "rtc_works (DS3231 c) = ds_works c"
| "rtc_works (PCF85063A c) = pcf_works c"
| "rtc_works (PL031 c) = pl_works c"

text \<open>The virtual methods keep the contract because each chip does.\<close>

interpretation chip: rtc_chip "rtc_works :: ('b, 'r) rtc \<Rightarrow> bool" rtc_set_time rtc_get_time
proof
  fix c :: "('b, 'r) rtc" and off now assume w: "rtc_works c" and e: "in_era (off + now)"
  show "\<exists>c'. rtc_set_time now off c = (c', 0) \<and> rtc_works c' \<and> (\<forall>now'. rtc_get_time now' c' = (c', 0, Some (full_second (off + now) - now')))"
  proof (cases c)
    case (DS3231 d)
    with ds3231.set_get[of d, OF _ e] w show ?thesis by fastforce
  next
    case (PCF85063A d)
    with pcf85063a.set_get[of d, OF _ e] w show ?thesis by fastforce
  next
    case (PL031 d)
    with pl031.set_get[of d, OF _ e] w show ?thesis by fastforce
  qed
qed

text \<open>
  A server that could not read its chip at start reports every setting as failed, although the
  chip takes the time and the new offset is the one handed out: only reading the chip again makes
  the clock valid.
\<close>

lemma set_keeps_invalid:
  "\<not> rs_valid s \<Longrightarrow> op_set_timer_offset put gone off s = (s', r) \<Longrightarrow> r = 1 \<and> \<not> rs_valid s' \<and> rs_offset_1970 s' = off"
  by (auto simp: op_set_timer_offset_def set_offset_1970_def Let_def split: prod.splits if_splits)

section \<open>Properties\<close>

lemma unat_seconds: "T < 2 ^ 31 \<Longrightarrow> unat (of_nat (T * 1000000000) :: u64) = T * 1000000000"
  unfolding unsigned_of_nat by (simp add: take_bit_nat_eq_self)

lemma full_second_exact:
  assumes "T < 2 ^ 31" and "\<delta> < 1000000000" and "ns = of_nat (T * 1000000000) + (\<delta> :: u64)"
  shows "unat ns div 1000000000 = T" "full_second ns = of_nat (T * 1000000000)"
proof -
  have d: "unat \<delta> < 1000000000" using assms(2) by (simp add: word_less_nat_alt)
  note T = unat_seconds[OF assms(1)]
  have n: "unat ns = T * 1000000000 + unat \<delta>"
    unfolding assms(3) using T d assms(1) by (subst unat_add_lem[THEN iffD1]) simp_all
  then show q: "unat ns div 1000000000 = T" using d by simp
  have "ns div 1000000000 = of_nat T" by (simp add: word_arith_nat_div q)
  then show "full_second ns = of_nat (T * 1000000000)" by (simp add: full_second_def)
qed

lemma gettime_exact:
  assumes "T < 2 ^ 31" and "offset + timer = of_nat (T * 1000000000)"
  shows "rt_clock_gettime offset timer = (T, 0)"
proof -
  note T = unat_seconds[OF assms(1)]
  show ?thesis by (simp only: rt_clock_gettime_def Let_def assms(2) unat_div unat_mod T) simp
qed


text \<open>A chip that is a plain register file.\<close>

definition ram_regs :: "nat \<Rightarrow> u8 list i2c_bus" where
  "ram_regs n = \<lparr>i2c_write = (\<lambda>bs b. (tl bs, 0)), i2c_write_read = (\<lambda>bs k b. (b, 0, take n (b @ replicate n 0)))\<rparr>"

lemma ram_regs_file: "register_file n (ram_regs n) (\<lambda>b. take n (b @ replicate n 0))"
  by (auto simp: register_file_def ram_regs_def min_def)


end
