(* ===== verification/Ssd1306.thy ===== *)
theory Ssd1306
  imports Buses
begin

text \<open>
  The driver of the SSD1306 display, \<^verbatim>\<open>pkg/ssd1306/lib/ssd1306.cc\<close>: a frame buffer of 128 columns
  and \<open>H\<close> rows, eight rows in a byte, with pixels, characters of a 5x7 font (\<^verbatim>\<open>font5x7.h\<close>) and a text
  cursor, sent to the display over SPI with a pin that tells commands from data. The height is
  a build option, 64 or 32. Coordinates are 32-bit and wrap.
\<close>

section \<open>The display\<close>

definition Width :: u32 where "Width = 128"

text \<open>The number of byte rows of a display with \<open>H\<close> pixel rows, and the size of its frame buffer.\<close>

definition Pages :: "u32 \<Rightarrow> u32" where "Pages H = H div 8"

definition Fb_size :: "u32 \<Rightarrow> u32" where "Fb_size H = Width * Pages H"

text \<open>The object, the pin, the bus behind it, and what went over the bus with the pin's level.\<close>

record 'b ssd =
  ss_fb :: "u8 list"
  ss_cursor_x :: u32
  ss_cursor_y :: u32
  ss_dc :: bool
  ss_bus :: 'b
  ss_sent :: "(bool \<times> u8 list) list"

definition init_cmds :: "u32 \<Rightarrow> u8 \<Rightarrow> u8 list" where
  "init_cmds H contrast =
     [0xAE, 0xD5, 0x80, 0xA8, if H = 64 then 0x3F else 0x1F, 0xD3, 0x00, 0x40, 0x8D, 0x14, 0x20, 0x00, 0xA1, 0xC8,
      0xDA, if H = 64 then 0x12 else 0x02, 0x81, contrast, 0xD9, 0xF1, 0xDB, 0x40, 0xA4, 0xA6, 0xAF]"

definition ssd_new :: "u32 \<Rightarrow> bool \<Rightarrow> 'b \<Rightarrow> 'b ssd" where
  "ssd_new H dc b = \<lparr>ss_fb = replicate (unat (Fb_size H)) 0, ss_cursor_x = 0, ss_cursor_y = 0, ss_dc = dc, ss_bus = b, ss_sent = []\<rparr>"

definition ssd_write :: "'b spi_bus \<Rightarrow> bool \<Rightarrow> u8 list \<Rightarrow> 'b ssd \<Rightarrow> 'b ssd \<times> int" where
  "ssd_write B dc bs s =
     (case spi_write B bs (ss_bus s) of (b, r) \<Rightarrow> (s\<lparr>ss_dc := dc, ss_bus := b, ss_sent := ss_sent s @ [(dc, bs)]\<rparr>, r))"

definition send_cmd :: "'b spi_bus \<Rightarrow> u8 \<Rightarrow> 'b ssd \<Rightarrow> 'b ssd \<times> int" where
  "send_cmd B cmd s = ssd_write B False [cmd] s"

fun send_cmd_seq :: "'b spi_bus \<Rightarrow> u8 list \<Rightarrow> 'b ssd \<Rightarrow> 'b ssd \<times> int" where
  "send_cmd_seq B [] s = (s, 0)"
| "send_cmd_seq B (c # cs) s = (case send_cmd B c s of (s', r) \<Rightarrow> if r < 0 then (s', r) else send_cmd_seq B cs s')"

definition send_data :: "'b spi_bus \<Rightarrow> u8 list \<Rightarrow> 'b ssd \<Rightarrow> 'b ssd \<times> int" where
  "send_data B bs s = ssd_write B True bs s"

definition ssd_init :: "u32 \<Rightarrow> u8 \<Rightarrow> 'b spi_bus \<Rightarrow> 'b ssd \<Rightarrow> 'b ssd \<times> int" where
  "ssd_init H contrast B s = send_cmd_seq B (init_cmds H contrast) s"

text \<open>The results of the transfers are not looked at.\<close>

definition display :: "u32 \<Rightarrow> 'b spi_bus \<Rightarrow> 'b ssd \<Rightarrow> 'b ssd" where
  "display H B s =
     (let s1 = fst (send_cmd_seq B [0x21, 0x00, 0x7F] s);
          s2 = fst (send_cmd_seq B [0x22, 0x00, ucast (Pages H - 1)] s1)
      in fst (send_data B (ss_fb s2) s2))"

definition set_contrast :: "'b spi_bus \<Rightarrow> u8 \<Rightarrow> 'b ssd \<Rightarrow> 'b ssd" where
  "set_contrast B val s = fst (send_cmd_seq B [0x81, val] s)"

definition invert_display :: "'b spi_bus \<Rightarrow> bool \<Rightarrow> 'b ssd \<Rightarrow> 'b ssd" where
  "invert_display B iv s = fst (send_cmd B (if iv then 0xA7 else 0xA6) s)"

definition display_on :: "'b spi_bus \<Rightarrow> bool \<Rightarrow> 'b ssd \<Rightarrow> 'b ssd" where
  "display_on B on s = fst (send_cmd B (if on then 0xAF else 0xAE) s)"

section \<open>Drawing\<close>

text \<open>An update of one byte of the frame buffer; outside of it the access is undefined.\<close>

definition fb_upd :: "u32 \<Rightarrow> (u8 \<Rightarrow> u8) \<Rightarrow> 'b ssd \<Rightarrow> 'b ssd outcome" where
  "fb_upd i f s =
     (if unat i < length (ss_fb s) then Ret (s\<lparr>ss_fb := (ss_fb s)[unat i := f (ss_fb s ! unat i)]\<rparr>) else Fault)"

definition ssd_fill :: "u8 \<Rightarrow> 'b ssd \<Rightarrow> 'b ssd" where
  "ssd_fill pat s = s\<lparr>ss_fb := replicate (length (ss_fb s)) pat\<rparr>"

definition ssd_clear :: "'b ssd \<Rightarrow> 'b ssd" where
  "ssd_clear s = s\<lparr>ss_fb := replicate (length (ss_fb s)) 0\<rparr>"

definition set_pixel :: "u32 \<Rightarrow> u32 \<Rightarrow> u32 \<Rightarrow> bool \<Rightarrow> 'b ssd \<Rightarrow> 'b ssd outcome" where
  "set_pixel H x y on s =
     (if x \<ge> Width \<or> y \<ge> H then Ret s
      else let page = y div 8; b = unat (y mod 8)
           in fb_upd (page * Width + x) (\<lambda>v. if on then v OR push_bit b 1 else v AND NOT (push_bit b 1)) s)"

definition set_cursor :: "u32 \<Rightarrow> u32 \<Rightarrow> 'b ssd \<Rightarrow> 'b ssd" where
  "set_cursor x y s = s\<lparr>ss_cursor_x := x, ss_cursor_y := y\<rparr>"

definition font5x7 :: "u8 list list" where
  "font5x7 =
     [[0x00, 0x00, 0x00, 0x00, 0x00],
      [0x00, 0x00, 0x5F, 0x00, 0x00],
      [0x00, 0x07, 0x00, 0x07, 0x00],
      [0x14, 0x7F, 0x14, 0x7F, 0x14],
      [0x24, 0x2A, 0x7F, 0x2A, 0x12],
      [0x23, 0x13, 0x08, 0x64, 0x62],
      [0x36, 0x49, 0x55, 0x22, 0x50],
      [0x00, 0x05, 0x03, 0x00, 0x00],
      [0x00, 0x1C, 0x22, 0x41, 0x00],
      [0x00, 0x41, 0x22, 0x1C, 0x00],
      [0x08, 0x2A, 0x1C, 0x2A, 0x08],
      [0x08, 0x08, 0x3E, 0x08, 0x08],
      [0x00, 0x50, 0x30, 0x00, 0x00],
      [0x08, 0x08, 0x08, 0x08, 0x08],
      [0x00, 0x60, 0x60, 0x00, 0x00],
      [0x20, 0x10, 0x08, 0x04, 0x02],
      [0x3E, 0x51, 0x49, 0x45, 0x3E],
      [0x00, 0x42, 0x7F, 0x40, 0x00],
      [0x42, 0x61, 0x51, 0x49, 0x46],
      [0x21, 0x41, 0x45, 0x4B, 0x31],
      [0x18, 0x14, 0x12, 0x7F, 0x10],
      [0x27, 0x45, 0x45, 0x45, 0x39],
      [0x3C, 0x4A, 0x49, 0x49, 0x30],
      [0x01, 0x71, 0x09, 0x05, 0x03],
      [0x36, 0x49, 0x49, 0x49, 0x36],
      [0x06, 0x49, 0x49, 0x29, 0x1E],
      [0x00, 0x36, 0x36, 0x00, 0x00],
      [0x00, 0x56, 0x36, 0x00, 0x00],
      [0x00, 0x08, 0x14, 0x22, 0x41],
      [0x14, 0x14, 0x14, 0x14, 0x14],
      [0x41, 0x22, 0x14, 0x08, 0x00],
      [0x02, 0x01, 0x51, 0x09, 0x06],
      [0x32, 0x49, 0x79, 0x41, 0x3E],
      [0x7E, 0x11, 0x11, 0x11, 0x7E],
      [0x7F, 0x49, 0x49, 0x49, 0x36],
      [0x3E, 0x41, 0x41, 0x41, 0x22],
      [0x7F, 0x41, 0x41, 0x22, 0x1C],
      [0x7F, 0x49, 0x49, 0x49, 0x41],
      [0x7F, 0x09, 0x09, 0x01, 0x01],
      [0x3E, 0x41, 0x41, 0x51, 0x32],
      [0x7F, 0x08, 0x08, 0x08, 0x7F],
      [0x00, 0x41, 0x7F, 0x41, 0x00],
      [0x20, 0x40, 0x41, 0x3F, 0x01],
      [0x7F, 0x08, 0x14, 0x22, 0x41],
      [0x7F, 0x40, 0x40, 0x40, 0x40],
      [0x7F, 0x02, 0x04, 0x02, 0x7F],
      [0x7F, 0x04, 0x08, 0x10, 0x7F],
      [0x3E, 0x41, 0x41, 0x41, 0x3E],
      [0x7F, 0x09, 0x09, 0x09, 0x06],
      [0x3E, 0x41, 0x51, 0x21, 0x5E],
      [0x7F, 0x09, 0x19, 0x29, 0x46],
      [0x46, 0x49, 0x49, 0x49, 0x31],
      [0x01, 0x01, 0x7F, 0x01, 0x01],
      [0x3F, 0x40, 0x40, 0x40, 0x3F],
      [0x1F, 0x20, 0x40, 0x20, 0x1F],
      [0x7F, 0x20, 0x18, 0x20, 0x7F],
      [0x63, 0x14, 0x08, 0x14, 0x63],
      [0x03, 0x04, 0x78, 0x04, 0x03],
      [0x61, 0x51, 0x49, 0x45, 0x43],
      [0x00, 0x00, 0x7F, 0x41, 0x41],
      [0x02, 0x04, 0x08, 0x10, 0x20],
      [0x41, 0x41, 0x7F, 0x00, 0x00],
      [0x04, 0x02, 0x01, 0x02, 0x04],
      [0x40, 0x40, 0x40, 0x40, 0x40],
      [0x00, 0x01, 0x02, 0x04, 0x00],
      [0x20, 0x54, 0x54, 0x54, 0x78],
      [0x7F, 0x48, 0x44, 0x44, 0x38],
      [0x38, 0x44, 0x44, 0x44, 0x20],
      [0x38, 0x44, 0x44, 0x48, 0x7F],
      [0x38, 0x54, 0x54, 0x54, 0x18],
      [0x08, 0x7E, 0x09, 0x01, 0x02],
      [0x08, 0x14, 0x54, 0x54, 0x3C],
      [0x7F, 0x08, 0x04, 0x04, 0x78],
      [0x00, 0x44, 0x7D, 0x40, 0x00],
      [0x20, 0x40, 0x44, 0x3D, 0x00],
      [0x00, 0x7F, 0x10, 0x28, 0x44],
      [0x00, 0x41, 0x7F, 0x40, 0x00],
      [0x7C, 0x04, 0x18, 0x04, 0x78],
      [0x7C, 0x08, 0x04, 0x04, 0x78],
      [0x38, 0x44, 0x44, 0x44, 0x38],
      [0x7C, 0x14, 0x14, 0x14, 0x08],
      [0x08, 0x14, 0x14, 0x18, 0x7C],
      [0x7C, 0x08, 0x04, 0x04, 0x08],
      [0x48, 0x54, 0x54, 0x54, 0x20],
      [0x04, 0x3F, 0x44, 0x40, 0x20],
      [0x3C, 0x40, 0x40, 0x20, 0x7C],
      [0x1C, 0x20, 0x40, 0x20, 0x1C],
      [0x3C, 0x40, 0x30, 0x40, 0x3C],
      [0x44, 0x28, 0x10, 0x28, 0x44],
      [0x0C, 0x50, 0x50, 0x50, 0x3C],
      [0x44, 0x64, 0x54, 0x4C, 0x44],
      [0x00, 0x08, 0x36, 0x41, 0x00],
      [0x00, 0x00, 0x7F, 0x00, 0x00],
      [0x00, 0x41, 0x36, 0x08, 0x00],
      [0x08, 0x08, 0x2A, 0x1C, 0x08],
      [0x08, 0x1C, 0x2A, 0x08, 0x08]]"

definition glyph_index :: "char \<Rightarrow> nat" where
  "glyph_index c = (let ch = of_char c :: nat in if ch < 0x20 \<or> ch > 0x7F then 0 else ch - 0x20)"

text \<open>The columns of one glyph, at the cursor; columns beyond the right edge are left out.\<close>

fun draw_cols :: "u32 \<Rightarrow> u32 \<Rightarrow> u8 list \<Rightarrow> 'b ssd \<Rightarrow> 'b ssd outcome" where
  "draw_cols page col [] s = Ret s"
| "draw_cols page col (g # gs) s =
     obind (if ss_cursor_x s + col < Width then fb_upd (page * Width + ss_cursor_x s + col) (\<lambda>v. v OR g) s else Ret s)
       (draw_cols page (col + 1) gs)"

definition advance :: "'b ssd \<Rightarrow> 'b ssd" where
  "advance s =
     (let s1 = s\<lparr>ss_cursor_x := ss_cursor_x s + 6\<rparr>
      in if ss_cursor_x s1 + 5 > Width then s1\<lparr>ss_cursor_x := 0, ss_cursor_y := ss_cursor_y s1 + 8\<rparr> else s1)"

definition draw_char :: "u32 \<Rightarrow> char \<Rightarrow> 'b ssd \<Rightarrow> 'b ssd outcome" where
  "draw_char H c s =
     (let page = ss_cursor_y s div 8
      in if page \<ge> Pages H then Ret s
         else obind (draw_cols page 0 (font5x7 ! glyph_index c) s) (\<lambda>s'. Ret (advance s')))"

fun draw_string :: "u32 \<Rightarrow> string \<Rightarrow> 'b ssd \<Rightarrow> 'b ssd outcome" where
  "draw_string H [] s = Fault"
| "draw_string H (c # cs) s = (if c = NUL then Ret s else obind (draw_char H c s) (draw_string H cs))"

section \<open>The frame buffer as a picture\<close>

definition ssd_ok :: "u32 \<Rightarrow> 'b ssd \<Rightarrow> bool" where
  "ssd_ok H s \<longleftrightarrow> (H = 64 \<or> H = 32) \<and> length (ss_fb s) = unat (Fb_size H)"

definition pixel :: "'b ssd \<Rightarrow> u32 \<Rightarrow> u32 \<Rightarrow> bool" where
  "pixel s x y = bit (ss_fb s ! unat (y div 8 * Width + x)) (unat (y mod 8))"

lemma fb_index:
  assumes "H = 64 \<or> H = 32" and "page < Pages H" and "x < Width"
  shows "unat (page * Width + x) = unat page * 128 + unat x" "unat page * 128 + unat x < unat (Fb_size H)"
proof -
  have p: "unat page < unat (Pages H)" "unat (Pages H) \<le> 8" "unat (Fb_size H) = unat (Pages H) * 128" "unat x < 128"
    using assms by (auto simp: Pages_def Fb_size_def Width_def word_less_nat_alt)
  then show "unat page * 128 + unat x < unat (Fb_size H)" by linarith
  show "unat (page * Width + x) = unat page * 128 + unat x"
    using p by (simp add: Width_def unat_word_ariths)
qed

lemma row_in_page: "H = 64 \<or> H = 32 \<Longrightarrow> y < H \<Longrightarrow> y div 8 < Pages H" for y :: u32
  by (auto simp: Pages_def word_less_nat_alt unat_div)

lemma fb_index_inj:
  assumes "H = 64 \<or> H = 32" and "p < Pages H" "p' < Pages H" and "x < Width" "x' < Width"
  shows "unat (p * Width + x) = unat (p' * Width + x') \<longleftrightarrow> p = p' \<and> x = x'"
proof -
  have b: "unat x < 128" "unat x' < 128" using assms(4,5) by (simp_all add: Width_def word_less_nat_alt)
  have q: "(m * 128 + k) div 128 = m" "(m * 128 + k) mod 128 = k" if "k < 128" for m k :: nat
    using that by simp_all
  have "m = m' \<and> k = k'" if "m * 128 + k = m' * 128 + k'" "k < 128" "k' < 128" for m m' k k' :: nat
    using q[OF that(2), of m] q[OF that(3), of m'] unfolding that(1) by metis
  note key = this[OF _ b]
  show ?thesis
  proof
    assume "unat (p * Width + x) = unat (p' * Width + x')"
    then have "unat p * 128 + unat x = unat p' * 128 + unat x'"
      by (simp only: fb_index(1)[OF assms(1,2,4)] fb_index(1)[OF assms(1,3,5)])
    from key[OF this] show "p = p' \<and> x = x'" by (simp add: word_unat_eq_iff)
  qed simp
qed

lemma fb_upd_pixel:
  assumes "ssd_ok H s" and "p < Pages H" "a < Width" and "i = p * Width + a"
  obtains s' where "fb_upd i f s = Ret s'" "ssd_ok H s'" "ss_cursor_x s' = ss_cursor_x s" "ss_cursor_y s' = ss_cursor_y s"
    "\<And>x y. x < Width \<Longrightarrow> y < H \<Longrightarrow>
       pixel s' x y = (if x = a \<and> y div 8 = p then bit (f (ss_fb s ! unat i)) (unat (y mod 8)) else pixel s x y)"
proof -
  have H: "H = 64 \<or> H = 32" and l: "length (ss_fb s) = unat (Fb_size H)" using assms(1) by (auto simp: ssd_ok_def)
  have i: "unat i < length (ss_fb s)" using fb_index[OF H assms(2,3)] by (simp add: assms(4) l)
  show thesis
  proof (rule that[of "s\<lparr>ss_fb := (ss_fb s)[unat i := f (ss_fb s ! unat i)]\<rparr>"])
    fix x y assume x: "x < Width" "y < H"
    have "unat i = unat (y div 8 * Width + x) \<longleftrightarrow> p = y div 8 \<and> a = x"
      unfolding assms(4) by (rule fb_index_inj[OF H assms(2) row_in_page[OF H x(2)] assms(3) x(1)])
    then show "pixel (s\<lparr>ss_fb := (ss_fb s)[unat i := f (ss_fb s ! unat i)]\<rparr>) x y =
        (if x = a \<and> y div 8 = p then bit (f (ss_fb s ! unat i)) (unat (y mod 8)) else pixel s x y)"
      using i by (auto simp: pixel_def nth_list_update)
  qed (use i H l in \<open>auto simp: fb_upd_def ssd_ok_def\<close>)
qed

lemma set_pixel_pixel:
  assumes "ssd_ok H s"
  obtains s' where "set_pixel H a b on s = Ret s'" "ssd_ok H s'"
    "\<And>x y. x < Width \<Longrightarrow> y < H \<Longrightarrow> pixel s' x y = (if x = a \<and> y = b then on else pixel s x y)"
proof (cases "a < Width \<and> b < H")
  case False
  then have "set_pixel H a b on s = Ret s" by (auto simp: set_pixel_def not_less)
  then show thesis by (rule that) (use assms False in auto)
next
  case True
  then have a: "a < Width" and b: "b < H" by simp_all
  have H: "H = 64 \<or> H = 32" using assms by (simp add: ssd_ok_def)
  let ?f = "\<lambda>v :: u8. if on then v OR push_bit (unat (b mod 8)) 1 else v AND NOT (push_bit (unat (b mod 8)) 1)"
  have u: "set_pixel H a b on s = fb_upd (b div 8 * Width + a) ?f s"
  proof -
    have "\<not> (a \<ge> Width \<or> b \<ge> H)" using a b by auto
    then show ?thesis unfolding set_pixel_def Let_def by (rule if_not_P)
  qed
  have f: "bit (?f v) n = (if n = unat (b mod 8) then on else bit v n)" if "n < 8" for v n
    using that by (auto simp: bit_or_iff bit_and_iff bit_not_iff bit_exp_iff)
  have m: "unat (y mod 8) < 8" for y :: u32 by (simp add: unat_mod)
  have e: "y = b \<longleftrightarrow> y div 8 = b div 8 \<and> unat (y mod 8) = unat (b mod 8)" for y
  proof (intro iffI conjI)
    assume "y div 8 = b div 8 \<and> unat (y mod 8) = unat (b mod 8)"
    then have d: "y div 8 = b div 8" and r: "y mod 8 = b mod 8" using word_unat_eq_iff[of "y mod 8"] by blast+
    have "y = y div 8 * 8 + y mod 8" by (rule div_mult_mod_eq[symmetric])
    also have "\<dots> = b div 8 * 8 + b mod 8" by (simp only: d r)
    also have "\<dots> = b" by (rule div_mult_mod_eq)
    finally show "y = b" .
  qed simp_all
  obtain s' where s': "fb_upd (b div 8 * Width + a) ?f s = Ret s'" "ssd_ok H s'"
    "\<And>x y. x < Width \<Longrightarrow> y < H \<Longrightarrow> pixel s' x y = (if x = a \<and> y div 8 = b div 8
       then bit (?f (ss_fb s ! unat (b div 8 * Width + a))) (unat (y mod 8)) else pixel s x y)"
    by (rule fb_upd_pixel[OF assms row_in_page[OF H b] a refl, of ?f]) blast
  show thesis
  proof (rule that[OF s'(1)[folded u] s'(2)])
    fix x y assume xy: "x < Width" "y < H"
    show "pixel s' x y = (if x = a \<and> y = b then on else pixel s x y)"
    proof (cases "x = a \<and> y div 8 = b div 8")
      case True
      then show ?thesis unfolding s'(3)[OF xy] f[OF m] e by (simp add: pixel_def)
    next
      case False
      then show ?thesis unfolding s'(3)[OF xy] e by auto
    qed
  qed
qed

text \<open>What drawing columns from \<open>col\<close> on adds to the picture; positions wrap as the coordinates do.\<close>

lemma draw_cols_pixel:
  assumes "ssd_ok H s" and "page < Pages H" and "unat col + length gs < 2 ^ 32"
  shows "\<exists>s'. draw_cols page col gs s = Ret s' \<and> ssd_ok H s' \<and> ss_cursor_x s' = ss_cursor_x s \<and> ss_cursor_y s' = ss_cursor_y s \<and>
    (\<forall>x y. x < Width \<longrightarrow> y < H \<longrightarrow> pixel s' x y = (pixel s x y \<or>
       y div 8 = page \<and> (\<exists>k < length gs. x = ss_cursor_x s + col + of_nat k \<and> bit (gs ! k) (unat (y mod 8)))))"
  using assms
proof (induction gs arbitrary: s col)
  case Nil
  then show ?case by simp
next
  case (Cons g gs)
  let ?a = "ss_cursor_x s + col"
  obtain s1 where s1: "(if ?a < Width then fb_upd (page * Width + ss_cursor_x s + col) (\<lambda>v. v OR g) s else Ret s) = Ret s1"
    "ssd_ok H s1" "ss_cursor_x s1 = ss_cursor_x s" "ss_cursor_y s1 = ss_cursor_y s"
    "\<And>x y. x < Width \<Longrightarrow> y < H \<Longrightarrow> pixel s1 x y = (pixel s x y \<or> y div 8 = page \<and> x = ?a \<and> bit g (unat (y mod 8)))"
  proof (cases "?a < Width")
    case True
    obtain s' where s': "fb_upd (page * Width + ss_cursor_x s + col) (\<lambda>v. v OR g) s = Ret s'" "ssd_ok H s'"
      "ss_cursor_x s' = ss_cursor_x s" "ss_cursor_y s' = ss_cursor_y s"
      "\<And>x y. x < Width \<Longrightarrow> y < H \<Longrightarrow> pixel s' x y = (if x = ?a \<and> y div 8 = page
         then bit (ss_fb s ! unat (page * Width + ss_cursor_x s + col) OR g) (unat (y mod 8)) else pixel s x y)"
      by (rule fb_upd_pixel[OF Cons.prems(1,2) True, of "page * Width + ss_cursor_x s + col" "\<lambda>v. v OR g"]) (auto simp: add.assoc)
    show thesis
      by (rule that[of s']) (use True s' in \<open>auto simp: bit_or_iff pixel_def add.assoc\<close>)
  next
    case False
    then show thesis using Cons.prems(1) by (intro that[of s]) auto
  qed
  have c: "unat (col + 1) = Suc (unat col)" using Cons.prems(3) by (simp add: unat_word_ariths)
  have "unat (col + 1) + length gs < 2 ^ 32" using Cons.prems(3) by (simp add: c)
  from Cons.IH[OF s1(2) Cons.prems(2) this] obtain s' where s': "draw_cols page (col + 1) gs s1 = Ret s'" "ssd_ok H s'"
    "ss_cursor_x s' = ss_cursor_x s" "ss_cursor_y s' = ss_cursor_y s"
    and p: "\<And>x y. x < Width \<Longrightarrow> y < H \<Longrightarrow> pixel s' x y = (pixel s1 x y \<or>
       y div 8 = page \<and> (\<exists>k < length gs. x = ss_cursor_x s + (col + 1) + of_nat k \<and> bit (gs ! k) (unat (y mod 8))))"
    by (auto simp: s1(3,4))
  have ex: "(\<exists>k < length (g # gs). x = ?a + of_nat k \<and> bit ((g # gs) ! k) n) \<longleftrightarrow>
      x = ?a \<and> bit g n \<or> (\<exists>k < length gs. x = ss_cursor_x s + (col + 1) + of_nat k \<and> bit (gs ! k) n)" for x n
    by (auto simp: Ex_less_Suc2 add.assoc)
  have "draw_cols page col (g # gs) s = Ret s'" using s1(1) s'(1) by (simp only: draw_cols.simps obind.simps)
  moreover have "pixel s' x y = (pixel s x y \<or>
       y div 8 = page \<and> (\<exists>k < length (g # gs). x = ?a + of_nat k \<and> bit ((g # gs) ! k) (unat (y mod 8))))" if "x < Width" "y < H" for x y
    unfolding p[OF that] s1(5)[OF that] ex by blast
  ultimately show ?case using s'(2-4) by blast
qed

text \<open>The glyph at the cursor: \<open>x - cx\<close> is the column of the glyph.\<close>

lemma glyph_width: "length (font5x7 ! glyph_index c) = 5"
proof -
  have "list_all (\<lambda>g. length g = 5) font5x7 \<and> length font5x7 = 96" by code_simp
  moreover have "glyph_index c < 96" by (simp add: glyph_index_def Let_def) linarith
  ultimately show ?thesis by (simp add: list_all_length)
qed

lemma ex_col: "(\<exists>k < 5. x = cx + 0 + of_nat k \<and> P k) \<longleftrightarrow> x - cx < 5 \<and> P (unat (x - cx))" for x cx :: u32
proof
  assume "\<exists>k < 5. x = cx + 0 + of_nat k \<and> P k"
  then obtain k where k: "k < 5" "x - cx = of_nat k" "P k" by auto
  then have "unat (x - cx) = k" by (simp add: unsigned_of_nat take_bit_nat_eq_self)
  then show "x - cx < 5 \<and> P (unat (x - cx))" using k by (simp add: word_less_nat_alt)
next
  assume a: "x - cx < 5 \<and> P (unat (x - cx))"
  then have "unat (x - cx) < 5" by (simp add: word_less_nat_alt)
  moreover have "x = cx + 0 + of_nat (unat (x - cx))" by simp
  ultimately show "\<exists>k < 5. x = cx + 0 + of_nat k \<and> P k" using a by blast
qed

lemma draw_char_pixel:
  assumes "ssd_ok H s"
  obtains s' where "draw_char H c s = Ret s'" "ssd_ok H s'"
    "\<And>x y. x < Width \<Longrightarrow> y < H \<Longrightarrow> pixel s' x y = (pixel s x y \<or>
       y div 8 = ss_cursor_y s div 8 \<and> x - ss_cursor_x s < 5 \<and> bit (font5x7 ! glyph_index c ! unat (x - ss_cursor_x s)) (unat (y mod 8)))"
proof (cases "ss_cursor_y s div 8 < Pages H")
  case True
  obtain s1 where s1: "draw_cols (ss_cursor_y s div 8) 0 (font5x7 ! glyph_index c) s = Ret s1" "ssd_ok H s1"
    "\<And>x y. x < Width \<Longrightarrow> y < H \<Longrightarrow> pixel s1 x y = (pixel s x y \<or> y div 8 = ss_cursor_y s div 8 \<and>
       (\<exists>k < 5. x = ss_cursor_x s + 0 + of_nat k \<and> bit (font5x7 ! glyph_index c ! k) (unat (y mod 8))))"
    using draw_cols_pixel[OF assms True, of 0 "font5x7 ! glyph_index c"] by (auto simp: glyph_width)
  have a: "ss_fb (advance s1) = ss_fb s1" by (simp add: advance_def Let_def)
  show thesis
  proof (rule that[of "advance s1"])
    show "draw_char H c s = Ret (advance s1)" using True s1(1) by (simp add: draw_char_def Let_def leD)
    show "ssd_ok H (advance s1)" using s1(2) by (simp add: ssd_ok_def a)
    fix x y assume "x < Width" "y < H"
    then show "pixel (advance s1) x y = (pixel s x y \<or>
       y div 8 = ss_cursor_y s div 8 \<and> x - ss_cursor_x s < 5 \<and> bit (font5x7 ! glyph_index c ! unat (x - ss_cursor_x s)) (unat (y mod 8)))"
      using s1(3) unfolding ex_col by (simp add: pixel_def a)
  qed
next
  case False
  have H: "H = 64 \<or> H = 32" using assms by (simp add: ssd_ok_def)
  have "draw_char H c s = Ret s" using False by (simp add: draw_char_def Let_def not_less)
  moreover have "y div 8 \<noteq> ss_cursor_y s div 8" if "y < H" for y using row_in_page[OF H that] False by auto
  ultimately show thesis using assms by (intro that[of s]) auto
qed

section \<open>Sequences of operations\<close>

datatype ssd_op =
    Set_pixel u32 u32 bool | Fill u8 | Clear | Set_cursor u32 u32 | Draw_char char | Draw_string string
  | Display | Set_contrast u8 | Invert bool | Display_on bool

fun ssd_do :: "u32 \<Rightarrow> 'b spi_bus \<Rightarrow> ssd_op \<Rightarrow> 'b ssd \<Rightarrow> 'b ssd outcome" where
  "ssd_do H B (Set_pixel x y on) s = set_pixel H x y on s"
| "ssd_do H B (Fill pat) s = Ret (ssd_fill pat s)"
| "ssd_do H B Clear s = Ret (ssd_clear s)"
| "ssd_do H B (Set_cursor x y) s = Ret (set_cursor x y s)"
| "ssd_do H B (Draw_char c) s = draw_char H c s"
| "ssd_do H B (Draw_string str) s = draw_string H (str @ [NUL]) s"
| "ssd_do H B Display s = Ret (display H B s)"
| "ssd_do H B (Set_contrast v) s = Ret (set_contrast B v s)"
| "ssd_do H B (Invert v) s = Ret (invert_display B v s)"
| "ssd_do H B (Display_on v) s = Ret (display_on B v s)"

fun ssd_run :: "u32 \<Rightarrow> 'b spi_bus \<Rightarrow> ssd_op list \<Rightarrow> 'b ssd \<Rightarrow> 'b ssd outcome" where
  "ssd_run H B [] s = Ret s"
| "ssd_run H B (x # xs) s = obind (ssd_do H B x s) (ssd_run H B xs)"

lemma ssd_write_fb [simp]: "ss_fb (fst (ssd_write B dc bs s)) = ss_fb s"
  by (simp add: ssd_write_def split: prod.splits)

lemma send_cmd_seq_fb [simp]: "ss_fb (fst (send_cmd_seq B cs s)) = ss_fb s"
proof (induction cs arbitrary: s)
  case (Cons c cs)
  have "ss_fb (fst (send_cmd B c s)) = ss_fb s" by (simp add: send_cmd_def)
  then show ?case using Cons.IH by (auto split: prod.splits)
qed simp

lemma draw_string_ok: "ssd_ok H s \<Longrightarrow> \<exists>s'. draw_string H (str @ [NUL]) s = Ret s' \<and> ssd_ok H s'"
proof (induction str arbitrary: s)
  case (Cons c str)
  obtain s1 where "draw_char H c s = Ret s1" "ssd_ok H s1" by (rule draw_char_pixel[OF Cons.prems])
  with Cons.IH[of s1] Cons.prems show ?case by auto
qed simp

lemma ssd_do_ok: "ssd_ok H s \<Longrightarrow> \<exists>s'. ssd_do H B op s = Ret s' \<and> ssd_ok H s'"
proof (cases op)
  case (Set_pixel x y on)
  assume "ssd_ok H s"
  then obtain s' where "set_pixel H x y on s = Ret s'" "ssd_ok H s'" by (rule set_pixel_pixel)
  then show ?thesis by (simp add: Set_pixel)
next
  case (Draw_char c)
  assume "ssd_ok H s"
  then obtain s' where "draw_char H c s = Ret s'" "ssd_ok H s'" by (rule draw_char_pixel)
  then show ?thesis by (simp add: Draw_char)
next
  case (Draw_string str)
  assume "ssd_ok H s"
  then show ?thesis using draw_string_ok by (simp add: Draw_string)
qed (simp_all add: ssd_ok_def ssd_fill_def ssd_clear_def set_cursor_def display_def set_contrast_def invert_display_def display_on_def
      send_cmd_def send_data_def Let_def del: send_cmd_seq.simps)

section \<open>Properties\<close>

text \<open>
  C35: the frame buffer keeps its type. From construction on, whatever operations are called with
  whatever arguments, coordinates and cursor positions that overflow included, no operation
  reads or writes outside the frame buffer, and it has one byte for each column and byte row.
\<close>

theorem ssd1306_stays_in_frame:
  assumes "H = 64 \<or> H = 32"
  shows "\<exists>s. ssd_run H B ops (ssd_new H dc b) = Ret s \<and> length (ss_fb s) = 128 * (unat H div 8)"
proof -
  have "\<exists>s'. ssd_run H B ops s = Ret s' \<and> ssd_ok H s'" if "ssd_ok H s" for s :: "'a ssd"
    using that
  proof (induction ops arbitrary: s)
    case (Cons x xs)
    then obtain s1 where "ssd_do H B x s = Ret s1" "ssd_ok H s1" using ssd_do_ok by blast
    with Cons.IH[of s1] show ?case by simp
  qed simp
  moreover have "ssd_ok H (ssd_new H dc b)" using assms by (simp add: ssd_ok_def ssd_new_def)
  ultimately obtain s where "ssd_run H B ops (ssd_new H dc b) = Ret s" "ssd_ok H s" by blast
  moreover have "unat (Fb_size H) = 128 * (unat H div 8)" using assms by (auto simp: Fb_size_def Pages_def Width_def)
  ultimately show ?thesis by (auto simp: ssd_ok_def)
qed

theorem ssd1306_stays_in_frame_witness:
  "\<exists>s. ssd_run 32 \<lparr>spi_write = (\<lambda>bs b. (b, 0)), spi_transfer = (\<lambda>bs b. (b, 0, []))\<rparr>
     [Set_cursor 0xFFFFFFFE 24, Draw_string ''hi'', Set_pixel 127 31 True, Display] (ssd_new 32 False ()) = Ret s \<and> length (ss_fb s) = 512"
  using ssd1306_stays_in_frame[of 32 "\<lparr>spi_write = (\<lambda>bs b. (b, 0)), spi_transfer = (\<lambda>bs b. (b, 0, []))\<rparr>"
      "[Set_cursor 0xFFFFFFFE 24, Draw_string ''hi'', Set_pixel 127 31 True, Display]" False "()"]
  by (simp del: ssd_run.simps)



end
