(* ===== verification/Ds18b20.thy ===== *)
theory Ds18b20
  imports Calendar
begin

text \<open>
  The driver of the DS18B20 thermometer, \<^verbatim>\<open>pkg/ds18b20/lib/ds18b20.cc\<close>, and its server,
  \<^verbatim>\<open>pkg/ds18b20/server/main.cc\<close>: bits on a wire that is driven low or released for certain times,
  bytes, the checksum that guards what the sensor sends, and the temperature in hundredths of a
  degree. The pin and the time that passes are a parameter: calls that act on a wire state.
\<close>

section \<open>The wire\<close>

text \<open>\<open>gp_output\<close> makes the pin drive low, \<open>gp_input\<close> releases it; \<open>gp_wait\<close>: so many microseconds pass.\<close>

record 'w gpio =
  gp_output :: "'w \<Rightarrow> 'w"
  gp_input :: "'w \<Rightarrow> 'w"
  gp_get :: "'w \<Rightarrow> int"
  gp_wait :: "nat \<Rightarrow> 'w \<Rightarrow> 'w"

definition ow_reset :: "'w gpio \<Rightarrow> 'w \<Rightarrow> 'w \<times> bool" where
  "ow_reset G w =
     (let w1 = gp_wait G 70 (gp_input G (gp_wait G 480 (gp_output G w)))
      in (gp_wait G 410 w1, gp_get G w1 = 0))"

definition write_bit :: "'w gpio \<Rightarrow> bool \<Rightarrow> 'w \<Rightarrow> 'w" where
  "write_bit G b w =
     (if b then gp_wait G 54 (gp_input G (gp_wait G 6 (gp_output G w)))
      else gp_wait G 10 (gp_input G (gp_wait G 60 (gp_output G w))))"

definition read_bit :: "'w gpio \<Rightarrow> 'w \<Rightarrow> 'w \<times> bool" where
  "read_bit G w =
     (let w1 = gp_wait G 7 (gp_input G (gp_wait G 3 (gp_output G w)))
      in (gp_wait G 50 w1, gp_get G w1 \<noteq> 0))"

text \<open>Both loops count from bit 0 up.\<close>

definition write_byte :: "'w gpio \<Rightarrow> u8 \<Rightarrow> 'w \<Rightarrow> 'w" where
  "write_byte G byte w = fold (\<lambda>i. write_bit G (drop_bit i byte AND 1 \<noteq> 0)) [0..<8] w"

definition read_byte :: "'w gpio \<Rightarrow> 'w \<Rightarrow> 'w \<times> u8" where
  "read_byte G w =
     fold (\<lambda>i (w, byte). case read_bit G w of (w', b) \<Rightarrow> (w', if b then byte OR push_bit i 1 else byte)) [0..<8] (w, 0)"

fun read_bytes :: "'w gpio \<Rightarrow> nat \<Rightarrow> 'w \<Rightarrow> 'w \<times> u8 list" where
  "read_bytes G 0 w = (w, [])"
| "read_bytes G (Suc n) w = (case read_byte G w of (w', b) \<Rightarrow> case read_bytes G n w' of (w'', bs) \<Rightarrow> (w'', b # bs))"

section \<open>The checksum\<close>

fun crc8_bits :: "nat \<Rightarrow> u8 \<Rightarrow> u8 \<Rightarrow> u8" where
  "crc8_bits 0 crc byte = crc"
| "crc8_bits (Suc n) crc byte =
     (let mix = (crc XOR byte) AND 0x01; crc1 = drop_bit 1 crc; crc2 = (if mix \<noteq> 0 then crc1 XOR 0x8C else crc1)
      in crc8_bits n crc2 (drop_bit 1 byte))"

definition crc8 :: "u8 list \<Rightarrow> u8" where
  "crc8 data = fold (\<lambda>byte crc. crc8_bits 8 crc byte) data 0"

section \<open>The sensor\<close>

definition ow_select :: "'w gpio \<Rightarrow> u64 \<Rightarrow> 'w \<Rightarrow> 'w \<times> bool" where
  "ow_select G rom w =
     (case ow_reset G w of (w1, present) \<Rightarrow>
        if \<not> present then (w1, False)
        else if rom = 0 then (write_byte G 0xCC w1, True)
        else (fold (\<lambda>i. write_byte G (ucast (drop_bit (i * 8) rom))) [0..<8] (write_byte G 0x55 w1), True))"

definition read_scratchpad :: "'w gpio \<Rightarrow> 'w \<Rightarrow> 'w \<times> int \<times> u8 list" where
  "read_scratchpad G w =
     (case read_bytes G 9 w of (w', buf) \<Rightarrow> (w', if crc8 (take 8 buf) \<noteq> buf ! 8 then err EIO else 0, buf))"

definition present :: "'w gpio \<Rightarrow> 'w \<Rightarrow> 'w \<times> bool" where
  "present G w = ow_reset G w"

text \<open>The constructor releases the line.\<close>

definition ds_new :: "'w gpio \<Rightarrow> 'w \<Rightarrow> 'w" where
  "ds_new G w = gp_input G w"

definition read_rom :: "'w gpio \<Rightarrow> 'w \<Rightarrow> 'w \<times> int \<times> u64 option" where
  "read_rom G w =
     (case ow_reset G w of (w1, found) \<Rightarrow>
        if \<not> found then (w1, err EIO, None)
        else case read_bytes G 8 (write_byte G 0x33 w1) of (w2, buf) \<Rightarrow>
          if crc8 (take 7 buf) \<noteq> buf ! 7 then (w2, err EIO, None)
          else (w2, 0, Some (fold (\<lambda>i code. code OR push_bit (i * 8) (ucast (buf ! i))) [0..<8] 0)))"

datatype resolution = Res_9bit | Res_10bit | Res_11bit | Res_12bit

definition res_cfg :: "resolution \<Rightarrow> u8" where
  "res_cfg r = (case r of Res_9bit \<Rightarrow> 0x1F | Res_10bit \<Rightarrow> 0x3F | Res_11bit \<Rightarrow> 0x5F | Res_12bit \<Rightarrow> 0x7F)"

definition set_resolution :: "'w gpio \<Rightarrow> u64 \<Rightarrow> resolution \<Rightarrow> 'w \<Rightarrow> 'w \<times> int" where
  "set_resolution G rom r w =
     (case ow_select G rom w of (w1, ok1) \<Rightarrow>
        if \<not> ok1 then (w1, err EIO)
        else case read_scratchpad G (write_byte G 0xBE w1) of (w2, e, sp) \<Rightarrow>
          if e \<noteq> 0 then (w2, err EIO)
          else case ow_select G rom w2 of (w3, ok2) \<Rightarrow>
            if \<not> ok2 then (w3, err EIO)
            else let w4 = write_byte G (res_cfg r) (write_byte G (sp ! 3) (write_byte G (sp ! 2) (write_byte G 0x4E w3)))
                 in case ow_select G rom w4 of (w5, ok3) \<Rightarrow>
                      if \<not> ok3 then (w5, err EIO) else (gp_wait G 10000 (write_byte G 0x48 w5), 0))"

text \<open>The longest conversion takes 750 milliseconds.\<close>

definition read_temp_raw :: "'w gpio \<Rightarrow> u64 \<Rightarrow> 'w \<Rightarrow> 'w \<times> int \<times> u16 option" where
  "read_temp_raw G rom w =
     (case ow_select G rom w of (w1, ok1) \<Rightarrow>
        if \<not> ok1 then (w1, err EIO, None)
        else case ow_select G rom (gp_wait G 750000 (write_byte G 0x44 w1)) of (w2, ok2) \<Rightarrow>
          if \<not> ok2 then (w2, err EIO, None)
          else case read_scratchpad G (write_byte G 0xBE w2) of (w3, e, sp) \<Rightarrow>
            if e \<noteq> 0 then (w3, err EIO, None) else (w3, 0, Some (ucast (sp ! 0) OR push_bit 8 (ucast (sp ! 1)))))"

definition read_temp_c100 :: "'w gpio \<Rightarrow> u64 \<Rightarrow> 'w \<Rightarrow> 'w \<times> int \<times> int option" where
  "read_temp_c100 G rom w =
     (case read_temp_raw G rom w of (w', r, raw) \<Rightarrow>
        if r < 0 then (w', r, None) else (w', 0, map_option (\<lambda>x. tdiv (sint x * 25) 4) raw))"

section \<open>The server\<close>

text \<open>
  With a sensor the answer is its measurement, otherwise a synthetic value \<open>t\<close> kept between calls
  that drifts with the kernel's clock; the second result are the flags.
\<close>

definition op_read_temp_c100 :: "('w gpio \<times> u64) option \<Rightarrow> u64 \<Rightarrow> 'w \<times> int \<Rightarrow> ('w \<times> int) \<times> int \<times> (int \<times> u32) option" where
  "op_read_temp_c100 sensor clock S =
     (case S of (w, t) \<Rightarrow>
      case sensor of
        Some (G, rom) \<Rightarrow>
          (case read_temp_c100 G rom w of (w', r, v) \<Rightarrow>
             if r \<noteq> 0 then ((w', t), err EIO, None) else ((w', t), 0, map_option (\<lambda>x. (x, 0)) v))
      | None \<Rightarrow>
          let t1 = t + int (unat (clock mod 7)) - 3; t2 = (if t1 < 1500 then 1500 else t1); t3 = (if t2 > 3500 then 3500 else t2)
          in ((w, t3), 0, Some (t3, 1)))"

text \<open>
  What \<open>main\<close> decides on the GPIO device of the virtual bus, if there is one: the sensor is used when it
  answers a reset, and addressed without a ROM code.
\<close>

definition temp_server_start :: "'w gpio option \<Rightarrow> 'w \<Rightarrow> 'w \<times> ('w gpio \<times> u64) option" where
  "temp_server_start dev w =
     (case dev of
        None \<Rightarrow> (w, None)
      | Some G \<Rightarrow> (case present G (ds_new G w) of (w', found) \<Rightarrow> (w', if found then Some (G, 0) else None)))"

section \<open>The checksum as a linear map\<close>

definition crc_step :: "u8 \<Rightarrow> bool \<Rightarrow> u8" where
  "crc_step c b = drop_bit 1 c XOR (if bit c 0 \<noteq> b then 0x8C else 0)"

definition byte_bits :: "u8 \<Rightarrow> bool list" where
  "byte_bits b = map (bit b) [0..<8]"

definition frame_bits :: "u8 list \<Rightarrow> bool list" where
  "frame_bits bs = concat (map byte_bits bs)"

lemma crc8_bits_step: "n \<le> 8 \<Longrightarrow> crc8_bits n c b = foldl crc_step c (map (bit b) [0..<n])"
proof (induction n arbitrary: c b)
  case (Suc n)
  have m: "(c XOR b) AND 1 \<noteq> 0 \<longleftrightarrow> bit c 0 \<noteq> bit b 0"
    using and_exp_eq_0_iff_not_bit[of "c XOR b" 0] by (simp add: bit_xor_iff del: bit_0)
  have "crc8_bits (Suc n) c b = crc8_bits n (crc_step c (bit b 0)) (drop_bit 1 b)"
    by (simp add: Let_def m crc_step_def)
  also have "\<dots> = foldl crc_step (crc_step c (bit b 0)) (map (bit (drop_bit 1 b)) [0..<n])"
    using Suc by simp
  also have "map (bit (drop_bit 1 b)) [0..<n] = map (bit b) [Suc 0..<Suc n]"
    by (simp add: map_Suc_upt[symmetric] bit_drop_bit_eq comp_def del: upt_Suc)
  finally show ?case by (simp add: upt_conv_Cons del: upt_Suc)
qed simp

abbreviation crc_run :: "u8 \<Rightarrow> bool list \<Rightarrow> u8" where
  "crc_run \<equiv> foldl crc_step"

lemma crc8_run: "crc8 data = crc_run 0 (frame_bits data)"
proof -
  have "fold (\<lambda>byte crc. crc8_bits 8 crc byte) data c = crc_run c (frame_bits data)" for c
    by (induction data arbitrary: c) (simp_all add: frame_bits_def byte_bits_def crc8_bits_step del: crc8_bits.simps upt_Suc)
  then show ?thesis by (simp add: crc8_def)
qed

lemma xor_zero_iff: "a XOR b = 0 \<longleftrightarrow> a = b" for a b :: u8
proof
  assume "a XOR b = 0"
  then have "(a XOR b) XOR b = b" by simp
  then show "a = b" by (simp add: xor.assoc)
qed simp

lemma crc_step_linear: "crc_step (c XOR c') (b = (\<not> b')) = crc_step c b XOR crc_step c' b'"
  unfolding crc_step_def bit_xor_iff drop_bit_xor
  by (cases "bit c 0"; cases "bit c' 0"; cases b; cases b') (simp_all add: xor.assoc xor.left_commute xor.commute del: bit_0)

lemma crc_run_linear:
  "length xs = length ys \<Longrightarrow> crc_run (c XOR c') (map2 (\<lambda>x y. x = (\<not> y)) xs ys) = crc_run c xs XOR crc_run c' ys"
  by (induction xs ys arbitrary: c c' rule: list_induct2) (simp_all add: crc_step_linear)

lemma crc_step_zero: "crc_step c False = 0 \<longleftrightarrow> c = 0"
proof
  assume z: "crc_step c False = 0"
  have b: "\<not> bit c 0"
  proof
    assume "bit c 0"
    then have "drop_bit 1 c = 0x8C" using z by (simp add: crc_step_def xor_zero_iff del: bit_0)
    then have "bit (drop_bit 1 c) 7" by simp
    then have "bit c 8" by (simp add: bit_drop_bit_eq)
    then show False using bit_imp_le_length[of c 8] by simp
  qed
  then have d: "drop_bit 1 c = 0" using z by (simp add: crc_step_def del: bit_0)
  show "c = 0"
  proof (rule bit_word_eqI)
    fix n show "bit c n \<longleftrightarrow> bit (0 :: u8) n"
      using b bit_drop_bit_eq[of 1 c] d by (cases n) (auto simp: fun_eq_iff simp del: bit_0)
  qed
qed (simp add: crc_step_def)

lemma crc_run_zeros: "crc_run c (replicate n False) = 0 \<longleftrightarrow> c = 0"
  by (induction n arbitrary: c) (simp_all add: crc_step_zero)

lemma crc_run_own_byte: "crc_run b (byte_bits b) = 0"
proof -
  have s: "crc_step c (bit c 0) = drop_bit 1 c" for c by (simp add: crc_step_def)
  have "crc_run b (map (bit b) [0..<n]) = drop_bit n b" for n
  proof (induction n)
    case (Suc n)
    have "bit b n = bit (drop_bit n b) 0" by (simp add: bit_drop_bit_eq del: bit_0)
    then have "crc_run b (map (bit b) [0..<Suc n]) = crc_step (drop_bit n b) (bit (drop_bit n b) 0)"
      using Suc by (simp del: bit_0)
    then show ?case unfolding s by simp
  qed simp
  moreover have "drop_bit 8 b = 0" by (rule bit_word_eqI) (simp add: bit_drop_bit_eq)
  ultimately show ?thesis by (simp add: byte_bits_def del: upt_Suc)
qed

lemma crc_run_byte: "crc_run c (byte_bits b) = 0 \<longleftrightarrow> c = b"
proof -
  have z: "map2 (\<lambda>x y. x = (\<not> y)) (replicate 8 False) (byte_bits b) = byte_bits b" by (simp add: byte_bits_def numeral_eq_Suc)
  have "crc_run c (byte_bits b) = crc_run ((c XOR b) XOR b) (map2 (\<lambda>x y. x = (\<not> y)) (replicate 8 False) (byte_bits b))"
    unfolding z by (simp add: xor.assoc)
  also have "\<dots> = crc_run (c XOR b) (replicate 8 False) XOR crc_run b (byte_bits b)"
    by (rule crc_run_linear) (simp add: byte_bits_def)
  finally have "crc_run c (byte_bits b) = 0 \<longleftrightarrow> c XOR b = 0" by (simp add: crc_run_own_byte crc_run_zeros)
  then show ?thesis by (simp add: xor_zero_iff)
qed

lemma byte_of_bits: "length bs = 8 \<Longrightarrow> \<exists>b. byte_bits b = bs"
  by (rule exI[of _ "horner_sum of_bool 2 bs"])
    (auto intro!: nth_equalityI simp: byte_bits_def bit_horner_sum_bit_word_iff)

text \<open>At most eight consecutive bits that are not all zero leave a nonzero checksum.\<close>

lemma crc_run_burst:
  assumes "length bs \<le> 8" and "crc_run 0 (replicate p False @ bs @ replicate q False) = 0"
  shows "bs = replicate (length bs) False"
proof -
  have z: "crc_run 0 (replicate n False) = 0" for n by (simp add: crc_run_zeros)
  have "crc_run 0 bs = 0" using assms(2) by (simp add: z crc_run_zeros)
  then have "crc_run 0 (bs @ replicate (8 - length bs) False) = 0" by (simp add: z)
  moreover obtain b where b: "byte_bits b = bs @ replicate (8 - length bs) False" using byte_of_bits assms(1) by force
  ultimately have "b = 0" using crc_run_byte[of 0 b] by simp
  then have "bs @ replicate (8 - length bs) False = replicate 8 False" unfolding b[symmetric] by (simp add: byte_bits_def numeral_eq_Suc)
  then have "take (length bs) (bs @ replicate (8 - length bs) False) = take (length bs) (replicate 8 False)" by simp
  then show ?thesis using assms(1) by (simp add: min_def)
qed

section \<open>What the wire delivers\<close>

fun wire_bits :: "'w gpio \<Rightarrow> nat \<Rightarrow> 'w \<Rightarrow> 'w \<times> bool list" where
  "wire_bits G 0 w = (w, [])"
| "wire_bits G (Suc n) w = (case read_bit G w of (w1, b) \<Rightarrow> case wire_bits G n w1 of (w2, bs) \<Rightarrow> (w2, b # bs))"

lemma wire_bits_length [simp]: "length (snd (wire_bits G n w)) = n"
  by (induction n arbitrary: w) (simp_all add: case_prod_beta)

lemma wire_bits_add:
  "wire_bits G (m + n) w = (fst (wire_bits G n (fst (wire_bits G m w))), snd (wire_bits G m w) @ snd (wire_bits G n (fst (wire_bits G m w))))"
  by (induction m arbitrary: w) (simp_all add: case_prod_beta)

definition read_byte_step :: "'w gpio \<Rightarrow> nat \<Rightarrow> 'w \<times> u8 \<Rightarrow> 'w \<times> u8" where
  "read_byte_step G i = (\<lambda>(w, byte). case read_bit G w of (w', b) \<Rightarrow> (w', if b then byte OR push_bit i 1 else byte))"

lemma read_byte_fold:
  fixes byte :: u8
  assumes "k + n \<le> 8" and "\<And>i. k \<le> i \<Longrightarrow> \<not> bit byte i"
  shows "\<exists>B. fold (read_byte_step G) [k..<k + n] (w, byte) = (fst (wire_bits G n w), B)
           \<and> map (bit B) [0..<k + n] = map (bit byte) [0..<k] @ snd (wire_bits G n w)"
  using assms
proof (induction n arbitrary: k w byte)
  case (Suc n)
  obtain w1 b where r: "read_bit G w = (w1, b)" by fastforce
  define byte1 :: u8 where "byte1 = (if b then byte OR push_bit k 1 else byte)"
  have step: "read_byte_step G k (w, byte) = (w1, byte1)" by (simp add: read_byte_step_def r byte1_def)
  have bits: "bit byte1 i \<longleftrightarrow> bit byte i \<or> (b \<and> i = k)" for i
    using Suc.prems(1) by (auto simp: byte1_def bit_or_iff bit_push_bit_iff bit_exp_iff simp del: bit_0)
  obtain B where B: "fold (read_byte_step G) [Suc k..<Suc k + n] (w1, byte1) = (fst (wire_bits G n w1), B)"
      "map (bit B) [0..<Suc k + n] = map (bit byte1) [0..<Suc k] @ snd (wire_bits G n w1)"
    using Suc.IH[of "Suc k" byte1 w1] Suc.prems bits by auto
  have "map (bit byte1) [0..<Suc k] = map (bit byte) [0..<k] @ [b]" using Suc.prems(2)[of k] bits by simp
  then show ?case using B by (simp add: upt_conv_Cons[of k] step r case_prod_beta del: upt_Suc)
qed simp

lemma read_byte_steps: "read_byte G w = fold (read_byte_step G) [0..<8] (w, 0)"
  unfolding read_byte_def read_byte_step_def ..

lemma read_byte_bits: "read_byte G w = (w', B) \<Longrightarrow> w' = fst (wire_bits G 8 w) \<and> byte_bits B = snd (wire_bits G 8 w)"
  using read_byte_fold[of 0 8 0 G w] by (auto simp: read_byte_steps byte_bits_def simp del: upt_Suc)

lemma read_bytes_bits:
  "fst (read_bytes G n w) = fst (wire_bits G (8 * n) w) \<and> frame_bits (snd (read_bytes G n w)) = snd (wire_bits G (8 * n) w)
     \<and> length (snd (read_bytes G n w)) = n"
proof (induction n arbitrary: w)
  case (Suc n)
  obtain w1 b where r: "read_byte G w = (w1, b)" by fastforce
  have w1: "fst (wire_bits G 8 w) = w1" and b: "byte_bits b = snd (wire_bits G 8 w)"
    using read_byte_bits[OF r] by simp_all
  have s: "8 * Suc n = 8 + 8 * n" by simp
  show ?case unfolding s wire_bits_add w1 using Suc[of w1] by (simp add: r b case_prod_beta frame_bits_def)
qed (simp add: frame_bits_def)

lemma byte_bits_inject: "byte_bits a = byte_bits b \<longleftrightarrow> a = b"
proof
  assume "byte_bits a = byte_bits b"
  then have "bit a n = bit b n" if "n < 8" for n using that by (auto simp: byte_bits_def simp del: upt_Suc)
  then show "a = b" by (intro bit_word_eqI) simp
qed simp

lemma frame_bits_length [simp]: "length (frame_bits bs) = 8 * length bs"
  by (induction bs) (simp_all add: frame_bits_def byte_bits_def)

lemma frame_bits_inject: "length as = length bs \<Longrightarrow> frame_bits as = frame_bits bs \<longleftrightarrow> as = bs"
  by (induction as bs rule: list_induct2) (auto simp: frame_bits_def byte_bits_inject, simp_all add: byte_bits_def)

text \<open>The bits of the frame that \<open>read_scratchpad\<close> accepts are those whose checksum over all nine bytes is zero.\<close>

lemma crc8_frame:
  assumes "length s = 9"
  shows "crc8 (take 8 s) = s ! 8 \<longleftrightarrow> crc_run 0 (frame_bits s) = 0"
proof -
  have "s = take 8 s @ [s ! 8]" using assms by (metis id_take_nth_drop drop_all le_refl lessI Suc_numeral add_One semiring_norm(5) append_Nil2)
  then have "frame_bits s = frame_bits (take 8 s) @ byte_bits (s ! 8)" by (metis frame_bits_def map_append concat_append list.simps(8,9) concat.simps append_Nil2)
  then show ?thesis by (simp add: crc8_run crc_run_byte)
qed

lemma diff_outside_window:
  assumes "length xs = length ys" and "\<And>i. i < length ys \<Longrightarrow> i < p \<or> p + 8 \<le> i \<Longrightarrow> xs ! i = ys ! i"
  shows "\<exists>a bs c. length bs \<le> 8 \<and> map2 (\<lambda>x y. x = (\<not> y)) xs ys = replicate a False @ bs @ replicate c False"
proof -
  define d where "d = map2 (\<lambda>x y. x = (\<not> y)) xs ys"
  have n: "i < length d \<Longrightarrow> i < p \<or> p + 8 \<le> i \<Longrightarrow> \<not> d ! i" for i using assms by (simp add: d_def)
  have "take p d = replicate (length (take p d)) False" by (rule nth_equalityI) (simp_all add: n)
  moreover have "drop (p + 8) d = replicate (length (drop (p + 8) d)) False" by (rule nth_equalityI) (simp_all add: n)
  moreover have "d = take p d @ take 8 (drop p d) @ drop (p + 8) d" by (metis append_take_drop_id drop_drop add.commute)
  ultimately have "d = replicate (length (take p d)) False @ take 8 (drop p d) @ replicate (length (drop (p + 8) d)) False" by argo
  then show ?thesis unfolding d_def[symmetric] by (intro exI[of _ "length (take p d)"] exI[of _ "take 8 (drop p d)"] exI) simp
qed

lemma burst_detected:
  assumes l: "length xs = length ys" and w: "\<And>i. i < length ys \<Longrightarrow> i < p \<or> p + 8 \<le> i \<Longrightarrow> xs ! i = ys ! i"
    and y: "crc_run 0 ys = 0"
  shows "crc_run 0 xs = 0 \<longleftrightarrow> xs = ys"
proof
  assume x: "crc_run 0 xs = 0"
  obtain a bs c where d: "length bs \<le> 8" "map2 (\<lambda>x y. x = (\<not> y)) xs ys = replicate a False @ bs @ replicate c False"
    using diff_outside_window[OF l w] by blast
  have "crc_run 0 (map2 (\<lambda>x y. x = (\<not> y)) xs ys) = 0" using crc_run_linear[OF l, of 0 0] x y by simp
  then have "map2 (\<lambda>x y. x = (\<not> y)) xs ys = replicate a False @ replicate (length bs) False @ replicate c False"
    using crc_run_burst d by metis
  then have z: "map2 (\<lambda>x y. x = (\<not> y)) xs ys = replicate (a + length bs + c) False" by (simp add: replicate_add)
  show "xs = ys"
  proof (rule nth_equalityI)
    fix i assume "i < length xs"
    then have "map2 (\<lambda>x y. x = (\<not> y)) xs ys ! i = (xs ! i = (\<not> ys ! i))" "i < length (map2 (\<lambda>x y. x = (\<not> y)) xs ys)"
      using l by simp_all
    then show "xs ! i = ys ! i" unfolding z by simp
  qed (rule l)
qed (simp add: y)

lemma read_scratchpad_burst:
  assumes "length s = 9" and "crc8 (take 8 s) = s ! 8" and "wire_bits G 72 w = (w', bs)"
    and "\<And>i. i < 72 \<Longrightarrow> i < p \<or> p + 8 \<le> i \<Longrightarrow> bs ! i = frame_bits s ! i"
  shows "fst (read_scratchpad G w) = w'"
    and "bs = frame_bits s \<Longrightarrow> snd (read_scratchpad G w) = (0, s)"
    and "bs \<noteq> frame_bits s \<Longrightarrow> fst (snd (read_scratchpad G w)) = err EIO"
proof -
  obtain w1 r where rb: "read_bytes G 9 w = (w1, r)" by fastforce
  have r: "w1 = w'" "frame_bits r = bs" "length r = 9"
    using read_bytes_bits[of G 9 w] rb assms(3) by simp_all
  have ok: "crc8 (take 8 r) = r ! 8 \<longleftrightarrow> bs = frame_bits s"
    unfolding crc8_frame[OF r(3)] r(2)
    by (rule burst_detected[where p = p]) (use assms r in \<open>auto simp: crc8_frame\<close>)
  show "fst (read_scratchpad G w) = w'" by (simp add: read_scratchpad_def rb r)
  show "bs = frame_bits s \<Longrightarrow> snd (read_scratchpad G w) = (0, s)"
    using ok r assms(1) frame_bits_inject[of r s] by (simp add: read_scratchpad_def rb)
  show "bs \<noteq> frame_bits s \<Longrightarrow> fst (snd (read_scratchpad G w)) = err EIO"
    using ok by (simp add: read_scratchpad_def rb)
qed

lemma sint_of_bytes: "sint (ucast lo OR push_bit 8 (ucast hi) :: u16) = uint lo + 256 * sint hi" for lo hi :: u8
proof -
  have "ucast lo OR push_bit 8 (ucast hi) = (word_of_int (uint lo + 256 * sint hi) :: u16)"
  proof -
    have "(ucast lo :: u16) OR push_bit 8 (ucast hi) = ucast lo + push_bit 8 (ucast hi)"
      by (rule disjunctive_add[symmetric]) (auto simp: bit_simps dest: bit_imp_le_length)
    moreover have "push_bit 8 (ucast hi) = (push_bit 8 (scast hi) :: u16)"
      by (rule bit_word_eqI) (auto simp: bit_simps)
    ultimately show ?thesis by (simp add: push_bit_eq_mult unsigned_of_int signed_of_int)
  qed
  moreover have "- 128 \<le> sint hi" "sint hi < 128" "0 \<le> uint lo" "uint lo < 256"
    using sint_greater_eq[of hi] sint_less[of hi] unsigned_less[of lo, where 'a = int] by simp_all
  moreover from this have "- 32768 \<le> uint lo + 256 * sint hi" "uint lo + 256 * sint hi < 32768" by linarith+
  moreover from this have "sint (word_of_int (uint lo + 256 * sint hi) :: u16) = uint lo + 256 * sint hi"
    unfolding signed_of_int by (subst signed_take_bit_int_eq_self) simp_all
  ultimately show ?thesis by simp
qed

text \<open>
  C37: Let the sensor answer the two resets of a measurement and send a scratchpad \<open>s\<close> whose ninth byte
  is the checksum of the first eight, and let the wire deliver its 72 bits with at most eight
  consecutive ones disturbed, in any way. Then the server's answer is right or it is an error: when
  the bits are the ones sent it is the measured temperature in hundredths of a degree, the signed
  16-bit count of sixteenths in the first two bytes times 25 over 4 rounded towards zero, with the
  flags of a real measurement; when any bit was changed it is \<open>-EIO\<close> and no temperature.
\<close>

theorem ds18b20_right_or_error:
  assumes "ow_select G rom w = (w1, True)"
    and "ow_select G rom (gp_wait G 750000 (write_byte G 0x44 w1)) = (w2, True)"
    and "wire_bits G 72 (write_byte G 0xBE w2) = (w3, bs)"
    and "length s = 9" and "crc8 (take 8 s) = s ! 8"
    and "\<forall>i < 72. i < p \<or> p + 8 \<le> i \<longrightarrow> bs ! i = frame_bits s ! i"
  shows "op_read_temp_c100 (Some (G, rom)) clock (w, t) = ((w3, t),
           if bs = frame_bits s then (0, Some (tdiv ((uint (s ! 0) + 256 * sint (s ! 1)) * 25) 4, 0)) else (err EIO, None))"
proof -
  obtain e sp where rs: "read_scratchpad G (write_byte G 0xBE w2) = (w3, e, sp)"
    and ok: "bs = frame_bits s \<Longrightarrow> e = 0 \<and> sp = s" and bad: "bs \<noteq> frame_bits s \<Longrightarrow> e = err EIO"
    using read_scratchpad_burst[OF assms(4,5,3), of p] assms(6) by (metis prod.collapse fst_conv snd_conv)
  show ?thesis
    using ok bad unfolding op_read_temp_c100_def read_temp_c100_def read_temp_raw_def
    by (simp add: assms(1,2) rs sint_of_bytes)
qed

text \<open>A sensor that answers every reset and sends the listed bits, one in each read slot.\<close>

definition demo_wire :: "(bool \<times> bool list) gpio" where
  "demo_wire = \<lparr> gp_output = id, gp_input = id, gp_get = (\<lambda>(pulse, bs). if pulse then 0 else of_bool (hd bs)),
     gp_wait = (\<lambda>us (pulse, bs). if us = 70 then (True, bs) else if us = 410 then (False, bs) else if us = 50 then (pulse, tl bs) else (pulse, bs)) \<rparr>"

definition demo_pad :: "u8 list" where
  "demo_pad = [0x50, 0x05, 0x4B, 0x46, 0x7F, 0xFF, 0x0C, 0x10, 0x1C]"

lemma demo_write: "write_byte demo_wire b s = s"
proof -
  have "write_bit demo_wire c s = s" for c s by (cases s) (simp add: write_bit_def demo_wire_def)
  then have "fold (\<lambda>i. write_bit demo_wire (f i)) xs s = s" for f and xs :: "nat list" by (induction xs) simp_all
  then show ?thesis by (simp add: write_byte_def)
qed

lemma demo_select: "ow_select demo_wire 0 (False, bs) = ((False, bs), True)"
proof -
  have "ow_reset demo_wire (False, bs) = ((False, bs), True)" by (simp add: ow_reset_def demo_wire_def)
  then show ?thesis by (simp add: ow_select_def demo_write)
qed

lemma demo_bits: "n = length bs \<Longrightarrow> wire_bits demo_wire n (False, bs) = ((False, []), bs)"
proof (induction n arbitrary: bs)
  case (Suc n)
  then obtain b bs' where bs: "bs = b # bs'" "n = length bs'" by (cases bs) auto
  have "read_bit demo_wire (False, b # bs') = ((False, bs'), b)" by (simp add: read_bit_def demo_wire_def)
  then show ?case using Suc.IH[of bs'] bs by simp
qed simp

lemma crc8_bits_numeral:
  "crc8_bits (numeral k) crc byte =
     crc8_bits (pred_numeral k) (if (crc XOR byte) AND 0x01 \<noteq> 0 then drop_bit 1 crc XOR 0x8C else drop_bit 1 crc) (drop_bit 1 byte)"
  by (simp add: numeral_eq_Suc)

lemma demo_crc_bytes:
 
  "crc8_bits 8 0 80 = 219"
  "crc8_bits 8 219 5 = 72"
  "crc8_bits 8 72 75 = 226"
  "crc8_bits 8 226 70 = 206"
  "crc8_bits 8 206 127 = 108"
  "crc8_bits 8 108 255 = 243"
  "crc8_bits 8 243 12 = 53"
  "crc8_bits 8 53 16 = 28"
  by (simp_all add: crc8_bits_numeral)

theorem ds18b20_right_or_error_witness:
  "op_read_temp_c100 (Some (demo_wire, 0)) 0 ((False, frame_bits demo_pad), 2500) = (((False, []), 2500), 0, Some (8500, 0))
     \<and> op_read_temp_c100 (Some (demo_wire, 0)) 0 ((False, (frame_bits demo_pad)[10 := False]), 2500) = (((False, []), 2500), err EIO, None)"
proof
  have w: "gp_wait demo_wire 750000 (False, bs) = (False, bs)" for bs by (simp add: demo_wire_def)
  have l: "length demo_pad = 9" by (simp add: demo_pad_def)
  have c: "crc8 (take 8 demo_pad) = demo_pad ! 8" by (simp add: demo_pad_def crc8_def demo_crc_bytes del: crc8_bits.simps)
  have b: "frame_bits demo_pad ! 10" by (simp add: demo_pad_def frame_bits_def byte_bits_def nth_append)
  have t: "tdiv ((uint (demo_pad ! 0) + 256 * sint (demo_pad ! 1)) * 25) 4 = 8500" by (simp add: demo_pad_def tdiv_def)
  have sel: "ow_select demo_wire 0 (gp_wait demo_wire 750000 (write_byte demo_wire 0x44 (False, bs))) = ((False, bs), True)" for bs
    by (simp add: demo_write w demo_select)
  have bits: "length bs = 72 \<Longrightarrow> wire_bits demo_wire 72 (write_byte demo_wire 0xBE (False, bs)) = ((False, []), bs)" for bs
    by (simp add: demo_write demo_bits)
  note R = ds18b20_right_or_error[OF demo_select sel bits l c]
  show "op_read_temp_c100 (Some (demo_wire, 0)) 0 ((False, frame_bits demo_pad), 2500) = (((False, []), 2500), 0, Some (8500, 0))"
    by (subst R[where p = 0]) (simp_all only: t if_True l frame_bits_length, simp_all)
  have "(frame_bits demo_pad)[10 := False] ! 10 = False" by (simp add: l)
  then have "(frame_bits demo_pad)[10 := False] \<noteq> frame_bits demo_pad" using b by metis
  then show "op_read_temp_c100 (Some (demo_wire, 0)) 0 ((False, (frame_bits demo_pad)[10 := False]), 2500) = (((False, []), 2500), err EIO, None)"
    by (subst R[where p = 10]) (auto simp: l)
qed

end
