(* ===== verification/Ext4.thy ===== *)
theory Ext4
  imports App_Model Tmpfs_Inode Calendar
begin

text \<open>
  Files of the ext4 server: the object the server keeps for each open file,
  \<^verbatim>\<open>pkg/filesystem/ext4/server/src/ext4_file_svr.cc\<close>, and the file object of its clients,
  \<^verbatim>\<open>client/src/ext4_vfs.cc\<close>, which cuts reads and writes into requests that fit a bounce buffer of
  64 KiB both sides have mapped. The file system itself is the library \<^verbatim>\<open>lwext4\<close>, which is a
  parameter: its calls act on a disk and on a file handle. Bytes are characters.
\<close>

section \<open>The library\<close>

text \<open>
  A call gives the new handle, and the disk where it can change it; \<open>lw_fread\<close> gives the bytes read and
  \<open>lw_fwrite\<close> the number written, or \<open>None\<close> when the call does not return \<^verbatim>\<open>EOK\<close>.
\<close>

datatype whence = SEEK_SET | SEEK_END

record ('d, 'f) lwext4 =
  lw_fopen2 :: "string \<Rightarrow> 'd \<Rightarrow> 'd \<times> 'f option"
  lw_fclose :: "'f \<Rightarrow> 'd \<Rightarrow> 'd"
  lw_fsize :: "'f \<Rightarrow> 'd \<Rightarrow> u64"
  lw_fseek :: "'f \<Rightarrow> int \<Rightarrow> whence \<Rightarrow> 'd \<Rightarrow> 'f \<times> bool"
  lw_fread :: "'f \<Rightarrow> nat \<Rightarrow> 'd \<Rightarrow> 'f \<times> string option"
  lw_fwrite :: "'f \<Rightarrow> string \<Rightarrow> 'd \<Rightarrow> 'd \<times> 'f \<times> nat option"
  lw_ftruncate :: "'f \<Rightarrow> u64 \<Rightarrow> 'd \<Rightarrow> 'd \<times> 'f \<times> bool"

section \<open>The server's object\<close>

definition BUF_SIZE :: u32 where "BUF_SIZE = 64 * 1024"

text \<open>\<open>sv_file\<close> is the handle while the file is open, \<open>sv_buf\<close> the mapped bounce buffer.\<close>

record 'f file_svr =
  sv_path :: string
  sv_file :: "'f option"
  sv_buf :: "string option"
  sv_ok :: bool

text \<open>The three flags: a capability slot, memory and address space were available.\<close>

definition svr_new :: "bool \<Rightarrow> bool \<Rightarrow> bool \<Rightarrow> string \<Rightarrow> 'f file_svr" where
  "svr_new slot alloc attach path =
     (let ok = slot \<and> alloc \<and> attach
      in \<lparr>sv_path = take 257 path, sv_file = None, sv_buf = (if ok then Some (replicate (unat BUF_SIZE) NUL) else None), sv_ok = ok\<rparr>)"

definition ensure_open :: "('d, 'f) lwext4 \<Rightarrow> 'd \<times> 'f file_svr \<Rightarrow> ('d \<times> 'f file_svr) \<times> 'f option" where
  "ensure_open L S =
     (case S of (d, s) \<Rightarrow>
        case sv_file s of
          Some f \<Rightarrow> (S, Some f)
        | None \<Rightarrow>
            (case lw_fopen2 L (sv_path s) d of
               (d', None) \<Rightarrow> ((d', s), None)
             | (d', Some f) \<Rightarrow> ((d', s\<lparr>sv_file := Some f\<rparr>), Some f)))"

definition op_setup :: "('d, 'f) lwext4 \<Rightarrow> 'd \<times> 'f file_svr \<Rightarrow> ('d \<times> 'f file_svr) \<times> int \<times> (u64 \<times> u32) option" where
  "op_setup L S =
     (if \<not> sv_ok (snd S) then (S, err ENOMEM, None)
      else case ensure_open L S of
             (S', None) \<Rightarrow> (S', err EIO, None)
           | (S', Some f) \<Rightarrow> (S', 0, Some (lw_fsize L f (fst S'), BUF_SIZE)))"

text \<open>The 64-bit offset is passed on as a signed number. The result is the return value and \<^verbatim>\<open>got\<close>.\<close>

definition op_pread :: "('d, 'f) lwext4 \<Rightarrow> u64 \<Rightarrow> u32 \<Rightarrow> 'd \<times> 'f file_svr \<Rightarrow> ('d \<times> 'f file_svr) \<times> int \<times> u32" where
  "op_pread L off len S =
     (if \<not> sv_ok (snd S) \<or> sv_buf (snd S) = None then (S, err ENOMEM, 0)
      else case ensure_open L S of
        (S', None) \<Rightarrow> (S', err EIO, 0)
      | ((d, s), Some f) \<Rightarrow>
          let n = (if len > BUF_SIZE then BUF_SIZE else len)
          in case lw_fseek L f (sint off) SEEK_SET d of (f1, ok) \<Rightarrow>
               if \<not> ok then ((d, s\<lparr>sv_file := Some f1\<rparr>), err EIO, 0)
               else case lw_fread L f1 (unat n) d of
                 (f2, None) \<Rightarrow> ((d, s\<lparr>sv_file := Some f2\<rparr>), err EIO, 0)
               | (f2, Some bs) \<Rightarrow>
                   ((d, s\<lparr>sv_file := Some f2, sv_buf := map_option (\<lambda>b. bs @ drop (length bs) b) (sv_buf s)\<rparr>), 0, of_nat (length bs)))"

definition op_pwrite :: "('d, 'f) lwext4 \<Rightarrow> u64 \<Rightarrow> u32 \<Rightarrow> 'd \<times> 'f file_svr \<Rightarrow> ('d \<times> 'f file_svr) \<times> int \<times> u32" where
  "op_pwrite L off len S =
     (case sv_buf (snd S) of
        None \<Rightarrow> (S, err ENOMEM, 0)
      | Some b \<Rightarrow>
          if \<not> sv_ok (snd S) then (S, err ENOMEM, 0)
          else case ensure_open L S of
            (S', None) \<Rightarrow> (S', err EIO, 0)
          | ((d, s), Some f) \<Rightarrow>
              let n = (if len > BUF_SIZE then BUF_SIZE else len)
              in case lw_fseek L f (sint off) SEEK_SET d of (f1, ok) \<Rightarrow>
                   if \<not> ok then ((d, s\<lparr>sv_file := Some f1\<rparr>), err EIO, 0)
                   else case lw_fwrite L f1 (take (unat n) b) d of (d', f2, wc) \<Rightarrow>
                     if wc \<noteq> Some (unat n) then ((d', s\<lparr>sv_file := Some f2\<rparr>), err EIO, 0)
                     else ((d', s\<lparr>sv_file := Some f2\<rparr>), 0, n))"

text \<open>The result is the return value, \<^verbatim>\<open>put\<close> and the offset \<^verbatim>\<open>off\<close>.\<close>

definition op_pappend :: "('d, 'f) lwext4 \<Rightarrow> u32 \<Rightarrow> 'd \<times> 'f file_svr \<Rightarrow> ('d \<times> 'f file_svr) \<times> int \<times> u32 \<times> u64" where
  "op_pappend L len S =
     (case sv_buf (snd S) of
        None \<Rightarrow> (S, err ENOMEM, 0, 0)
      | Some b \<Rightarrow>
          if \<not> sv_ok (snd S) then (S, err ENOMEM, 0, 0)
          else case ensure_open L S of
            (S', None) \<Rightarrow> (S', err EIO, 0, 0)
          | ((d, s), Some f) \<Rightarrow>
              let n = (if len > BUF_SIZE then BUF_SIZE else len)
              in case lw_fseek L f 0 SEEK_END d of (f1, ok) \<Rightarrow>
                   if \<not> ok then ((d, s\<lparr>sv_file := Some f1\<rparr>), err EIO, 0, 0)
                   else let off = lw_fsize L f1 d
                     in case lw_fwrite L f1 (take (unat n) b) d of (d', f2, wc) \<Rightarrow>
                       if wc \<noteq> Some (unat n) then ((d', s\<lparr>sv_file := Some f2\<rparr>), err EIO, 0, off)
                       else ((d', s\<lparr>sv_file := Some f2\<rparr>), 0, n, off))"

definition op_ftruncate :: "('d, 'f) lwext4 \<Rightarrow> u64 \<Rightarrow> 'd \<times> 'f file_svr \<Rightarrow> ('d \<times> 'f file_svr) \<times> int" where
  "op_ftruncate L sz S =
     (if \<not> sv_ok (snd S) then (S, err ENOMEM)
      else case ensure_open L S of
        (S', None) \<Rightarrow> (S', err EIO)
      | ((d, s), Some f) \<Rightarrow>
          (case lw_ftruncate L f sz d of (d', f', ok) \<Rightarrow> ((d', s\<lparr>sv_file := Some f'\<rparr>), if ok then 0 else err EIO)))"

text \<open>The object deletes itself: what is left is the disk.\<close>

definition op_release :: "('d, 'f) lwext4 \<Rightarrow> 'd \<times> 'f file_svr \<Rightarrow> 'd \<times> int" where
  "op_release L S = (case S of (d, s) \<Rightarrow> (case sv_file s of Some f \<Rightarrow> lw_fclose L f d | None \<Rightarrow> d, 0))"

section \<open>The client's file\<close>

text \<open>The client maps the bounce buffer of its server object: it is \<open>sv_buf\<close>.\<close>

record vfs =
  vf_buf_size :: u32
  vf_size :: u64
  vf_append :: bool
  vf_valid :: bool

definition vfs_new :: "('d, 'f) lwext4 \<Rightarrow> bool \<Rightarrow> bool \<Rightarrow> 'd \<times> 'f file_svr \<Rightarrow> ('d \<times> 'f file_svr) \<times> vfs" where
  "vfs_new L slot attach S =
     (if \<not> slot then (S, \<lparr>vf_buf_size = 0, vf_size = 0, vf_append = False, vf_valid = False\<rparr>)
      else case op_setup L S of (S', r, reply) \<Rightarrow>
        (S', case reply of
               None \<Rightarrow> \<lparr>vf_buf_size = 0, vf_size = 0, vf_append = False, vf_valid = False\<rparr>
             | Some (fsize, bsz) \<Rightarrow>
                 if r < 0 \<or> bsz = 0 then \<lparr>vf_buf_size = 0, vf_size = 0, vf_append = False, vf_valid = False\<rparr>
                 else \<lparr>vf_buf_size = bsz, vf_size = fsize, vf_append = False, vf_valid = attach\<rparr>))"

definition vfs_delete :: "('d, 'f) lwext4 \<Rightarrow> 'd \<times> 'f file_svr \<Rightarrow> 'd" where
  "vfs_delete L S = fst (op_release L S)"

text \<open>
  The requests for one buffer of \<^verbatim>\<open>preadv\<close>, with \<open>remain\<close> bytes to read and \<open>tot\<close> read before: the bytes
  that were read, and how the loop ended: \<open>None\<close> at the end of the buffer, \<open>Some err\<close> when the whole call
  returns, with \<open>err\<close> for an error. \<^verbatim>\<open>ssize_t\<close> has 32 bits.
\<close>

function read_chunks :: "('d, 'f) lwext4 \<Rightarrow> nat \<Rightarrow> nat \<Rightarrow> int \<Rightarrow> nat \<Rightarrow> 'd \<times> 'f file_svr \<Rightarrow> (('d \<times> 'f file_svr) \<times> string \<times> bool option) outcome" where
  "read_chunks L bsz remain pos tot S =
     (if remain = 0 then Ret (S, [], None)
      else let chunk = (if remain > bsz then bsz else remain)
        in case op_pread L (word_of_int pos) (of_nat chunk) S of (S', r, got) \<Rightarrow>
          if r < 0 then Ret (S', [], Some True)
          else if got = 0 then Ret (S', [], Some False)
          else let g = unat got; b = (case sv_buf (snd S') of None \<Rightarrow> [] | Some b \<Rightarrow> b)
            in if remain < g \<or> length b < g \<or> 2 ^ 31 \<le> tot + g then Fault
               else if g < chunk then Ret (S', take g b, Some False)
               else obind (read_chunks L bsz (remain - g) (pos + int g) (tot + g) S')
                 (\<lambda>(S'', bs, stop). Ret (S'', take g b @ bs, stop)))"
  by pat_completeness auto

termination
  by (relation "measure (\<lambda>(_, _, remain, _, _, _). remain)") (auto simp: unat_gt_0)

declare read_chunks.simps [simp del]

text \<open>The buffers are filled one after the other; the bytes of all of them together are given.\<close>

fun read_iovs :: "('d, 'f) lwext4 \<Rightarrow> nat \<Rightarrow> nat list \<Rightarrow> int \<Rightarrow> nat \<Rightarrow> 'd \<times> 'f file_svr \<Rightarrow> (('d \<times> 'f file_svr) \<times> string \<times> bool option) outcome" where
  "read_iovs L bsz [] pos tot S = Ret (S, [], None)"
| "read_iovs L bsz (n # ns) pos tot S =
     obind (read_chunks L bsz n pos tot S) (\<lambda>(S', bs, stop).
       if stop \<noteq> None then Ret (S', bs, stop)
       else obind (read_iovs L bsz ns (pos + int (length bs)) (tot + length bs) S')
         (\<lambda>(S'', bs', stop'). Ret (S'', bs @ bs', stop')))"

definition vfs_preadv :: "('d, 'f) lwext4 \<Rightarrow> nat list \<Rightarrow> int \<Rightarrow> vfs \<Rightarrow> 'd \<times> 'f file_svr \<Rightarrow> (('d \<times> 'f file_svr) \<times> int \<times> string) outcome" where
  "vfs_preadv L ns offset v S =
     (if \<not> vf_valid v then Ret (S, err EIO, [])
      else obind (read_iovs L (unat (vf_buf_size v)) ns offset 0 S) (\<lambda>(S', bs, stop).
        Ret (S', if stop = Some True \<and> bs = [] then err EIO else int (length bs), bs)))"

text \<open>The requests for one buffer of \<^verbatim>\<open>pwritev\<close>; \<open>sz\<close> is the tracked file size.\<close>

function write_chunks :: "('d, 'f) lwext4 \<Rightarrow> nat \<Rightarrow> bool \<Rightarrow> string \<Rightarrow> int \<Rightarrow> nat \<Rightarrow> u64 \<Rightarrow> 'd \<times> 'f file_svr \<Rightarrow> (('d \<times> 'f file_svr) \<times> int \<times> nat \<times> u64 \<times> bool option) outcome" where
  "write_chunks L bsz app src pos tot sz S =
     (if src = [] then Ret (S, pos, tot, sz, None)
      else let chunk = (if length src > bsz then bsz else length src)
        in obind (mem_put (case sv_buf (snd S) of None \<Rightarrow> [] | Some b \<Rightarrow> b) 0 (take chunk src)) (\<lambda>b.
          let S1 = (fst S, (snd S)\<lparr>sv_buf := Some b\<rparr>)
          in case (if app
                   then (case op_pappend L (of_nat chunk) S1 of (S2, r, put, at) \<Rightarrow>
                           (S2, r, put, if 0 \<le> r \<and> put > 0 then sint (at + ucast put) else pos))
                   else (case op_pwrite L (word_of_int pos) (of_nat chunk) S1 of (S2, r, put) \<Rightarrow>
                           (S2, r, put, if 0 \<le> r \<and> put > 0 then pos + int (unat put) else pos)))
             of (S2, r, put, pos') \<Rightarrow>
               if r < 0 \<or> put = 0 then Ret (S2, pos', tot, sz, Some True)
               else let p = unat put; sz' = (if word_of_int pos' > sz then word_of_int pos' else sz)
                 in if length src < p \<or> 2 ^ 31 \<le> tot + p then Fault
                    else if p < chunk then Ret (S2, pos', tot + p, sz', Some False)
                    else write_chunks L bsz app (drop p src) pos' (tot + p) sz' S2))"
  by pat_completeness auto

termination
  by (relation "measure (\<lambda>(_, _, _, src, _). length src)") (auto simp: unat_gt_0)

declare write_chunks.simps [simp del]

fun write_iovs :: "('d, 'f) lwext4 \<Rightarrow> nat \<Rightarrow> bool \<Rightarrow> string list \<Rightarrow> int \<Rightarrow> nat \<Rightarrow> u64 \<Rightarrow> 'd \<times> 'f file_svr \<Rightarrow> (('d \<times> 'f file_svr) \<times> int \<times> nat \<times> u64 \<times> bool option) outcome" where
  "write_iovs L bsz app [] pos tot sz S = Ret (S, pos, tot, sz, None)"
| "write_iovs L bsz app (src # srcs) pos tot sz S =
     obind (write_chunks L bsz app src pos tot sz S) (\<lambda>(S', pos', tot', sz', stop).
       if stop \<noteq> None then Ret (S', pos', tot', sz', stop)
       else write_iovs L bsz app srcs pos' tot' sz' S')"

definition vfs_pwritev :: "('d, 'f) lwext4 \<Rightarrow> string list \<Rightarrow> int \<Rightarrow> vfs \<Rightarrow> 'd \<times> 'f file_svr \<Rightarrow> (('d \<times> 'f file_svr) \<times> vfs \<times> int) outcome" where
  "vfs_pwritev L srcs offset v S =
     (if \<not> vf_valid v then Ret (S, v, err EIO)
      else obind (write_iovs L (unat (vf_buf_size v)) (vf_append v) srcs offset 0 (vf_size v) S) (\<lambda>(S', _, tot, sz, stop).
        Ret (S', v\<lparr>vf_size := sz\<rparr>, if stop = Some True \<and> tot = 0 then err EIO else int tot)))"

text \<open>\<^verbatim>\<open>S_IFREG | 0644\<close> is octal 100644.\<close>

definition vfs_fstat :: "vfs \<Rightarrow> stat_buf" where
  "vfs_fstat v = stat_zero\<lparr>st_mode := 33188, st_size := sint (vf_size v), st_blksize := 4096,
     st_blocks := tdiv (sint (vf_size v) + 511) 512\<rparr>"

definition vfs_ftruncate :: "('d, 'f) lwext4 \<Rightarrow> int \<Rightarrow> vfs \<Rightarrow> 'd \<times> 'f file_svr \<Rightarrow> ('d \<times> 'f file_svr) \<times> vfs \<times> int" where
  "vfs_ftruncate L pos v S =
     (if \<not> vf_valid v \<or> pos < 0 then (S, v, err EINVAL)
      else case op_ftruncate L (word_of_int pos) S of (S', r) \<Rightarrow>
        if r < 0 then (S', v, err EIO) else (S', v\<lparr>vf_size := word_of_int pos\<rparr>, 0))"

text \<open>\<^verbatim>\<open>O_RDWR\<close> is 2 and \<^verbatim>\<open>O_APPEND\<close> octal 2000.\<close>

definition get_status_flags :: "vfs \<Rightarrow> u32" where
  "get_status_flags v = 2 OR (if vf_append v then 1024 else 0)"

definition set_status_flags :: "u32 \<Rightarrow> vfs \<Rightarrow> vfs \<times> int" where
  "set_status_flags flags v = (v\<lparr>vf_append := (flags AND 1024 \<noteq> 0)\<rparr>, 0)"

section \<open>What the library documents\<close>

text \<open>
  The files of a disk by their paths (\<open>cont\<close>), the path and the position of a handle (\<open>pth\<close>, \<open>pos\<close>), and the
  largest file the disk has room for (\<open>room\<close>). Opening creates the file if there is none; seeking inside the
  file moves the position; reading gives what is there up to the end; writing inside the file or at its end
  puts all the bytes in place; truncating shortens. No call touches another file.
\<close>

definition lw_ok :: "('d, 'f) lwext4 \<Rightarrow> ('d \<Rightarrow> string \<rightharpoonup> string) \<Rightarrow> ('f \<Rightarrow> string) \<Rightarrow> ('f \<Rightarrow> nat) \<Rightarrow> nat \<Rightarrow> bool" where
  "lw_ok L cont pth pos room \<longleftrightarrow> room < 2 ^ 63 \<and>
     (\<forall>p d d' f. lw_fopen2 L p d = (d', Some f) \<longrightarrow>
        pth f = p \<and> cont d' = (cont d)(p \<mapsto> (case cont d p of None \<Rightarrow> [] | Some c \<Rightarrow> c))) \<and>
     (\<forall>f d c. cont d (pth f) = Some c \<longrightarrow> length c \<le> room \<longrightarrow>
        lw_fsize L f d = of_nat (length c) \<and>
        (\<forall>n \<le> length c. \<exists>f'. lw_fseek L f (int n) SEEK_SET d = (f', True) \<and> pth f' = pth f \<and> pos f' = n) \<and>
        (\<exists>f'. lw_fseek L f 0 SEEK_END d = (f', True) \<and> pth f' = pth f \<and> pos f' = length c) \<and>
        (\<forall>n. \<exists>f'. lw_fread L f n d = (f', Some (take n (drop (pos f) c))) \<and> pth f' = pth f) \<and>
        (\<forall>bs. pos f \<le> length c \<longrightarrow> pos f + length bs \<le> room \<longrightarrow>
           (\<exists>d' f'. lw_fwrite L f bs d = (d', f', Some (length bs)) \<and> pth f' = pth f \<and>
              cont d' = (cont d)(pth f \<mapsto> posix_write c (pos f) bs))) \<and>
        (\<forall>n \<le> length c. \<exists>d' f'. lw_ftruncate L f (of_nat n) d = (d', f', True) \<and> pth f' = pth f \<and>
           cont d' = (cont d)(pth f \<mapsto> take n c)))"

text \<open>An object of the server whose file is open, with the bounce buffer \<open>b\<close>.\<close>

definition serves :: "('f \<Rightarrow> string) \<Rightarrow> string \<Rightarrow> string \<Rightarrow> 'f file_svr \<Rightarrow> bool" where
  "serves pth p b s \<longleftrightarrow> sv_ok s \<and> sv_buf s = Some b \<and> length b = unat BUF_SIZE \<and> (\<exists>f. sv_file s = Some f \<and> pth f = p)"

lemma BUF_SIZE_nat [simp]: "unat BUF_SIZE = 65536"
  by (simp add: BUF_SIZE_def)

lemma clamp_len: "n \<le> 65536 \<Longrightarrow> (if of_nat n > BUF_SIZE then BUF_SIZE else of_nat n) = (of_nat n :: u32)"
  and unat_len: "n \<le> 65536 \<Longrightarrow> unat (of_nat n :: u32) = n"
proof -
  assume n: "n \<le> 65536"
  then show u: "unat (of_nat n :: u32) = n" unfolding unsigned_of_nat by (simp add: take_bit_nat_eq_self)
  show "(if of_nat n > BUF_SIZE then BUF_SIZE else of_nat n) = (of_nat n :: u32)"
    using n u by (simp add: word_less_nat_alt)
qed

lemma sint_offset: "n < 2 ^ 63 \<Longrightarrow> sint (of_nat n :: u64) = int n"
proof -
  assume "n < 2 ^ 63"
  then have "sint (word_of_int (int n) :: u64) = int n"
    unfolding signed_of_int by (subst signed_take_bit_int_eq_self) simp_all
  then show ?thesis by simp
qed

text \<open>The laws one by one.\<close>

lemma lw_fopenD:
  assumes "lw_ok L cont pth pos room" and "lw_fopen2 L p d = (d', Some f)"
  shows "pth f = p" and "cont d' = (cont d)(p \<mapsto> (case cont d p of None \<Rightarrow> [] | Some c \<Rightarrow> c))"
  using assms unfolding lw_ok_def by blast+

lemma lw_fileD:
  assumes "lw_ok L cont pth pos room" and "cont d (pth f) = Some c" and "length c \<le> room"
  shows "lw_fsize L f d = of_nat (length c)"
    and "n \<le> length c \<Longrightarrow> \<exists>f'. lw_fseek L f (int n) SEEK_SET d = (f', True) \<and> pth f' = pth f \<and> pos f' = n"
    and "\<exists>f'. lw_fseek L f 0 SEEK_END d = (f', True) \<and> pth f' = pth f \<and> pos f' = length c"
    and "\<exists>f'. lw_fread L f n d = (f', Some (take n (drop (pos f) c))) \<and> pth f' = pth f"
    and "pos f \<le> length c \<Longrightarrow> pos f + length bs \<le> room \<Longrightarrow>
           \<exists>d' f'. lw_fwrite L f bs d = (d', f', Some (length bs)) \<and> pth f' = pth f \<and> cont d' = (cont d)(pth f \<mapsto> posix_write c (pos f) bs)"
    and "room < 2 ^ 63"
proof -
  note laws = assms(1)[unfolded lw_ok_def, THEN conjunct2, THEN conjunct2, rule_format, OF assms(2,3)]
  show "lw_fsize L f d = of_nat (length c)" using laws by (rule conjunct1)
  show "n \<le> length c \<Longrightarrow> \<exists>f'. lw_fseek L f (int n) SEEK_SET d = (f', True) \<and> pth f' = pth f \<and> pos f' = n"
    using laws[THEN conjunct2, THEN conjunct1] by blast
  show "\<exists>f'. lw_fseek L f 0 SEEK_END d = (f', True) \<and> pth f' = pth f \<and> pos f' = length c"
    using laws[THEN conjunct2, THEN conjunct2, THEN conjunct1] .
  show "\<exists>f'. lw_fread L f n d = (f', Some (take n (drop (pos f) c))) \<and> pth f' = pth f"
    using laws[THEN conjunct2, THEN conjunct2, THEN conjunct2, THEN conjunct1] by blast
  show "pos f \<le> length c \<Longrightarrow> pos f + length bs \<le> room \<Longrightarrow>
      \<exists>d' f'. lw_fwrite L f bs d = (d', f', Some (length bs)) \<and> pth f' = pth f \<and> cont d' = (cont d)(pth f \<mapsto> posix_write c (pos f) bs)"
    using laws[THEN conjunct2, THEN conjunct2, THEN conjunct2, THEN conjunct2, THEN conjunct1] by blast
  show "room < 2 ^ 63" using assms(1) unfolding lw_ok_def by (rule conjunct1)
qed

text \<open>A handle of the server's object, placed at an offset.\<close>

lemma serves_seek:
  assumes "lw_ok L cont pth pos room" and "serves pth p b s" and "cont d p = Some c" and "length c \<le> room" and "off \<le> length c"
  obtains f f1 where "sv_file s = Some f" and "lw_fseek L f (sint (of_nat off :: u64)) SEEK_SET d = (f1, True)"
    and "pth f1 = p" and "pos f1 = off"
proof -
  obtain f where f: "sv_file s = Some f" "pth f = p" using assms(2) by (auto simp: serves_def)
  note F = lw_fileD[OF assms(1), of d f c, unfolded f(2), OF assms(3,4)]
  have "sint (of_nat off :: u64) = int off" using F(6) assms(4,5) by (intro sint_offset) simp
  then show ?thesis using F(2)[OF assms(5)] f that by force
qed

lemma op_pread_ok:
  assumes "lw_ok L cont pth pos room" and "serves pth p b s" and "cont d p = Some c" and "length c \<le> room"
    and "off \<le> length c" and "n \<le> 65536"
  shows "\<exists>s' b'. op_pread L (of_nat off) (of_nat n) (d, s) = ((d, s'), 0, of_nat (length (take n (drop off c))))
    \<and> serves pth p b' s' \<and> take (length (take n (drop off c))) b' = take n (drop off c)"
proof -
  obtain f f1 where f: "sv_file s = Some f" and f1: "lw_fseek L f (sint (of_nat off :: u64)) SEEK_SET d = (f1, True)" "pth f1 = p" "pos f1 = off"
    using serves_seek[OF assms(1-5)] by blast
  obtain f2 where f2: "lw_fread L f1 n d = (f2, Some (take n (drop off c)))" "pth f2 = p"
    using lw_fileD(4)[OF assms(1), of d f1 c n, unfolded f1(2,3), OF assms(3,4)] by blast
  define bs where "bs = take n (drop off c)"
  define s' where "s' = s\<lparr>sv_file := Some f2, sv_buf := Some (bs @ drop (length bs) b)\<rparr>"
  have b: "sv_buf s = Some b" "sv_ok s" using assms(2) by (simp_all add: serves_def)
  have "op_pread L (of_nat off) (of_nat n) (d, s) = ((d, s'), 0, of_nat (length bs))"
    unfolding op_pread_def using b f f1(1) f2(1)
    by (simp add: ensure_open_def clamp_len[OF assms(6)] unat_len[OF assms(6)] s'_def Let_def bs_def[symmetric])
  moreover have "serves pth p (bs @ drop (length bs) b) s'"
    using assms(2,6) f2 by (auto simp: serves_def s'_def bs_def)
  ultimately show ?thesis unfolding bs_def[symmetric] by (intro exI conjI) (assumption, assumption, simp)
qed

lemma op_pwrite_ok:
  assumes "lw_ok L cont pth pos room" and "serves pth p b s" and "cont d p = Some c" and "length c \<le> room"
    and "off \<le> length c" and "n \<le> 65536" and "off + n \<le> room"
  shows "\<exists>d' s'. op_pwrite L (of_nat off) (of_nat n) (d, s) = ((d', s'), 0, of_nat n)
    \<and> serves pth p b s' \<and> cont d' = (cont d)(p \<mapsto> posix_write c off (take n b))"
proof -
  obtain f f1 where f: "sv_file s = Some f" and f1: "lw_fseek L f (sint (of_nat off :: u64)) SEEK_SET d = (f1, True)" "pth f1 = p" "pos f1 = off"
    using serves_seek[OF assms(1-5)] by blast
  have b: "sv_buf s = Some b" "sv_ok s" and n: "length (take n b) = n" using assms(2,6) by (simp_all add: serves_def)
  obtain d' f2 where f2: "lw_fwrite L f1 (take n b) d = (d', f2, Some n)" "pth f2 = p"
      "cont d' = (cont d)(p \<mapsto> posix_write c off (take n b))"
    using lw_fileD(5)[OF assms(1), of d f1 c "take n b", unfolded f1(2,3) n, OF assms(3,4,5,7)] by blast
  have "op_pwrite L (of_nat off) (of_nat n) (d, s) = ((d', s\<lparr>sv_file := Some f2\<rparr>), 0, of_nat n)"
    unfolding op_pwrite_def using b f f1(1) f2(1)
    by (simp add: ensure_open_def clamp_len[OF assms(6)] unat_len[OF assms(6)] Let_def)
  moreover have "serves pth p b (s\<lparr>sv_file := Some f2\<rparr>)" using assms(2) f2(2) by (simp add: serves_def)
  ultimately show ?thesis using f2(3) by blast
qed

lemma op_pappend_ok:
  assumes "lw_ok L cont pth pos room" and "serves pth p b s" and "cont d p = Some c"
    and "n \<le> 65536" and "length c + n \<le> room"
  shows "\<exists>d' s'. op_pappend L (of_nat n) (d, s) = ((d', s'), 0, of_nat n, of_nat (length c))
    \<and> serves pth p b s' \<and> cont d' = (cont d)(p \<mapsto> c @ take n b)"
proof -
  obtain f where f: "sv_file s = Some f" "pth f = p" using assms(2) by (auto simp: serves_def)
  have b: "sv_buf s = Some b" "sv_ok s" and n: "length (take n b) = n" using assms(2,4) by (simp_all add: serves_def)
  have l: "length c \<le> room" using assms(5) by simp
  obtain f1 where f1: "lw_fseek L f 0 SEEK_END d = (f1, True)" "pth f1 = p" "pos f1 = length c"
    using lw_fileD(3)[OF assms(1), of d f c, unfolded f(2), OF assms(3) l] by blast
  note F = lw_fileD[OF assms(1), of d f1 c, unfolded f1(2,3), OF assms(3) l]
  obtain d' f2 where f2: "lw_fwrite L f1 (take n b) d = (d', f2, Some n)" "pth f2 = p"
      "cont d' = (cont d)(p \<mapsto> posix_write c (length c) (take n b))"
    using F(5)[of "take n b", unfolded n, OF order_refl assms(5)] by blast
  have "op_pappend L (of_nat n) (d, s) = ((d', s\<lparr>sv_file := Some f2\<rparr>), 0, of_nat n, of_nat (length c))"
    unfolding op_pappend_def using b f f1(1) f2(1)
    by (simp add: ensure_open_def clamp_len[OF assms(4)] unat_len[OF assms(4)] F(1) Let_def)
  moreover have "serves pth p b (s\<lparr>sv_file := Some f2\<rparr>)" using assms(2) f2(2) by (simp add: serves_def)
  moreover have "posix_write c (length c) (take n b) = c @ take n b" by (simp add: posix_write_def)
  ultimately show ?thesis using f2(3) by force
qed

section \<open>Requests behind one call\<close>

lemma read_chunks_ok:
  assumes "lw_ok L cont pth pos room" and "cont d p = Some c" and "length c \<le> room" and "0 < bsz" and "bsz \<le> 65536"
    and "serves pth p b s" and "off + remain \<le> length c" and "tot + remain < 2 ^ 31"
  shows "\<exists>s' b'. read_chunks L bsz remain (int off) tot (d, s) = Ret ((d, s'), take remain (drop off c), None) \<and> serves pth p b' s'"
  using assms(6-8)
proof (induction remain arbitrary: off tot s b rule: less_induct)
  case (less remain)
  show ?case
  proof (cases "remain = 0")
    case True
    then show ?thesis using less.prems(1) by (auto simp: read_chunks.simps)
  next
    case False
    define n where "n = (if remain > bsz then bsz else remain)"
    have n: "n \<le> 65536" "0 < n" "n \<le> remain" "off \<le> length c" using assms(4,5) False less.prems(2) by (auto simp: n_def)
    define x where "x = take n (drop off c)"
    have x: "length x = n" using n less.prems(2) by (simp add: x_def)
    obtain s1 b1 where r: "op_pread L (of_nat off) (of_nat n) (d, s) = ((d, s1), 0, of_nat n)" and s1: "serves pth p b1 s1"
      and b1: "take n b1 = x"
      using op_pread_ok[OF assms(1) less.prems(1) assms(2,3) n(4,1), folded x_def, unfolded x] by blast
    have b: "sv_buf s1 = Some b1" "length b1 = 65536" using s1 by (simp_all add: serves_def)
    have g: "(of_nat n :: u32) \<noteq> 0" using n(2) unat_len[OF n(1)] by (metis unat_0 less_irrefl)
    obtain s2 b2 where rest: "read_chunks L bsz (remain - n) (int (off + n)) (tot + n) (d, s1) = Ret ((d, s2), take (remain - n) (drop (off + n) c), None)"
      and s2: "serves pth p b2 s2"
      using less.IH[of "remain - n" b1 s1 "off + n" "tot + n"] s1 n less.prems by auto
    have "take remain (drop off c) = x @ take (remain - n) (drop (off + n) c)"
      using n(3) take_add[of n "remain - n" "drop off c"] by (simp add: x_def add.commute)
    moreover have "read_chunks L bsz remain (int off) tot (d, s) = Ret ((d, s2), x @ take (remain - n) (drop (off + n) c), None)"
      using False rest n(1,3) less.prems(3) r b b1 g
      by (subst read_chunks.simps) (simp add: n_def[symmetric] unat_len[OF n(1)] Let_def)
    ultimately show ?thesis using s2 by auto
  qed
qed

lemma read_iovs_ok:
  assumes "lw_ok L cont pth pos room" and "cont d p = Some c" and "length c \<le> room" and "0 < bsz" and "bsz \<le> 65536"
    and "serves pth p b s" and "off + sum_list ns \<le> length c" and "tot + sum_list ns < 2 ^ 31"
  shows "\<exists>s' b'. read_iovs L bsz ns (int off) tot (d, s) = Ret ((d, s'), take (sum_list ns) (drop off c), None) \<and> serves pth p b' s'"
  using assms(6-8)
proof (induction ns arbitrary: off tot s b)
  case (Cons n ns)
  define x where "x = take n (drop off c)"
  have x: "length x = n" using Cons.prems by (simp add: x_def)
  obtain s1 b1 where r: "read_chunks L bsz n (int off) tot (d, s) = Ret ((d, s1), x, None)" and s1: "serves pth p b1 s1"
    using read_chunks_ok[OF assms(1-5) Cons.prems(1), of off n tot] Cons.prems(2,3) unfolding x_def by auto
  obtain s2 b2 where rest: "read_iovs L bsz ns (int (off + n)) (tot + n) (d, s1) = Ret ((d, s2), take (sum_list ns) (drop (off + n) c), None)"
    and s2: "serves pth p b2 s2"
    using Cons.IH[OF s1, of "off + n" "tot + n"] Cons.prems(2,3) by auto
  have "take (n + sum_list ns) (drop off c) = x @ take (sum_list ns) (drop (off + n) c)"
    by (simp add: take_add x_def add.commute)
  then show ?case using r rest s2 x by auto
qed auto

lemma write_chunks_ok:
  assumes "lw_ok L cont pth pos room" and "0 < bsz" and "bsz \<le> 65536"
    and "serves pth p b s" and "cont d p = Some c" and "length c \<le> room" and "off \<le> length c" and "off + length src \<le> room"
    and "tot + length src < 2 ^ 31"
  shows "\<exists>d' s' b'. write_chunks L bsz False src (int off) tot (of_nat (length c)) (d, s) =
        Ret ((d', s'), int (off + length src), tot + length src, of_nat (length (posix_write c off src)), None)
      \<and> serves pth p b' s' \<and> cont d' = (cont d)(p \<mapsto> posix_write c off src)"
  using assms(4-9)
proof (induction "length src" arbitrary: src off tot s b d c rule: less_induct)
  case less
  show ?case
  proof (cases "src = []")
    case True
    then show ?thesis using less.prems(1,2) posix_write_Nil[OF less.prems(4)] by (auto simp: write_chunks.simps fun_upd_idem)
  next
    case False
    define n where "n = (if length src > bsz then bsz else length src)"
    have n: "n \<le> 65536" "0 < n" "n \<le> length src" using assms(2,3) False by (auto simp: n_def)
    define b1 where "b1 = take n src @ drop n b"
    define s1 where "s1 = s\<lparr>sv_buf := Some b1\<rparr>"
    have b: "sv_buf s = Some b" "length b = 65536" using less.prems(1) by (simp_all add: serves_def)
    have put: "mem_put b 0 (take n src) = Ret b1" using n b by (simp add: mem_put_def b1_def)
    have s1: "serves pth p b1 s1" using less.prems(1) n(1,3) by (auto simp: serves_def s1_def b1_def)
    have b1: "take n b1 = take n src" using n by (simp add: b1_def)
    obtain d2 s2 where w: "op_pwrite L (of_nat off) (of_nat n) (d, s1) = ((d2, s2), 0, of_nat n)"
      and s2: "serves pth p b1 s2" and d2: "cont d2 = (cont d)(p \<mapsto> posix_write c off (take n src))"
      using op_pwrite_ok[OF assms(1) s1 less.prems(2,3,4) n(1)] less.prems(5) n(3) b1 by auto
    have g: "(of_nat n :: u32) \<noteq> 0" "(0 :: u32) < of_nat n" using n(2) unat_len[OF n(1)] by (metis unat_0 less_irrefl, simp add: word_less_nat_alt)
    define c2 where "c2 = posix_write c off (take n src)"
    have c2: "length c2 = max (length c) (off + n)" using less.prems(4) n(3) by (simp add: c2_def length_posix_write)
    have room: "room < 2 ^ 63" using assms(1) by (simp add: lw_ok_def)
    have u: "unat (of_nat k :: u64) = k" if "k \<le> room" for k
      using that room unfolding unsigned_of_nat by (simp add: take_bit_nat_eq_self)
    have sz: "(if word_of_int (int off + int n) > (of_nat (length c) :: u64) then word_of_int (int off + int n) else of_nat (length c)) = (of_nat (length c2) :: u64)"
      using u[of "length c"] u[of "off + n"] less.prems(3,5) n(3) c2 by (simp add: word_less_nat_alt max_def flip: of_nat_add)
    have c2': "off + n \<le> length c2" "length c2 \<le> room" using c2 less.prems(3,5) n(3) by simp_all
    have pre: "length (drop n src) < length src" "cont d2 p = Some c2" "off + n + length (drop n src) \<le> room" "tot + n + length (drop n src) < 2 ^ 31"
      using n less.prems(5,6) d2 by (simp_all add: c2_def)
    obtain d3 s3 b3 where rest: "write_chunks L bsz False (drop n src) (int (off + n)) (tot + n) (of_nat (length c2)) (d2, s2) =
        Ret ((d3, s3), int (off + n + length (drop n src)), tot + n + length (drop n src), of_nat (length (posix_write c2 (off + n) (drop n src))), None)"
      and s3: "serves pth p b3 s3" and d3: "cont d3 = (cont d2)(p \<mapsto> posix_write c2 (off + n) (drop n src))"
      using less.hyps[OF pre(1) s2 pre(2) c2'(2,1) pre(3,4)] by blast
    have all: "posix_write c2 (off + n) (drop n src) = posix_write c off src"
      using posix_write_append[of c off "take n src" "drop n src"] n(3) by (simp add: c2_def)
    have "write_chunks L bsz False src (int off) tot (of_nat (length c)) (d, s) =
        Ret ((d3, s3), int (off + length src), tot + length src, of_nat (length (posix_write c off src)), None)"
      using False rest w put b n(3) g less.prems(6) sz unfolding all
      by (subst write_chunks.simps) (simp add: n_def[symmetric] unat_len[OF n(1)] s1_def[symmetric] Let_def)
    then show ?thesis using s3 d3 d2 all by (auto simp: c2_def[symmetric])
  qed
qed

lemma write_iovs_ok:
  assumes "lw_ok L cont pth pos room" and "0 < bsz" and "bsz \<le> 65536"
    and "serves pth p b s" and "cont d p = Some c" and "length c \<le> room" and "off \<le> length c"
    and "off + length (concat srcs) \<le> room" and "tot + length (concat srcs) < 2 ^ 31"
  shows "\<exists>d' s' b'. write_iovs L bsz False srcs (int off) tot (of_nat (length c)) (d, s) =
        Ret ((d', s'), int (off + length (concat srcs)), tot + length (concat srcs), of_nat (length (posix_write c off (concat srcs))), None)
      \<and> serves pth p b' s' \<and> cont d' = (cont d)(p \<mapsto> posix_write c off (concat srcs))"
  using assms(4-9)
proof (induction srcs arbitrary: off tot s b d c)
  case Nil
  then show ?case by (auto simp: fun_upd_idem posix_write_Nil)
next
  case (Cons src srcs)
  define c2 where "c2 = posix_write c off src"
  obtain d2 s2 b2 where w: "write_chunks L bsz False src (int off) tot (of_nat (length c)) (d, s) =
      Ret ((d2, s2), int (off + length src), tot + length src, of_nat (length c2), None)"
    and s2: "serves pth p b2 s2" and d2: "cont d2 = (cont d)(p \<mapsto> c2)"
    using write_chunks_ok[OF assms(1-3) Cons.prems(1-4), of src tot] Cons.prems(5,6) unfolding c2_def by auto
  have c2: "off + length src \<le> length c2" "length c2 \<le> room" "cont d2 p = Some c2"
    using Cons.prems(3-5) d2 by (simp_all add: c2_def length_posix_write)
  have pre: "off + length src + length (concat srcs) \<le> room" "tot + length src + length (concat srcs) < 2 ^ 31"
    using Cons.prems(5,6) by simp_all
  obtain d3 s3 b3 where rest: "write_iovs L bsz False srcs (int (off + length src)) (tot + length src) (of_nat (length c2)) (d2, s2) =
      Ret ((d3, s3), int (off + length src + length (concat srcs)), tot + length src + length (concat srcs),
        of_nat (length (posix_write c2 (off + length src) (concat srcs))), None)"
    and s3: "serves pth p b3 s3" and d3: "cont d3 = (cont d2)(p \<mapsto> posix_write c2 (off + length src) (concat srcs))"
    using Cons.IH[OF s2 c2(3,2,1) pre] by blast
  have "posix_write c2 (off + length src) (concat srcs) = posix_write c off (concat (src # srcs))"
    by (simp add: c2_def posix_write_append)
  then show ?case using w rest s3 d3 d2 by auto
qed

text \<open>Opening: the object of a path and the client's file on it.\<close>

lemma op_setup_ok:
  assumes "lw_ok L cont pth pos room" and "lw_fopen2 L p d = (d0, Some f)" and "length p \<le> 257"
    and "c = (case cont d p of None \<Rightarrow> [] | Some x \<Rightarrow> x)" and "length c \<le> room"
  obtains s b where "op_setup L (d, svr_new True True True p) = ((d0, s), 0, Some (of_nat (length c), BUF_SIZE))"
    and "serves pth p b s" and "cont d0 = (cont d)(p \<mapsto> c)"
proof -
  note f = lw_fopenD[OF assms(1,2), folded assms(4)]
  have z: "lw_fsize L f d0 = of_nat (length c)" using lw_fileD(1)[OF assms(1), of d0 f c] f assms(5) by simp
  define s where "s = (svr_new True True True p)\<lparr>sv_file := Some f\<rparr>"
  have "op_setup L (d, svr_new True True True p) = ((d0, s), 0, Some (of_nat (length c), BUF_SIZE))"
    using assms(2,3) z by (simp add: op_setup_def ensure_open_def svr_new_def s_def)
  moreover have "serves pth p (replicate 65536 NUL) s" using f(1) by (simp add: serves_def s_def svr_new_def)
  ultimately show ?thesis using f(2) that by blast
qed

text \<open>
  C38: a file of the ext4 server is a POSIX file for its clients. After opening a path, writing a list of
  buffers of any sizes at any offset up to the end of the file returns the full count and leaves
  the file with exactly these bytes in place, and no other file changed, although the data went in
  pieces through a bounce buffer of 64 KiB; the reported size is the new length; and reading the same
  range back, into whatever list of buffers, returns the bytes written. The disk has room, the library
  behaves as it documents, and one call transfers less than 2 GiB.
\<close>

theorem ext4_write_read_back:
  assumes "lw_ok L cont pth pos room" and "lw_fopen2 L p d = (d0, Some f)" and "length p \<le> 257"
    and "vfs_new L True True (d, svr_new True True True p) = (S0, v)"
    and "c = (case cont d p of None \<Rightarrow> [] | Some x \<Rightarrow> x)" and "length c \<le> room"
    and "off \<le> length c" and "off + length (concat srcs) \<le> room" and "length (concat srcs) < 2 ^ 31"
    and "sum_list ns = length (concat srcs)"
  shows "\<exists>S1 v1 S2. vfs_pwritev L srcs (int off) v S0 = Ret (S1, v1, int (length (concat srcs)))
    \<and> cont (fst S1) = (cont d)(p \<mapsto> posix_write c off (concat srcs))
    \<and> st_size (vfs_fstat v1) = int (length (posix_write c off (concat srcs)))
    \<and> vfs_preadv L ns (int off) v1 S1 = Ret (S2, int (length (concat srcs)), concat srcs)
    \<and> fst S2 = fst S1"
proof -
  obtain s b where su: "op_setup L (d, svr_new True True True p) = ((d0, s), 0, Some (of_nat (length c), BUF_SIZE))"
    and s: "serves pth p b s" and d0: "cont d0 = (cont d)(p \<mapsto> c)"
    using op_setup_ok[OF assms(1-3,5,6)] by blast
  then have S0: "S0 = (d0, s)" and v: "v = \<lparr>vf_buf_size = BUF_SIZE, vf_size = of_nat (length c), vf_append = False, vf_valid = True\<rparr>"
    using assms(4) by (simp_all add: vfs_new_def BUF_SIZE_def)
  define c2 where "c2 = posix_write c off (concat srcs)"
  have c2: "length c2 = max (length c) (off + length (concat srcs))" using assms(7) by (simp add: c2_def length_posix_write)
  then have room: "length c2 \<le> room" "length c2 < 2 ^ 63" using assms(1,6,8) by (simp_all add: lw_ok_def)
  obtain d1 s1 b1 where w: "write_iovs L 65536 False srcs (int off) 0 (of_nat (length c)) (d0, s) =
      Ret ((d1, s1), int (off + length (concat srcs)), length (concat srcs), of_nat (length c2), None)"
    and s1: "serves pth p b1 s1" and d1: "cont d1 = (cont d0)(p \<mapsto> c2)"
    using write_iovs_ok[OF assms(1) _ _ s _ assms(6,7,8), of 65536 d0 0] d0 assms(9) unfolding c2_def by auto
  have r: "take (sum_list ns) (drop off c2) = concat srcs"
    using assms(7,10) by (simp add: c2_def posix_write_def)
  obtain s2 b2 where rd: "read_iovs L 65536 ns (int off) 0 (d1, s1) = Ret ((d1, s2), concat srcs, None)"
    using read_iovs_ok[OF assms(1) _ room(1) _ _ s1, of d1 65536 off ns 0] d1 c2 assms(9,10) unfolding r by auto
  show ?thesis unfolding c2_def[symmetric]
  proof (intro exI conjI)
    show "vfs_pwritev L srcs (int off) v S0 = Ret ((d1, s1), v\<lparr>vf_size := of_nat (length c2)\<rparr>, int (length (concat srcs)))"
      using w by (simp add: vfs_pwritev_def S0 v)
    show "cont (fst (d1, s1)) = (cont d)(p \<mapsto> c2)" using d0 d1 by simp
    show "st_size (vfs_fstat (v\<lparr>vf_size := of_nat (length c2)\<rparr>)) = int (length c2)"
      using room(2) by (simp add: vfs_fstat_def sint_offset)
    show "vfs_preadv L ns (int off) (v\<lparr>vf_size := of_nat (length c2)\<rparr>) (d1, s1) = Ret ((d1, s2), int (length (concat srcs)), concat srcs)"
      using rd by (simp add: vfs_preadv_def v)
  qed simp
qed

section \<open>An instance of the library\<close>

text \<open>Files in memory, a handle is a path and a position.\<close>

definition mem_lib :: "(string \<rightharpoonup> string, string \<times> nat) lwext4" where
  "mem_lib = \<lparr> lw_fopen2 = (\<lambda>p d. (d(p \<mapsto> (case d p of None \<Rightarrow> [] | Some c \<Rightarrow> c)), Some (p, 0))),
     lw_fclose = (\<lambda>f d. d),
     lw_fsize = (\<lambda>(p, k) d. case d p of None \<Rightarrow> 0 | Some c \<Rightarrow> of_nat (length c)),
     lw_fseek = (\<lambda>(p, k) n w d. ((p, case w of SEEK_SET \<Rightarrow> nat n | SEEK_END \<Rightarrow> (case d p of None \<Rightarrow> 0 | Some c \<Rightarrow> length c - nat n)), True)),
     lw_fread = (\<lambda>(p, k) n d. case d p of None \<Rightarrow> ((p, k), None) | Some c \<Rightarrow> ((p, k + length (take n (drop k c))), Some (take n (drop k c)))),
     lw_fwrite = (\<lambda>(p, k) bs d. case d p of None \<Rightarrow> (d, (p, k), None) | Some c \<Rightarrow> (d(p \<mapsto> posix_write c k bs), (p, k + length bs), Some (length bs))),
     lw_ftruncate = (\<lambda>(p, k) n d. case d p of None \<Rightarrow> (d, (p, k), False) | Some c \<Rightarrow> (d(p \<mapsto> take (unat n) c), (p, k), True)) \<rparr>"

lemma mem_lib_ok: "room < 2 ^ 63 \<Longrightarrow> lw_ok mem_lib (\<lambda>d. d) fst snd room"
proof -
  assume "room < 2 ^ 63"
  then have "unat (of_nat n :: u64) = n" if "n \<le> room" for n
    using that unfolding unsigned_of_nat by (simp add: take_bit_nat_eq_self)
  with \<open>room < 2 ^ 63\<close> show ?thesis by (auto simp: lw_ok_def mem_lib_def)
qed

theorem ext4_write_read_back_witness:
  "\<exists>S0 v S1 v1 S2. vfs_new mem_lib True True ([''/a'' \<mapsto> ''hello''], svr_new True True True ''/a'') = (S0, v)
    \<and> vfs_pwritev mem_lib ['' wo'', ''rld''] 5 v S0 = Ret (S1, v1, 6) \<and> fst S1 = [''/a'' \<mapsto> ''hello world'']
    \<and> vfs_preadv mem_lib [4, 2] 5 v1 S1 = Ret (S2, 6, '' world'')"
proof -
  obtain S0 v where n: "vfs_new mem_lib True True ([''/a'' \<mapsto> ''hello''], svr_new True True True ''/a'') = (S0, v)" by fastforce
  have o: "lw_fopen2 mem_lib ''/a'' [''/a'' \<mapsto> ''hello''] = ([''/a'' \<mapsto> ''hello''], Some (''/a'', 0))" by (simp add: mem_lib_def)
  have w: "posix_write ''hello'' 5 '' world'' = ''hello world''" by (simp add: posix_write_def)
  show ?thesis
    using ext4_write_read_back[OF mem_lib_ok[of 100] o _ n refl, of 5 "['' wo'', ''rld'']" "[4, 2]"] n w by auto
qed

section \<open>Concurrent appenders\<close>

text \<open>
  Append requests of several clients, in the order in which the server takes them: each client copies its
  bytes into the bounce buffer of its own object and calls \<^verbatim>\<open>pappend\<close>. The answers are collected.
\<close>

fun append_reqs :: "('d, 'f) lwext4 \<Rightarrow> (nat \<times> string) list \<Rightarrow> 'd \<times> 'f file_svr list \<Rightarrow> ('d \<times> 'f file_svr list) \<times> (int \<times> u32 \<times> u64) list" where
  "append_reqs L [] S = (S, [])"
| "append_reqs L ((i, bs) # rs) (d, ss) =
     (let s = (ss ! i)\<lparr>sv_buf := map_option (\<lambda>b. bs @ drop (length bs) b) (sv_buf (ss ! i))\<rparr>
      in case op_pappend L (of_nat (length bs)) (d, s) of ((d', s'), r) \<Rightarrow>
           case append_reqs L rs (d', ss[i := s']) of (S, out) \<Rightarrow> (S, r # out))"



section \<open>Programs on the file system\<close>

text \<open>What the loader sees of an object: the answer to \<^verbatim>\<open>setup\<close>, and to a read request after it.\<close>

definition ext4_srv :: "('d, 'f) lwext4 \<Rightarrow> 'd \<times> 'f file_svr \<Rightarrow> file_srv" where
  "ext4_srv L S =
     (case op_setup L S of (S1, r, reply) \<Rightarrow>
        \<lparr>fs_setup = (if r < 0 then None else reply),
         fs_pread = (\<lambda>off n. case op_pread L (of_nat off) (of_nat n) S1 of (S2, r, got) \<Rightarrow>
           if r < 0 then None else Some (take (unat got) (case sv_buf (snd S2) of None \<Rightarrow> [] | Some b \<Rightarrow> b)))\<rparr>)"

lemma op_pread_clamped: "n < 2 ^ 32 \<Longrightarrow> op_pread L off (of_nat n) S = op_pread L off (of_nat (min n 65536)) S"
proof -
  assume "n < 2 ^ 32"
  then have "unat (of_nat n :: u32) = n" unfolding unsigned_of_nat by (simp add: take_bit_nat_eq_self)
  then have c: "(if of_nat n > BUF_SIZE then BUF_SIZE else of_nat n) = (of_nat (min n 65536) :: u32)"
    by (auto simp: word_less_nat_alt BUF_SIZE_def)
  show ?thesis unfolding op_pread_def c clamp_len[OF min.cobounded2] ..
qed



end
