(* ===== verification/Spec2Isabelle.thy ===== *)
theory Spec2Isabelle
  imports Spawnd_Run App_Model Syslogd Tmpfs_Dir Devfs Procfs Shell_Input Shell_Main Devmgr At24c02 Mcp2515 Rtc Ssd1306 Ds18b20 Ext4
begin

text \<open>
  A verification library for TuringOS, an operating system of servers and libraries on the L4Re
  microkernel (32-bit ARM, ILP32). The models are shallow embeddings: one definition per function
  of the source, with the source's guards, early returns and integer widths. The properties are the
  theorems announced by a text block with a number C<n>; the other lemmas carry them.

  \<^bold>\<open>The parts and how they interact.\<close> A user logs in at the shell, whose question is answered by the
  authentication server from a shadow file of SHA-256 hashes. The shell parses a line, redirects its
  output, and runs a builtin or asks the program loader to start a program; the loader keeps a table
  of its children, which a second thread, the reaper, watches, and which \<open>/proc/tasks\<close> prints. The device
  manager asks a second instance of the loader to start the drivers. Files live in the ext4 server, in the in-memory
  file system, in the device registry or are generated; log lines go into the ring of each process, to
  its file or to the log daemon. A date typed into the shell reaches the clock server and its chip,
  and from there the C library of every process. The drivers of the sensors, the display, the EEPROM and
  the CAN controller stand on bus interfaces.

  \<^bold>\<open>Theories.\<close>
  \<^item> \<open>Prelude\<close>: words, error codes, the outcome of C code (\<open>Ret\<close> a result, \<open>Fault\<close> an access outside of an
    object or an overflow of a signed type, \<open>Stuck\<close> a call that does not return), C strings, printing.
  \<^item> \<open>Task_Table\<close>, \<open>Spawnd\<close>, \<open>Spawnd_Run\<close>, \<open>App_Model\<close> (\<^verbatim>\<open>pkg/spawn/server/src\<close>): the child table with its
    contract \<open>handle_map\<close>; every request handler and the reaper, with the interleaving of the two threads at the
    lock as explicit lists of reaper events; the reachable states as an inductive predicate, with the table
    invariant and the conservation of capabilities, and what spawn, exec and wait promise;
    how a program is found and read and what a child gets.
  \<^item> \<open>Klog\<close>, \<open>Syslogd\<close> (\<^verbatim>\<open>pkg/klog\<close>, \<^verbatim>\<open>pkg/syslogd\<close>): the ring refines a bounded log (contract \<open>bounded_log\<close>),
    a flush appends each entry once, the daemon appends a line or reports an error.
  \<^item> \<open>Tmpfs_Inode\<close>, \<open>Tmpfs_Dir\<close>, \<open>Devfs\<close>, \<open>Procfs\<close> (\<^verbatim>\<open>pkg/tmpfs\<close>, \<^verbatim>\<open>pkg/devfs\<close>, \<^verbatim>\<open>pkg/procfs\<close>): file contents
    refine POSIX writes below 2 GiB and go wrong beyond; directories stay a tree; the registry is a
    map (contract \<open>name_map\<close>); generated files are snapshots. \<open>Dirents\<close> holds the contract \<open>dirent_stream\<close> that the
    directory readers of all of them meet.
  \<^item> \<open>Ext4\<close> (\<^verbatim>\<open>pkg/filesystem/ext4\<close>): the server's object of an open file and the file object of its clients, which
    exchange data through a shared bounce buffer; written data is read back, concurrent appends lose nothing, and a
    program is loaded as it is stored.
  \<^item> \<open>Sha256\<close>, \<open>Authd\<close> (\<^verbatim>\<open>pkg/mbedtls\<close>, \<^verbatim>\<open>pkg/authd\<close>): the streaming hash computes FIPS 180-4, the server
    accepts exactly the passwords of the shadow file.
  \<^item> \<open>Shell_Input\<close>, \<open>Shell_Parse\<close>, \<open>Shell_Jobs\<close>, \<open>Shell_Files\<close>, \<open>Shell_Sys\<close>, \<open>Shell_Main\<close>
    (\<^verbatim>\<open>pkg/native_shell/server/src\<close>): keyboard and login, the command line, jobs on the model of the loader, the
    builtins, and the effect of a whole line with its redirections.
  \<^item> \<open>Calendar\<close>, \<open>Rtc_Chips\<close>, \<open>Rtc\<close> (\<^verbatim>\<open>pkg/rtc\<close>): the calendar of the C library, three clock chips that meet the
    contract \<open>rtc_chip\<close>, and the clock server, up to the date command of the shell.
  \<^item> \<open>Buses\<close>, \<open>At24c02\<close>, \<open>Mcp2515\<close>, \<open>Ssd1306\<close>, \<open>Ds18b20\<close>, \<open>Devmgr\<close> (the packages of these names): drivers on
    buses that are parameters, and the device manager on the model of the loader.

  \<^bold>\<open>State and errors.\<close> A class or the file-scope variables of a server are a record, a handler a function from
  the record and the message to the new record and the reply. Negative error codes are \<open>err E\<close>. Pointers into a
  table are indices, references into the trees of the file systems are indices of append-only stores; memory is a
  list of bytes and an access outside of it is \<open>Fault\<close>.

  \<^bold>\<open>Parameters.\<close> Code outside of the repository is an argument: what the kernel, the ELF loader, the
  allocator, the C library's files, the VFS library and the devices answer. What is assumed of them is a named
  hypothesis of the property (\<open>eeprom_bus\<close>, \<open>register_file\<close>, \<open>rtc_works\<close>, \<open>lw_ok\<close> for the ext4 library), and each
  such property has a witness on a concrete instance.

  \<^bold>\<open>Bounds and fuel.\<close> There is no fuel: loops are structural or have a termination proof, and the loops that
  can run forever (the doubling of a capacity, a blocking read, polling) end in \<open>Stuck\<close> or follow a list of events, one
  for each round. Handles are assumed not to have wrapped (fewer than \<open>2 ^ 32 - 1\<close> spawns), the exit label carries
  30 bits of a handle, times fit 31 bits.

  \<^bold>\<open>Not modelled.\<close> Console messages, registration and the server loops of the \<^verbatim>\<open>main\<close> functions; the drawing of
  \<^verbatim>\<open>top\<close>; the virtual bus and bus controllers; virtio queues and the network server, which share memory with
  devices and are otherwise calls of lwip; the
  name space of the ext4 server, which probes a library that is not part of the repository; the tuner driver; third-party
  libraries beyond SHA-256; code taken over from L4Re (boot, I/O server, storage drivers, virtual machines).
  Data races inside critical sections are excluded by taking each of them as one step; what happens between
  them is modelled where two threads meet (loader, log, keyboard).
\<close>

end
